(* ===== verification/Sentry_Prelude.thy ===== *)
theory Sentry_Prelude
  imports Main "HOL-Library.Word" "HOL-Library.Char_ord" "HOL-Library.List_Lexorder"
begin

text \<open>
  The vocabulary every component shares: the machine integers of the C++ code, the ways an
  operation can fail (a thrown exception, or a step the C++ standard leaves undefined), the
  result type with its bind, and facts about lists that several components use.
\<close>

section \<open>Machine integers\<close>

type_synonym u8 = "8 word"
type_synonym u16 = "16 word"
type_synonym u32 = "32 word"
type_synonym u64 = "64 word"
type_synonym size_t = "64 word"

section \<open>Failures and results\<close>

text \<open>
  A C++ function that can throw returns a value of \<open>failure + 'a\<close>.  The first eight constructors
  are exceptions (with the numeric id of the JSON library's exceptions where there is one, and the
  byte position of its \<open>parse_error\<close>);
  \<open>Undefined_behaviour\<close> stands for a step whose effect the language does not define (use of an
  invalidated iterator, dereference of a null pointer, read of an indeterminate buffer), so no
  theorem can promise anything after it; \<open>Terminate\<close> for a call of \<open>std::terminate\<close> (an exception
  that leaves a \<open>noexcept\<close> function or the function of a thread, the destruction of a joinable
  \<open>std::thread\<close>).
\<close>

datatype failure =
    Type_error nat string
  | Invalid_iterator nat string
  | Parse_error nat nat string
  | Json_out_of_range nat string
  | Out_of_range string
  | Invalid_argument string
  | System_error string
  | Bad_alloc string
  | Undefined_behaviour string
  | Terminate string

type_synonym 'a res = "failure + 'a"

definition bind_res :: "('e + 'a) \<Rightarrow> ('a \<Rightarrow> 'e + 'b) \<Rightarrow> 'e + 'b" where
  "bind_res r f = (case r of Inl e \<Rightarrow> Inl e | Inr x \<Rightarrow> f x)"

definition is_ok :: "('e + 'a) \<Rightarrow> bool" where
  "is_ok r = (case r of Inl _ \<Rightarrow> False | Inr _ \<Rightarrow> True)"

named_theorems res_simps \<open>evaluation of results\<close>

lemma bind_res_Inl [simp, res_simps]: "bind_res (Inl e) f = Inl e"
  by (simp add: bind_res_def)

lemma bind_res_Inr [simp, res_simps]: "bind_res (Inr x) f = f x"
  by (simp add: bind_res_def)

lemma bind_res_eq_Inr:
  "bind_res r f = Inr y \<longleftrightarrow> (\<exists>x. r = Inr x \<and> f x = Inr y)"
  by (cases r) auto

lemma bind_res_assoc: "bind_res (bind_res r f) g = bind_res r (\<lambda>x. bind_res (f x) g)"
  by (cases r) auto

lemma is_ok_Inr [simp, res_simps]: "is_ok (Inr x)"
  by (simp add: is_ok_def)

lemma is_ok_Inl [simp, res_simps]: "\<not> is_ok (Inl e)"
  by (simp add: is_ok_def)

lemma is_ok_iff: "is_ok r \<longleftrightarrow> (\<exists>x. r = Inr x)"
  by (cases r) auto

text \<open>A loop that runs a fallible body over a list stops at the first failure.\<close>

fun map_res :: "('a \<Rightarrow> 'e + 'b) \<Rightarrow> 'a list \<Rightarrow> 'e + 'b list" where
  "map_res f [] = Inr []"
| "map_res f (x # xs) = bind_res (f x) (\<lambda>y. bind_res (map_res f xs) (\<lambda>ys. Inr (y # ys)))"

lemma map_res_cong [fundef_cong]:
  "xs = ys \<Longrightarrow> (\<And>x. x \<in> set ys \<Longrightarrow> f x = g x) \<Longrightarrow> map_res f xs = map_res g ys"
  by (induction xs arbitrary: ys) auto

lemma map_res_total: "(\<And>x. x \<in> set xs \<Longrightarrow> f x = Inr (g x)) \<Longrightarrow> map_res f xs = Inr (map g xs)"
  by (induction xs) auto

lemma map_res_length: "map_res f xs = Inr ys \<Longrightarrow> length ys = length xs"
  by (induction xs arbitrary: ys) (auto simp: bind_res_eq_Inr)

section \<open>Lists\<close>

definition last_n :: "nat \<Rightarrow> 'a list \<Rightarrow> 'a list" where
  "last_n n xs = drop (length xs - n) xs"

lemma last_n_short: "length xs \<le> n \<Longrightarrow> last_n n xs = xs"
  by (simp add: last_n_def)

lemma length_last_n: "length (last_n n xs) = min n (length xs)"
  by (simp add: last_n_def)

lemma last_n_snoc:
  "last_n n (last_n n xs @ [x]) = last_n n (xs @ [x])"
proof (cases "length xs \<le> n")
  case True
  then show ?thesis by (simp add: last_n_short)
next
  case False
  then have "length (last_n n xs) = n" by (simp add: length_last_n)
  then show ?thesis using False
    by (cases n) (simp_all add: last_n_def Suc_diff_Suc)
qed

lemma last_n_tl: "length xs = Suc n \<Longrightarrow> last_n n xs = tl xs"
  by (simp add: last_n_def drop_Suc)

lemma last_n_append: "last_n n (last_n n xs @ ys) = last_n n (xs @ ys)"
proof (induction ys rule: rev_induct)
  case Nil
  then show ?case by (simp add: last_n_def)
next
  case (snoc y ys)
  then show ?case
    using last_n_snoc [of n "last_n n xs @ ys" y] last_n_snoc [of n "xs @ ys" y] by simp
qed

lemma hd_dropWhile_not: "dropWhile P xs \<noteq> [] \<Longrightarrow> \<not> P (hd (dropWhile P xs))"
  by (induction xs) auto

end
