(* ===== verification/Cxx_Strings.thy ===== *)
theory Cxx_Strings
  imports Sentry_Prelude
begin

text \<open>
  The part of the C++ string library the code uses: \<open>std::string\<close> as a list of bytes with
  positions of type \<open>size_t\<close> (so that \<open>npos\<close> is the largest position and arithmetic on positions
  wraps), searching and \<open>substr\<close>, \<open>std::stoul\<close> with its exceptions, printing of unsigned numbers
  in a base, padding, and \<open>tolower\<close> of the C locale.
\<close>

section \<open>Positions, search, substr\<close>

definition npos :: size_t where
  "npos = - 1"

fun index_of :: "char \<Rightarrow> string \<Rightarrow> nat option" where
  "index_of c [] = None"
| "index_of c (x # xs) = (if x = c then Some 0 else map_option Suc (index_of c xs))"

fun last_index_of :: "char \<Rightarrow> string \<Rightarrow> nat option" where
  "last_index_of c [] = None"
| "last_index_of c (x # xs) =
     (case last_index_of c xs of
        Some i \<Rightarrow> Some (Suc i)
      | None \<Rightarrow> (if x = c then Some 0 else None))"

definition str_find :: "char \<Rightarrow> string \<Rightarrow> size_t" where
  "str_find c s = (case index_of c s of None \<Rightarrow> npos | Some i \<Rightarrow> of_nat i)"

definition str_rfind :: "char \<Rightarrow> string \<Rightarrow> size_t" where
  "str_rfind c s = (case last_index_of c s of None \<Rightarrow> npos | Some i \<Rightarrow> of_nat i)"

definition str_substr :: "string \<Rightarrow> size_t \<Rightarrow> size_t \<Rightarrow> string res" where
  "str_substr s pos n =
     (if length s < unat pos then Inl (Out_of_range ''basic_string::substr'')
      else Inr (take (unat n) (drop (unat pos) s)))"

lemma index_of_None [simp]: "index_of c s = None \<longleftrightarrow> c \<notin> set s"
  by (induction s) auto

lemma index_of_append: "c \<notin> set xs \<Longrightarrow> index_of c (xs @ c # ys) = Some (length xs)"
  by (induction xs) auto

lemma last_index_of_None [simp]: "last_index_of c s = None \<longleftrightarrow> c \<notin> set s"
  by (induction s) (auto split: option.splits)

lemma last_index_of_append: "c \<notin> set ys \<Longrightarrow> last_index_of c (xs @ c # ys) = Some (length xs)"
  by (induction xs) (auto split: option.splits)

lemma str_find_absent: "c \<notin> set s \<Longrightarrow> str_find c s = npos"
  by (simp add: str_find_def flip: index_of_None)

lemma str_rfind_absent: "c \<notin> set s \<Longrightarrow> str_rfind c s = npos"
  by (simp add: str_rfind_def flip: last_index_of_None)

lemma str_find_append: "c \<notin> set xs \<Longrightarrow> str_find c (xs @ c # ys) = of_nat (length xs)"
  by (simp add: str_find_def index_of_append)

lemma str_rfind_append: "c \<notin> set ys \<Longrightarrow> str_rfind c (xs @ c # ys) = of_nat (length xs)"
  by (simp add: str_rfind_def last_index_of_append)

lemma unat_of_nat_size: "n < 2 ^ 64 \<Longrightarrow> unat (of_nat n :: size_t) = n"
  by (simp add: unat_of_nat take_bit_nat_eq_self)

lemma unat_npos: "unat npos = 2 ^ 64 - 1"
  by (simp add: npos_def unsigned_minus_1_eq_mask mask_eq_exp_minus_1)

lemma str_substr_prefix:
  assumes "length xs < 2 ^ 64"
  shows "str_substr (xs @ ys) 0 (of_nat (length xs)) = Inr xs"
  using assms by (simp add: str_substr_def unat_of_nat_size)

lemma str_substr_middle:
  assumes "length xs < 2 ^ 64" "length ys < 2 ^ 64"
  shows "str_substr (xs @ ys @ zs) (of_nat (length xs)) (of_nat (length ys)) = Inr ys"
  using assms by (simp add: str_substr_def unat_of_nat_size)

lemma str_substr_rest:
  assumes "length xs < 2 ^ 64" "length ys < 2 ^ 64"
  shows "str_substr (xs @ ys) (of_nat (length xs)) npos = Inr ys"
  using assms by (simp add: str_substr_def unat_of_nat_size unat_npos)

section \<open>Characters and digits\<close>

definition is_space :: "char \<Rightarrow> bool" where
  "is_space c = (of_char c = (32::nat) \<or> (9 \<le> (of_char c :: nat) \<and> of_char c \<le> (13::nat)))"

definition tolower :: "char \<Rightarrow> char" where
  "tolower c =
     (let n = (of_char c :: nat) in if 65 \<le> n \<and> n \<le> 90 then char_of (n + 32) else c)"

definition digit_char :: "nat \<Rightarrow> char" where
  "digit_char d = (if d < 10 then char_of (48 + d) else char_of (87 + d))"

definition digit_value :: "char \<Rightarrow> nat option" where
  "digit_value c =
     (let n = (of_char c :: nat) in
      if 48 \<le> n \<and> n \<le> 57 then Some (n - 48)
      else if 97 \<le> n \<and> n \<le> 122 then Some (n - 87)
      else if 65 \<le> n \<and> n \<le> 90 then Some (n - 55)
      else None)"

lemma digit_char_eval [simp]:
  "digit_char 0 = CHR ''0''" "digit_char (Suc 0) = CHR ''1''" "digit_char 1 = CHR ''1''"
  "digit_char 2 = CHR ''2''" "digit_char 3 = CHR ''3''" "digit_char 4 = CHR ''4''"
  "digit_char 5 = CHR ''5''" "digit_char 6 = CHR ''6''" "digit_char 7 = CHR ''7''"
  "digit_char 8 = CHR ''8''" "digit_char 9 = CHR ''9''" "digit_char 10 = CHR ''a''"
  "digit_char 11 = CHR ''b''" "digit_char 12 = CHR ''c''" "digit_char 13 = CHR ''d''"
  "digit_char 14 = CHR ''e''" "digit_char 15 = CHR ''f''"
  by code_simp+

lemma of_char_digit_char:
  "d < 36 \<Longrightarrow> (of_char (digit_char d) :: nat) = (if d < 10 then 48 + d else 87 + d)"
  by (simp add: digit_char_def)

lemma digit_value_digit_char [simp]: "d < 36 \<Longrightarrow> digit_value (digit_char d) = Some d"
  by (simp add: digit_value_def of_char_digit_char)

lemma digit_char_not_space: "d < 36 \<Longrightarrow> \<not> is_space (digit_char d)"
  by (simp add: is_space_def of_char_digit_char)

lemma digit_char_inj: "d < 36 \<Longrightarrow> e < 36 \<Longrightarrow> digit_char d = digit_char e \<Longrightarrow> d = e"
  by (metis digit_value_digit_char option.inject)

section \<open>Printing a number in a base\<close>

function show_base :: "nat \<Rightarrow> nat \<Rightarrow> string" where
  "show_base b n =
     (if b < 2 \<or> n < b then [digit_char n] else show_base b (n div b) @ [digit_char (n mod b)])"
  by pat_completeness auto
termination
  by (relation "measure (\<lambda>(b, n). n)") auto

declare show_base.simps [simp del]

abbreviation show_nat :: "nat \<Rightarrow> string" where
  "show_nat \<equiv> show_base 10"

abbreviation show_hex :: "nat \<Rightarrow> string" where
  "show_hex \<equiv> show_base 16"

text \<open>\<open>std::to_string\<close> of a signed number.\<close>

definition show_int :: "int \<Rightarrow> string" where
  "show_int i = (if i < 0 then ''-'' @ show_nat (nat (- i)) else show_nat (nat i))"

definition pad_left :: "nat \<Rightarrow> char \<Rightarrow> string \<Rightarrow> string" where
  "pad_left n c s = replicate (n - length s) c @ s"

fun take_digits :: "nat \<Rightarrow> string \<Rightarrow> nat list" where
  "take_digits b [] = []"
| "take_digits b (c # cs) =
     (case digit_value c of
        Some d \<Rightarrow> (if d < b then d # take_digits b cs else [])
      | None \<Rightarrow> [])"

definition digits_value :: "nat \<Rightarrow> nat list \<Rightarrow> nat" where
  "digits_value b ds = foldl (\<lambda>a d. a * b + d) 0 ds"

lemma digits_value_snoc: "digits_value b (ds @ [d]) = digits_value b ds * b + d"
  by (simp add: digits_value_def)

lemma show_base_small: "n < b \<Longrightarrow> show_base b n = [digit_char n]"
  by (subst show_base.simps) simp

lemma show_base_step:
  "2 \<le> b \<Longrightarrow> b \<le> n \<Longrightarrow> show_base b n = show_base b (n div b) @ [digit_char (n mod b)]"
  by (subst show_base.simps) simp

text \<open>The printed digits are digits of the base and denote the number.\<close>

lemma show_base_digits:
  assumes "2 \<le> b" "b \<le> 36"
  shows "\<exists>ds. show_base b n = map digit_char ds \<and> ds \<noteq> [] \<and> (\<forall>d\<in>set ds. d < b)
    \<and> digits_value b ds = n"
  using assms
proof (induction b n rule: show_base.induct)
  case (1 b n)
  show ?case
  proof (cases "n < b")
    case True
    then show ?thesis
      by (intro exI [of _ "[n]"]) (simp add: show_base_small digits_value_def)
  next
    case False
    with 1 obtain ds where "show_base b (n div b) = map digit_char ds" "\<forall>d\<in>set ds. d < b"
      "digits_value b ds = n div b"
      by auto
    with False 1 show ?thesis
      by (intro exI [of _ "ds @ [n mod b]"]) (auto simp: show_base_step digits_value_snoc)
  qed
qed

lemma take_digits_map:
  assumes "\<forall>d\<in>set ds. d < b" "b \<le> 36" "take_digits b rest = []"
  shows "take_digits b (map digit_char ds @ rest) = ds"
  using assms
proof (induction ds)
  case (Cons d ds)
  from Cons.prems have "d < 36" by auto
  with Cons show ?case by simp
qed simp

lemma take_digits_show_base:
  assumes "2 \<le> b" "b \<le> 36" "take_digits b rest = []"
  shows "digits_value b (take_digits b (show_base b n @ rest)) = n"
    and "take_digits b (show_base b n @ rest) \<noteq> []"
proof -
  obtain ds where ds: "show_base b n = map digit_char ds" "ds \<noteq> []" "\<forall>d\<in>set ds. d < b"
    "digits_value b ds = n"
    using show_base_digits [OF assms(1,2)] by blast
  have "take_digits b (show_base b n @ rest) = ds"
    unfolding ds(1) by (rule take_digits_map [OF ds(3) assms(2,3)])
  with ds show "digits_value b (take_digits b (show_base b n @ rest)) = n"
    and "take_digits b (show_base b n @ rest) \<noteq> []" by simp_all
qed

lemma show_base_nonempty: "show_base b n \<noteq> []"
  by (subst show_base.simps) simp

lemma show_base_set:
  assumes "2 \<le> b" "b \<le> 36"
  shows "set (show_base b n) \<subseteq> digit_char ` {..<b}"
  using show_base_digits [OF assms, of n] by force

lemma show_base_length:
  assumes "2 \<le> b" "n < b ^ k" "0 < k"
  shows "length (show_base b n) \<le> k"
  using assms
proof (induction b n arbitrary: k rule: show_base.induct)
  case (1 b n)
  show ?case
  proof (cases "n < b")
    case True
    with 1 show ?thesis by (simp add: show_base_small)
  next
    case False
    then obtain k' where k': "k = Suc k'" "0 < k'"
      using "1.prems" by (cases k; cases "k - 1") auto
    then have "n div b < b ^ k'"
      using "1.prems" by (simp add: less_mult_imp_div_less mult.commute)
    then have "length (show_base b (n div b)) \<le> k'"
      using 1 False k' by auto
    with False "1.prems" k' show ?thesis by (simp add: show_base_step)
  qed
qed

lemma length_pad_left: "length (pad_left n c s) = max n (length s)"
  by (simp add: pad_left_def)

section \<open>std::stoul\<close>

text \<open>
  \<open>std::stoul(s, nullptr, base)\<close> skips white space, takes a sign, recognises the prefix of the
  base (base 0 chooses 16, 8 or 10 from it) and reads digits as far as they go.  No digit is
  \<open>invalid_argument\<close>, a magnitude beyond the 64 bits of \<open>unsigned long\<close> is \<open>out_of_range\<close>, and a
  minus sign negates modulo \<open>2 ^ 64\<close>.
\<close>

definition stoul_prefix :: "nat \<Rightarrow> string \<Rightarrow> nat \<times> string" where
  "stoul_prefix base s =
     (if (base = 0 \<or> base = 16) \<and> 3 \<le> length s \<and> hd s = CHR ''0'' \<and> tolower (s ! 1) = CHR ''x''
         \<and> take_digits 16 (drop 2 s) \<noteq> []
      then (16, drop 2 s)
      else if base = 0 then (if s \<noteq> [] \<and> hd s = CHR ''0'' then 8 else 10, s)
      else (base, s))"

definition stoul :: "nat \<Rightarrow> string \<Rightarrow> u64 res" where
  "stoul base s =
     (let s1 = dropWhile is_space s;
          neg = (s1 \<noteq> [] \<and> hd s1 = CHR ''-'');
          s2 = (if s1 \<noteq> [] \<and> (hd s1 = CHR ''-'' \<or> hd s1 = CHR ''+'') then tl s1 else s1);
          (b, s3) = stoul_prefix base s2;
          ds = take_digits b s3;
          v = digits_value b ds
      in if ds = [] then Inl (Invalid_argument ''stoul'')
         else if 2 ^ 64 \<le> v then Inl (Out_of_range ''stoul'')
         else Inr (if neg then - of_nat v else of_nat v))"

lemma digit_char_neq: "d < 36 \<Longrightarrow> digit_value c = None \<Longrightarrow> digit_char d \<noteq> c"
  by auto

lemma digit_value_signs [simp]:
  "digit_value (CHR ''-'') = None" "digit_value (CHR ''+'') = None"
  "digit_value (CHR '' '') = None" "digit_value (CHR '':'') = None"
  "digit_value (CHR 0x0D) = None"
  by (simp_all add: digit_value_def)

lemma show_base_hd:
  assumes "2 \<le> b" "b \<le> 36"
  shows "\<exists>d<b. hd (show_base b n) = digit_char d \<and> (0 < n \<longrightarrow> 0 < d)"
  using assms
proof (induction b n rule: show_base.induct)
  case (1 b n)
  show ?case
  proof (cases "n < b")
    case True
    then show ?thesis by (intro exI [of _ n]) (simp add: show_base_small)
  next
    case False
    with 1 have "0 < n div b" by (simp add: div_greater_zero_iff)
    with 1 False show ?thesis by (auto simp: show_base_step show_base_nonempty)
  qed
qed

lemma dropWhile_show_base:
  assumes "2 \<le> b" "b \<le> 36"
  shows "dropWhile is_space (show_base b n @ rest) = show_base b n @ rest"
proof -
  obtain d where "d < b" "hd (show_base b n) = digit_char d"
    using show_base_hd [OF assms] by blast
  with assms have "\<not> is_space (hd (show_base b n))" by (simp add: digit_char_not_space)
  then show ?thesis by (cases "show_base b n") (auto simp: show_base_nonempty)
qed

lemma stoul_show_base:
  assumes "2 \<le> b" "b \<le> 36" "take_digits b rest = []" "n < 2 ^ 64"
    and prefix: "stoul_prefix base (show_base b n @ rest) = (b, show_base b n @ rest)"
  shows "stoul base (show_base b n @ rest) = Inr (of_nat n)"
proof -
  obtain d where d: "d < b" "hd (show_base b n) = digit_char d"
    using show_base_hd [OF assms(1,2)] by blast
  with assms have "hd (show_base b n) \<noteq> CHR ''-''" "hd (show_base b n) \<noteq> CHR ''+''"
    using digit_char_neq [of d] by auto
  with assms show ?thesis
    by (simp add: stoul_def dropWhile_show_base show_base_nonempty prefix take_digits_show_base)
qed

text \<open>Reading back a printed decimal number gives the number.\<close>

lemma stoul_show_nat:
  assumes "take_digits 10 rest = []" "n < 2 ^ 64"
  shows "stoul 10 (show_nat n @ rest) = Inr (of_nat n)"
  by (rule stoul_show_base) (use assms in \<open>simp_all add: stoul_prefix_def\<close>)

lemma stoul_auto_show_nat:
  assumes "n < 2 ^ 64"
  shows "stoul 0 (show_nat n) = Inr (of_nat n)"
proof (cases "n = 0")
  case True
  then show ?thesis
    by (simp add: show_base_small stoul_def is_space_def stoul_prefix_def digit_value_def
        digits_value_def Let_def)
next
  case False
  then obtain d where d: "d < 10" "hd (show_nat n) = digit_char d" "0 < d"
    using show_base_hd [of 10 n] by auto
  then have "hd (show_nat n) \<noteq> CHR ''0''"
    using digit_char_inj [of d 0] by auto
  then have "stoul_prefix 0 (show_nat n) = (10, show_nat n)"
    by (simp add: stoul_prefix_def)
  with assms stoul_show_base [of 10 "[]" n 0] show ?thesis by simp
qed

lemma stoul_no_digits:
  "s = c # cs \<Longrightarrow> \<not> is_space c \<Longrightarrow> c \<noteq> CHR ''-'' \<Longrightarrow> c \<noteq> CHR ''+'' \<Longrightarrow> digit_value c = None
   \<Longrightarrow> stoul base s = Inl (Invalid_argument ''stoul'')"
proof -
  assume c: "s = c # cs" "\<not> is_space c" "c \<noteq> CHR ''-''" "c \<noteq> CHR ''+''" "digit_value c = None"
  then have "c \<noteq> CHR ''0''" by (auto simp: digit_value_def)
  with c show "stoul base s = Inl (Invalid_argument ''stoul'')"
    by (simp add: stoul_def stoul_prefix_def Let_def)
qed

definition is_digit :: "char \<Rightarrow> bool" where
  "is_digit c \<longleftrightarrow> 48 \<le> (of_char c :: nat) \<and> (of_char c :: nat) \<le> 57"

lemma is_digit_digit_char: "d < 10 \<Longrightarrow> is_digit (digit_char d)"
  by (simp add: is_digit_def of_char_digit_char)

lemma take_digits_10_Cons: "\<not> is_digit c \<Longrightarrow> take_digits 10 (c # cs) = []"
  by (auto simp: is_digit_def digit_value_def Let_def)

lemma stoul_10_no_digits:
  assumes "\<not> is_digit c" "\<not> is_space c" "c \<noteq> CHR ''-''" "c \<noteq> CHR ''+''"
  shows "stoul 10 (c # cs) = Inl (Invalid_argument ''stoul'')"
  using assms take_digits_10_Cons [OF assms(1)]
  by (simp add: stoul_def stoul_prefix_def Let_def del: take_digits.simps)

section \<open>Lines\<close>

lemma takeWhile_line [simp]: "c \<notin> set t \<Longrightarrow> takeWhile (\<lambda>x. x \<noteq> c) (t @ c # rest) = t"
  by (induction t) auto

lemma dropWhile_line [simp]: "c \<notin> set t \<Longrightarrow> dropWhile (\<lambda>x. x \<noteq> c) (t @ c # rest) = c # rest"
  by (induction t) auto

lemma takeWhile_whole [simp]: "c \<notin> set t \<Longrightarrow> takeWhile (\<lambda>x. x \<noteq> c) t = t"
  by (induction t) auto

lemma dropWhile_whole [simp]: "c \<notin> set t \<Longrightarrow> dropWhile (\<lambda>x. x \<noteq> c) t = []"
  by (induction t) auto

text \<open>The lines of a text; the last one is not ended by a line feed and may be empty.\<close>

function split_lines :: "string \<Rightarrow> string list" where
  "split_lines s =
     (if CHR 0x0A \<in> set s
      then takeWhile (\<lambda>c. c \<noteq> CHR 0x0A) s # split_lines (tl (dropWhile (\<lambda>c. c \<noteq> CHR 0x0A) s))
      else [s])"
  by pat_completeness auto
termination
proof (relation "measure length", goal_cases)
  case (2 s)
  then have "dropWhile (\<lambda>c. c \<noteq> CHR 0x0A) s \<noteq> []" by (auto simp: dropWhile_eq_Nil_conv)
  then show ?case using length_dropWhile_le [of "\<lambda>c. c \<noteq> CHR 0x0A" s]
    by (cases "dropWhile (\<lambda>c. c \<noteq> CHR 0x0A) s") auto
qed simp

declare split_lines.simps [simp del]

end
