(* ===== verification/Sentry_Common.thy ===== *)
theory Sentry_Common
  imports Cxx_Strings
begin

text \<open>
  \<open>include/sentry_common.h\<close> and \<open>src/sentry_common.cpp\<close>: the error codes with their
  descriptions, the event levels and their names, and the constants of the library.
\<close>

definition NANOSECONDS_IN_SECOND :: u64 where
  "NANOSECONDS_IN_SECOND = 1000000000"

definition MILLISECONDS_IN_SECOND :: u64 where
  "MILLISECONDS_IN_SECOND = 1000"

definition HTTP_CLIENT_TIMOUT_IN_SECONDS :: size_t where
  "HTTP_CLIENT_TIMOUT_IN_SECONDS = 1"

datatype EErrorCode = NO_ERROR | NO_DSN | WRONG_DSN | CONNECTION_ERROR | EErrorCode_SIZE

fun getErrorDescription :: "EErrorCode \<Rightarrow> string" where
  "getErrorDescription NO_ERROR = ''No error occured''"
| "getErrorDescription NO_DSN =
     ''Sentry diabled. No DSN key provided. DSN key must be passed to init function or SENTRY_DSN environment variable must be set.''"
| "getErrorDescription WRONG_DSN = ''Wrong DNS key provided!''"
| "getErrorDescription CONNECTION_ERROR =
     ''Failed to establish connection. Event will be stored and retried later.''"
| "getErrorDescription EErrorCode_SIZE = ''Unknown error code''"

text \<open>
  \<open>enum class EventLevel\<close> has the underlying type \<open>int\<close> and can hold any \<open>int\<close>; the named
  levels are five of its values, and levels are compared as those integers.
\<close>

datatype EventLevel = EventLevel (level_value: int)

definition LEVEL_DEBUG :: EventLevel where "LEVEL_DEBUG = EventLevel (- 1)"
definition LEVEL_INFO :: EventLevel where "LEVEL_INFO = EventLevel 0"
definition LEVEL_WARNING :: EventLevel where "LEVEL_WARNING = EventLevel 1"
definition LEVEL_ERROR :: EventLevel where "LEVEL_ERROR = EventLevel 2"
definition LEVEL_FATAL :: EventLevel where "LEVEL_FATAL = EventLevel 3"

lemmas level_defs = LEVEL_DEBUG_def LEVEL_INFO_def LEVEL_WARNING_def LEVEL_ERROR_def LEVEL_FATAL_def

instantiation EventLevel :: linorder
begin

definition less_eq_EventLevel :: "EventLevel \<Rightarrow> EventLevel \<Rightarrow> bool" where
  "less_eq_EventLevel a b \<longleftrightarrow> level_value a \<le> level_value b"

definition less_EventLevel :: "EventLevel \<Rightarrow> EventLevel \<Rightarrow> bool" where
  "less_EventLevel a b \<longleftrightarrow> level_value a < level_value b"

instance
  by standard (auto simp: less_eq_EventLevel_def less_EventLevel_def EventLevel.expand)

end

definition levelToString :: "EventLevel \<Rightarrow> string" where
  "levelToString level =
     (if level = LEVEL_FATAL then ''fatal''
      else if level = LEVEL_ERROR then ''error''
      else if level = LEVEL_WARNING then ''warning''
      else if level = LEVEL_DEBUG then ''debug''
      else if level = LEVEL_INFO then ''info''
      else ''unknown'')"

lemma levelToString_simps [simp]:
  "levelToString LEVEL_FATAL = ''fatal''" "levelToString LEVEL_ERROR = ''error''"
  "levelToString LEVEL_WARNING = ''warning''" "levelToString LEVEL_DEBUG = ''debug''"
  "levelToString LEVEL_INFO = ''info''"
  by (simp_all add: levelToString_def level_defs)

lemma levelToString_nonempty [simp]: "levelToString l \<noteq> []"
  by (simp add: levelToString_def)

end
