(* ===== verification/Ordered_Map.thy ===== *)
theory Ordered_Map
  imports Sentry_Prelude
begin

text \<open>
  \<open>std::map\<close> and \<open>std::multimap\<close> as lists of key/value pairs in key order.  The interface the
  clients rely on is the locale \<open>std_map\<close> (and \<open>std_multimap\<close> for the counting map of the hub);
  the list operations below interpret it.  Note the difference that matters to the code:
  \<open>emplace\<close> and \<open>insert\<close> leave an existing binding alone, \<open>operator[]\<close> with an assignment replaces
  it.
\<close>

section \<open>std::map\<close>

fun om_emplace :: "'k::linorder \<Rightarrow> 'v \<Rightarrow> ('k \<times> 'v) list \<Rightarrow> ('k \<times> 'v) list" where
  "om_emplace k v [] = [(k, v)]"
| "om_emplace k v ((k', v') # xs) =
     (if k < k' then (k, v) # (k', v') # xs
      else if k = k' then (k', v') # xs
      else (k', v') # om_emplace k v xs)"

fun om_put :: "'k::linorder \<Rightarrow> 'v \<Rightarrow> ('k \<times> 'v) list \<Rightarrow> ('k \<times> 'v) list" where
  "om_put k v [] = [(k, v)]"
| "om_put k v ((k', v') # xs) =
     (if k < k' then (k, v) # (k', v') # xs
      else if k = k' then (k, v) # xs
      else (k', v') # om_put k v xs)"

definition om_erase :: "'k \<Rightarrow> ('k \<times> 'v) list \<Rightarrow> ('k \<times> 'v) list" where
  "om_erase k xs = filter (\<lambda>(k', _). k' \<noteq> k) xs"

definition om_ok :: "('k::linorder \<times> 'v) list \<Rightarrow> bool" where
  "om_ok xs = sorted_wrt (<) (map fst xs)"

locale std_map =
  fixes empty_map :: "'m"
    and lookup :: "'m \<Rightarrow> 'k \<Rightarrow> 'v option"
    and emplace :: "'k \<Rightarrow> 'v \<Rightarrow> 'm \<Rightarrow> 'm"
    and put :: "'k \<Rightarrow> 'v \<Rightarrow> 'm \<Rightarrow> 'm"
    and erase :: "'k \<Rightarrow> 'm \<Rightarrow> 'm"
    and ok :: "'m \<Rightarrow> bool"
  assumes lookup_empty: "lookup empty_map = (\<lambda>_. None)"
    and lookup_emplace: "ok m \<Longrightarrow> lookup (emplace k v m) =
          (case lookup m k of None \<Rightarrow> (lookup m)(k \<mapsto> v) | Some _ \<Rightarrow> lookup m)"
    and lookup_put: "ok m \<Longrightarrow> lookup (put k v m) = (lookup m)(k \<mapsto> v)"
    and lookup_erase: "ok m \<Longrightarrow> lookup (erase k m) = (lookup m)(k := None)"
    and ok_empty: "ok empty_map"
    and ok_emplace: "ok m \<Longrightarrow> ok (emplace k v m)"
    and ok_put: "ok m \<Longrightarrow> ok (put k v m)"
    and ok_erase: "ok m \<Longrightarrow> ok (erase k m)"
begin

lemmas ok_intros = ok_empty ok_emplace ok_put ok_erase

lemma emplace_bound: "ok m \<Longrightarrow> lookup m k = Some v \<Longrightarrow> lookup (emplace k w m) = lookup m"
  by (simp add: lookup_emplace)

lemma emplace_unbound:
  "ok m \<Longrightarrow> lookup m k = None \<Longrightarrow> lookup (emplace k v m) = (lookup m)(k \<mapsto> v)"
  by (simp add: lookup_emplace)

text \<open>The first value stored under a key by \<open>emplace\<close> is the one that stays.\<close>

lemma emplace_first_wins:
  "ok m \<Longrightarrow> lookup (emplace k w (emplace k v m)) = lookup (emplace k v m)"
  by (simp add: lookup_emplace ok_emplace split: option.split)

lemma erase_then_emplace:
  "ok m \<Longrightarrow> lookup (emplace k v (erase k m)) = (lookup m)(k \<mapsto> v)"
  by (simp add: lookup_emplace lookup_erase ok_erase)

lemma emplace_other: "ok m \<Longrightarrow> k \<noteq> k' \<Longrightarrow> lookup (emplace k v m) k' = lookup m k'"
  by (simp add: lookup_emplace split: option.split)

lemma fold_emplace_ok: "ok m \<Longrightarrow> ok (fold (\<lambda>(k, v). emplace k v) kvs m)"
  by (induction kvs arbitrary: m) (auto simp: ok_emplace)

text \<open>Inserting a range keeps every old binding and adds the first new one of each other key.\<close>

lemma lookup_fold_emplace:
  "ok m \<Longrightarrow> lookup (fold (\<lambda>(k, v). emplace k v) kvs m) x =
     (case lookup m x of Some v \<Rightarrow> Some v | None \<Rightarrow> map_of kvs x)"
proof (induction kvs arbitrary: m)
  case Nil
  then show ?case by (simp split: option.split)
next
  case (Cons kv kvs)
  obtain k v where kv: "kv = (k, v)" by (cases kv)
  from Cons.prems have "ok (emplace k v m)" by (rule ok_emplace)
  from Cons.IH [OF this] Cons.prems show ?case
    by (auto simp: kv lookup_emplace split: option.split)
qed

end

lemma om_ok_Cons [simp]: "om_ok (kv # xs) \<longleftrightarrow> (\<forall>x\<in>set xs. fst kv < fst x) \<and> om_ok xs"
  by (simp add: om_ok_def)

lemma om_ok_Nil [simp]: "om_ok []"
  by (simp add: om_ok_def)

lemma ball_om_emplace [simp]:
  "(\<forall>x\<in>set (om_emplace k v xs). P (fst x)) \<longleftrightarrow> P k \<and> (\<forall>x\<in>set xs. P (fst x))"
  by (induction k v xs rule: om_emplace.induct) auto

lemma ball_om_put [simp]:
  "(\<forall>x\<in>set (om_put k v xs). P (fst x)) \<longleftrightarrow> P k \<and> (\<forall>x\<in>set xs. P (fst x))"
  by (induction k v xs rule: om_put.induct) auto

lemma om_ok_emplace: "om_ok xs \<Longrightarrow> om_ok (om_emplace k v xs)"
  by (induction k v xs rule: om_emplace.induct) force+

lemma om_ok_put: "om_ok xs \<Longrightarrow> om_ok (om_put k v xs)"
  by (induction k v xs rule: om_put.induct) force+

lemma om_ok_erase: "om_ok xs \<Longrightarrow> om_ok (om_erase k xs)"
  by (induction xs) (auto simp: om_erase_def)

lemma map_of_small: "\<forall>x\<in>set xs. (k::'k::linorder) < fst x \<Longrightarrow> map_of xs k = None"
  by (induction xs) auto

lemma map_of_om_emplace_at:
  "om_ok xs \<Longrightarrow> map_of (om_emplace k v xs) x =
     (case map_of xs x of Some w \<Rightarrow> Some w | None \<Rightarrow> (if x = k then Some v else None))"
proof (induction k v xs rule: om_emplace.induct)
  case (2 k v k' v' xs)
  then have "k < k' \<Longrightarrow> map_of xs k = None" by (force intro: map_of_small)
  with 2 show ?case by (auto split: option.splits)
qed simp

lemma map_of_om_emplace:
  "om_ok xs \<Longrightarrow> map_of (om_emplace k v xs) =
     (case map_of xs k of None \<Rightarrow> (map_of xs)(k \<mapsto> v) | Some _ \<Rightarrow> map_of xs)"
  by (auto simp: map_of_om_emplace_at fun_eq_iff split: option.splits)

lemma map_of_om_put: "om_ok xs \<Longrightarrow> map_of (om_put k v xs) = (map_of xs)(k \<mapsto> v)"
  by (induction k v xs rule: om_put.induct) (auto simp: fun_eq_iff)

lemma map_of_om_erase: "map_of (om_erase k xs) = (map_of xs)(k := None)"
  by (induction xs) (auto simp: om_erase_def fun_eq_iff)

interpretation omap: std_map "[]" map_of om_emplace om_put om_erase om_ok
  by unfold_locales
    (auto simp: map_of_om_emplace map_of_om_put map_of_om_erase om_ok_emplace om_ok_put
      om_ok_erase)

lemma om_ok_distinct: "om_ok xs \<Longrightarrow> distinct (map fst xs)"
  by (induction xs) force+

section \<open>std::multimap\<close>

fun mm_emplace :: "'k::linorder \<Rightarrow> 'v \<Rightarrow> ('k \<times> 'v) list \<Rightarrow> ('k \<times> 'v) list" where
  "mm_emplace k v [] = [(k, v)]"
| "mm_emplace k v ((k', v') # xs) =
     (if k < k' then (k, v) # (k', v') # xs else (k', v') # mm_emplace k v xs)"

definition mm_count :: "'k \<Rightarrow> ('k \<times> 'v) list \<Rightarrow> nat" where
  "mm_count k xs = length (filter (\<lambda>(k', _). k' = k) xs)"

definition mm_ok :: "('k::linorder \<times> 'v) list \<Rightarrow> bool" where
  "mm_ok xs = sorted (map fst xs)"

locale std_multimap =
  fixes empty_mm :: "'m"
    and count :: "'k \<Rightarrow> 'm \<Rightarrow> nat"
    and insert_mm :: "'k \<Rightarrow> 'v \<Rightarrow> 'm \<Rightarrow> 'm"
    and erase_mm :: "'k \<Rightarrow> 'm \<Rightarrow> 'm"
  assumes count_empty: "count k empty_mm = 0"
    and count_insert: "count k (insert_mm k' v m) = (if k = k' then Suc (count k m) else count k m)"
    and count_erase: "count k (erase_mm k' m) = (if k = k' then 0 else count k m)"
begin

text \<open>An insertion guarded by the number of equal keys never exceeds the bound.\<close>

lemma guarded_insert_bound:
  "(\<And>k. count k m \<le> n) \<Longrightarrow> count k' m < n \<Longrightarrow> count k (insert_mm k' v m) \<le> n"
  by (auto simp: count_insert Suc_le_eq)

end

lemma mm_count_emplace:
  "mm_count k (mm_emplace k' v xs) = (if k = k' then Suc (mm_count k xs) else mm_count k xs)"
  by (induction k' v xs rule: mm_emplace.induct) (auto simp: mm_count_def)

lemma mm_count_erase: "mm_count k (om_erase k' xs) = (if k = k' then 0 else mm_count k xs)"
  by (induction xs) (auto simp: mm_count_def om_erase_def)

lemma mm_count_Nil: "mm_count k [] = 0"
  by (simp add: mm_count_def)

interpretation mmap: std_multimap "[]" mm_count mm_emplace om_erase
  by unfold_locales (simp_all add: mm_count_emplace mm_count_erase mm_count_Nil)

lemma set_mm_emplace: "set (mm_emplace k v xs) = insert (k, v) (set xs)"
  by (induction k v xs rule: mm_emplace.induct) auto

lemma mm_ok_emplace: "mm_ok xs \<Longrightarrow> mm_ok (mm_emplace k v xs)"
  by (induction k v xs rule: mm_emplace.induct) (force simp: mm_ok_def set_mm_emplace)+

end
