(* ===== verification/Json_Value.thy ===== *)
theory Json_Value
  imports Ordered_Map Cxx_Strings
begin

text \<open>
  The JSON value of \<open>externals/json-3.1.2/json.h\<close> (class \<open>basic_json\<close>) and the operations the
  library calls on it: construction from an initializer list, \<open>operator[]\<close>, \<open>find\<close>, \<open>erase\<close>,
  \<open>empty\<close>, \<open>size\<close>, the three \<open>push_back\<close>s, \<open>emplace\<close>, range \<open>insert\<close> and the conversions.
  An object is a \<open>std::map\<close> (\<open>Ordered_Map\<close>); integers are kept as the 64 bits of their member and
  doubles as the 64 bits of their representation.
\<close>

datatype value_t =
    V_null | V_object | V_array | V_string | V_boolean
  | V_number_integer | V_number_unsigned | V_number_float | V_discarded

datatype json =
    JNull
  | JObject "(string \<times> json) list"
  | JArray "json list"
  | JString string
  | JBoolean bool
  | JInteger u64
  | JUnsigned u64
  | JFloat u64
  | JDiscarded

fun json_type :: "json \<Rightarrow> value_t" where
  "json_type JNull = V_null"
| "json_type (JObject _) = V_object"
| "json_type (JArray _) = V_array"
| "json_type (JString _) = V_string"
| "json_type (JBoolean _) = V_boolean"
| "json_type (JInteger _) = V_number_integer"
| "json_type (JUnsigned _) = V_number_unsigned"
| "json_type (JFloat _) = V_number_float"
| "json_type JDiscarded = V_discarded"

definition is_object :: "json \<Rightarrow> bool" where
  "is_object j \<longleftrightarrow> json_type j = V_object"

definition is_string :: "json \<Rightarrow> bool" where
  "is_string j \<longleftrightarrow> json_type j = V_string"

definition is_array :: "json \<Rightarrow> bool" where
  "is_array j \<longleftrightarrow> json_type j = V_array"

fun type_name :: "json \<Rightarrow> string" where
  "type_name JNull = ''null''"
| "type_name (JObject _) = ''object''"
| "type_name (JArray _) = ''array''"
| "type_name (JString _) = ''string''"
| "type_name (JBoolean _) = ''boolean''"
| "type_name JDiscarded = ''discarded''"
| "type_name (JInteger _) = ''number''"
| "type_name (JUnsigned _) = ''number''"
| "type_name (JFloat _) = ''number''"

text \<open>Every object inside a value has its keys in order, as \<open>std::map\<close> keeps them.\<close>

fun json_ok :: "json \<Rightarrow> bool" where
  "json_ok (JObject kvs) = (om_ok kvs \<and> (\<forall>kv\<in>set kvs. json_ok (snd kv)))"
| "json_ok (JArray xs) = (\<forall>x\<in>set xs. json_ok x)"
| "json_ok _ = True"

section \<open>Construction from an initializer list\<close>

text \<open>An element that is an array of two whose first is a string can be an object entry.\<close>

fun pair_element :: "json \<Rightarrow> (string \<times> json) option" where
  "pair_element (JArray [JString k, v]) = Some (k, v)"
| "pair_element _ = None"

definition json_init_list :: "json list \<Rightarrow> bool \<Rightarrow> value_t \<Rightarrow> json res" where
  "json_init_list init type_deduction manual_type =
     (let all_pairs = list_all (\<lambda>e. pair_element e \<noteq> None) init;
          is_an_object = (if \<not> type_deduction \<and> manual_type = V_array then False else all_pairs)
      in if \<not> type_deduction \<and> manual_type = V_object \<and> \<not> is_an_object
         then Inl (Type_error 301 ''cannot create object from initializer list'')
         else if is_an_object
         then Inr (JObject (fold (\<lambda>(k, v). om_emplace k v) (List.map_filter pair_element init) []))
         else Inr (JArray init))"

text \<open>A braced list \<open>{a, b, ...}\<close> with type deduction, which cannot fail.\<close>

definition json_braces :: "json list \<Rightarrow> json" where
  "json_braces init =
     (if list_all (\<lambda>e. pair_element e \<noteq> None) init
      then JObject (fold (\<lambda>(k, v). om_emplace k v) (List.map_filter pair_element init) [])
      else JArray init)"

lemma json_init_list_deduced: "json_init_list init True mt = Inr (json_braces init)"
  by (simp add: json_init_list_def json_braces_def)

section \<open>Access by key\<close>

definition json_find :: "string \<Rightarrow> json \<Rightarrow> json option" where
  "json_find k j = (case j of JObject kvs \<Rightarrow> map_of kvs k | _ \<Rightarrow> None)"

text \<open>The assignment \<open>j[key] = v\<close>: null becomes an object first; any other value throws.\<close>

definition json_set :: "string \<Rightarrow> json \<Rightarrow> json \<Rightarrow> json res" where
  "json_set k v j =
     (case j of
        JNull \<Rightarrow> Inr (JObject (om_put k v []))
      | JObject kvs \<Rightarrow> Inr (JObject (om_put k v kvs))
      | _ \<Rightarrow> Inl (Type_error 305 (''cannot use operator[] with '' @ type_name j)))"

text \<open>Reading \<open>j[key]\<close> of a non-const value: a missing key reads as (a new) null.\<close>

definition json_at :: "string \<Rightarrow> json \<Rightarrow> json res" where
  "json_at k j =
     (case j of
        JNull \<Rightarrow> Inr JNull
      | JObject kvs \<Rightarrow> Inr (case map_of kvs k of Some v \<Rightarrow> v | None \<Rightarrow> JNull)
      | _ \<Rightarrow> Inl (Type_error 305 (''cannot use operator[] with '' @ type_name j)))"

definition json_erase :: "string \<Rightarrow> json \<Rightarrow> json res" where
  "json_erase k j =
     (case j of
        JObject kvs \<Rightarrow> Inr (JObject (om_erase k kvs))
      | _ \<Rightarrow> Inl (Type_error 307 (''cannot use erase() with '' @ type_name j)))"

fun json_empty :: "json \<Rightarrow> bool" where
  "json_empty JNull = True"
| "json_empty (JArray xs) = (xs = [])"
| "json_empty (JObject kvs) = (kvs = [])"
| "json_empty _ = False"

fun json_size :: "json \<Rightarrow> nat" where
  "json_size JNull = 0"
| "json_size (JArray xs) = length xs"
| "json_size (JObject kvs) = length kvs"
| "json_size _ = 1"

section \<open>Modifiers\<close>

definition push_back_value :: "json \<Rightarrow> json \<Rightarrow> json res" where
  "push_back_value v j =
     (case j of
        JNull \<Rightarrow> Inr (JArray [v])
      | JArray xs \<Rightarrow> Inr (JArray (xs @ [v]))
      | _ \<Rightarrow> Inl (Type_error 308 (''cannot use push_back() with '' @ type_name j)))"

definition push_back_pair :: "string \<Rightarrow> json \<Rightarrow> json \<Rightarrow> json res" where
  "push_back_pair k v j =
     (case j of
        JNull \<Rightarrow> Inr (JObject (om_emplace k v []))
      | JObject kvs \<Rightarrow> Inr (JObject (om_emplace k v kvs))
      | _ \<Rightarrow> Inl (Type_error 308 (''cannot use push_back() with '' @ type_name j)))"

definition push_back_list :: "json list \<Rightarrow> json \<Rightarrow> json res" where
  "push_back_list init j =
     (case (is_object j, init) of
        (True, [JString k, v]) \<Rightarrow> push_back_pair k v j
      | _ \<Rightarrow> push_back_value (json_braces init) j)"

definition json_emplace :: "string \<Rightarrow> json \<Rightarrow> json \<Rightarrow> json res" where
  "json_emplace k v j =
     (case j of
        JNull \<Rightarrow> Inr (JObject (om_emplace k v []))
      | JObject kvs \<Rightarrow> Inr (JObject (om_emplace k v kvs))
      | _ \<Rightarrow> Inl (Type_error 311 (''cannot use emplace() with '' @ type_name j)))"

text \<open>
  \<open>j.insert(o.begin(), o.end())\<close>: both iterators come from the same value \<open>o\<close>, so the check that
  they fit cannot fail here.
\<close>

definition json_insert_range :: "json \<Rightarrow> json \<Rightarrow> json res" where
  "json_insert_range src j =
     (case j of
        JObject kvs \<Rightarrow>
          (case src of
             JObject new \<Rightarrow> Inr (JObject (fold (\<lambda>(k, v). om_emplace k v) new kvs))
           | _ \<Rightarrow> Inl (Invalid_iterator 202 ''iterators first and last must point to objects''))
      | _ \<Rightarrow> Inl (Type_error 309 (''cannot use insert() with '' @ type_name j)))"

section \<open>Conversions and comparison with null\<close>

definition json_get_string :: "json \<Rightarrow> string res" where
  "json_get_string j =
     (case j of
        JString s \<Rightarrow> Inr s
      | _ \<Rightarrow> Inl (Type_error 302 (''type must be string, but is '' @ type_name j)))"

text \<open>Conversion to \<open>size_t\<close>; the cast of a double is the machine's, given as \<open>of_double\<close>.\<close>

definition json_get_u64 :: "(u64 \<Rightarrow> u64) \<Rightarrow> json \<Rightarrow> u64 res" where
  "json_get_u64 of_double j =
     (case j of
        JUnsigned n \<Rightarrow> Inr n
      | JInteger n \<Rightarrow> Inr n
      | JFloat d \<Rightarrow> Inr (of_double d)
      | _ \<Rightarrow> Inl (Type_error 302 (''type must be number, but is '' @ type_name j)))"

definition json_is_null :: "json \<Rightarrow> bool" where
  "json_is_null j \<longleftrightarrow> json_type j = V_null"

section \<open>What the operations do\<close>

named_theorems json_simps \<open>evaluation of JSON operations on constructors\<close>

lemmas [json_simps] =
  json_find_def json_set_def json_at_def json_erase_def push_back_value_def push_back_pair_def
  push_back_list_def json_emplace_def json_insert_range_def json_get_string_def json_get_u64_def
  is_object_def is_string_def is_array_def json_is_null_def json_braces_def

lemma is_object_iff: "is_object j \<longleftrightarrow> (\<exists>kvs. j = JObject kvs)"
  by (cases j) (auto simp: is_object_def)

lemma json_ok_braces_pairs:
  "json_ok (JObject kvs) \<Longrightarrow> om_ok kvs"
  by simp

text \<open>The three ways to store under a key, in terms of the lookup they leave behind.\<close>

lemma json_find_set:
  assumes "json_set k v j = Inr j'" "json_ok j"
  shows "json_find x j' = (if x = k then Some v else json_find x j)"
  using assms by (cases j) (auto simp: json_simps omap.lookup_put)

lemma json_find_push_back_pair:
  assumes "push_back_pair k v j = Inr j'" "json_ok j"
  shows "json_find x j' =
    (case json_find x j of Some w \<Rightarrow> Some w | None \<Rightarrow> if x = k then Some v else None)"
  using assms by (cases j) (auto simp: json_simps map_of_om_emplace_at split: option.split)

lemma json_find_emplace:
  assumes "json_emplace k v j = Inr j'" "json_ok j"
  shows "json_find x j' =
    (case json_find x j of Some w \<Rightarrow> Some w | None \<Rightarrow> if x = k then Some v else None)"
  using assms by (cases j) (auto simp: json_simps map_of_om_emplace_at split: option.split)

lemma json_find_erase:
  assumes "json_erase k j = Inr j'"
  shows "json_find x j' = (if x = k then None else json_find x j)"
  using assms by (cases j) (auto simp: json_simps map_of_om_erase)

lemma json_find_insert_range:
  assumes "json_insert_range src j = Inr j'" "json_ok j"
  shows "json_find x j' =
    (case json_find x j of Some w \<Rightarrow> Some w | None \<Rightarrow> json_find x src)"
  using assms by (cases j; cases src) (auto simp: json_simps omap.lookup_fold_emplace split: option.split)

text \<open>Every modifier keeps the order of the keys.\<close>

lemma set_om_emplace: "set (om_emplace k v xs) \<subseteq> insert (k, v) (set xs)"
  by (induction k v xs rule: om_emplace.induct) auto

lemma set_om_put: "set (om_put k v xs) \<subseteq> insert (k, v) (set xs)"
  by (induction k v xs rule: om_put.induct) auto

lemma json_ok_om_emplace:
  "json_ok (JObject kvs) \<Longrightarrow> json_ok v \<Longrightarrow> json_ok (JObject (om_emplace k v kvs))"
  using set_om_emplace [of k v kvs] by (auto simp: om_ok_emplace)

lemma json_ok_singleton: "json_ok v \<Longrightarrow> json_ok (JObject [(k, v)])"
  by simp

lemma json_ok_om_put:
  "json_ok (JObject kvs) \<Longrightarrow> json_ok v \<Longrightarrow> json_ok (JObject (om_put k v kvs))"
  using set_om_put [of k v kvs] by (auto simp: om_ok_put)

lemma json_ok_fold_emplace:
  assumes "json_ok (JObject kvs)" "\<forall>kv\<in>set new. json_ok (snd kv)"
  shows "json_ok (JObject (fold (\<lambda>(k, v). om_emplace k v) new kvs))"
  using assms
proof (induction new arbitrary: kvs)
  case (Cons kv new)
  from Cons.prems have "json_ok (JObject (om_emplace (fst kv) (snd kv) kvs))"
    by (intro json_ok_om_emplace) auto
  from Cons.IH [OF this] Cons.prems show ?case by (simp add: case_prod_unfold)
qed simp

lemma json_ok_set: "json_set k v j = Inr j' \<Longrightarrow> json_ok j \<Longrightarrow> json_ok v \<Longrightarrow> json_ok j'"
  by (cases j) (auto simp: json_set_def simp del: json_ok.simps(1) intro: json_ok_om_put json_ok_singleton)

lemma json_ok_push_back_pair:
  "push_back_pair k v j = Inr j' \<Longrightarrow> json_ok j \<Longrightarrow> json_ok v \<Longrightarrow> json_ok j'"
  by (cases j)
    (auto simp: push_back_pair_def simp del: json_ok.simps(1) intro: json_ok_om_emplace json_ok_singleton)

lemma json_ok_emplace: "json_emplace k v j = Inr j' \<Longrightarrow> json_ok j \<Longrightarrow> json_ok v \<Longrightarrow> json_ok j'"
  by (cases j) (auto simp: json_emplace_def simp del: json_ok.simps(1) intro: json_ok_om_emplace json_ok_singleton)

lemma json_ok_erase: "json_erase k j = Inr j' \<Longrightarrow> json_ok j \<Longrightarrow> json_ok j'"
  by (cases j) (auto simp: json_erase_def om_ok_erase, auto simp: om_erase_def)

end
