(* ===== verification/Scope.thy ===== *)
theory Scope
  imports Sentry_Common Json_Value
begin

text \<open>
  \<open>src/scope.h\<close> and \<open>src/scope.cpp\<close>: the data sent along with every event.  The record has the
  members of the class, each member function is a definition of the same name with the prefix
  \<open>Scope_\<close>, and the key/value stores for tags and extras share the contract \<open>value_store\<close>.
\<close>

record scope =
  m_userName :: string
  m_transactionName :: string
  m_release :: string
  m_level :: EventLevel
  m_fingerprint :: "string list"
  m_maxBreadcrumbs :: u16
  m_breadcrumbs :: "json list"
  m_extras :: json
  m_tags :: json
  m_contexts :: json

section \<open>Operations\<close>

definition setValueMap :: "string \<Rightarrow> string \<Rightarrow> json \<Rightarrow> json res" where
  "setValueMap key val m =
     (if val = []
      then (if json_find key m \<noteq> None then json_erase key m else Inr m)
      else json_emplace key (JString val) m)"

definition Scope_setUser :: "string \<Rightarrow> scope \<Rightarrow> scope" where
  "Scope_setUser user s = s\<lparr>m_userName := user\<rparr>"

definition Scope_setTransaction :: "string \<Rightarrow> scope \<Rightarrow> scope" where
  "Scope_setTransaction transaction_name s = s\<lparr>m_transactionName := transaction_name\<rparr>"

definition Scope_setExtra :: "string \<Rightarrow> string \<Rightarrow> scope \<Rightarrow> scope res" where
  "Scope_setExtra key val s =
     bind_res (setValueMap key val (m_extras s)) (\<lambda>m. Inr (s\<lparr>m_extras := m\<rparr>))"

definition Scope_setExtras :: "json \<Rightarrow> scope \<Rightarrow> scope res" where
  "Scope_setExtras extras s =
     bind_res (json_insert_range extras (m_extras s)) (\<lambda>m. Inr (s\<lparr>m_extras := m\<rparr>))"

definition Scope_setTag :: "string \<Rightarrow> string \<Rightarrow> scope \<Rightarrow> scope res" where
  "Scope_setTag key val s =
     bind_res (setValueMap key val (m_tags s)) (\<lambda>m. Inr (s\<lparr>m_tags := m\<rparr>))"

definition Scope_setTags :: "json \<Rightarrow> scope \<Rightarrow> scope res" where
  "Scope_setTags tags s =
     bind_res (json_insert_range tags (m_tags s)) (\<lambda>m. Inr (s\<lparr>m_tags := m\<rparr>))"

definition Scope_setLevel :: "EventLevel \<Rightarrow> scope \<Rightarrow> scope" where
  "Scope_setLevel level s = s\<lparr>m_level := level\<rparr>"

definition Scope_setRelease :: "string \<Rightarrow> scope \<Rightarrow> scope" where
  "Scope_setRelease release s = s\<lparr>m_release := release\<rparr>"

definition Scope_setMaxBreadcrumbs :: "u16 \<Rightarrow> scope \<Rightarrow> scope" where
  "Scope_setMaxBreadcrumbs maxBreadcrumbs s = s\<lparr>m_maxBreadcrumbs := maxBreadcrumbs\<rparr>"

definition Scope_addBreadcrumb :: "json \<Rightarrow> scope \<Rightarrow> scope" where
  "Scope_addBreadcrumb crumb s =
     (let pushed = m_breadcrumbs s @ [crumb]
      in s\<lparr>m_breadcrumbs :=
             (if length pushed > unat (m_maxBreadcrumbs s) then tl pushed else pushed)\<rparr>)"

definition Scope_clearBreadcrumbs :: "scope \<Rightarrow> scope" where
  "Scope_clearBreadcrumbs s = s\<lparr>m_breadcrumbs := []\<rparr>"

definition Scope_clear :: "scope \<Rightarrow> scope" where
  "Scope_clear s = Scope_clearBreadcrumbs s"

text \<open>
  \<open>getlogin()\<close> gives a name or the null pointer; \<open>gethostname(buf, n)\<close> fills the buffer or fails,
  depending on its size.  Both are the operating system's, given as arguments.
\<close>

definition Scope_setDefaultTags ::
    "string option \<Rightarrow> (nat \<Rightarrow> string option) \<Rightarrow> scope \<Rightarrow> scope res" where
  "Scope_setDefaultTags getlogin gethostname s =
     bind_res (case getlogin of
                 Some userLogin \<Rightarrow> Scope_setTag ''user_login'' userLogin s
               | None \<Rightarrow> Inr s)
       (\<lambda>s. let hostnameLen = 50 in
          (case gethostname hostnameLen of
             Some hostName \<Rightarrow> Scope_setTag ''server_name'' hostName s
           | None \<Rightarrow> Inr s))"

definition Scope_new :: "string option \<Rightarrow> (nat \<Rightarrow> string option) \<Rightarrow> scope res" where
  "Scope_new getlogin gethostname =
     Scope_setDefaultTags getlogin gethostname (Scope_clear
       \<lparr>m_userName = [], m_transactionName = [], m_release = [], m_level = LEVEL_INFO,
        m_fingerprint = [], m_maxBreadcrumbs = 100, m_breadcrumbs = [],
        m_extras = JNull, m_tags = JNull, m_contexts = JNull\<rparr>)"

definition Scope_getUser :: "scope \<Rightarrow> string" where
  "Scope_getUser s = m_userName s"

definition Scope_getTransaction :: "scope \<Rightarrow> string" where
  "Scope_getTransaction s = m_transactionName s"

definition Scope_getExtras :: "scope \<Rightarrow> json" where
  "Scope_getExtras s = m_extras s"

definition Scope_getTags :: "scope \<Rightarrow> json" where
  "Scope_getTags s = m_tags s"

definition Scope_getContexts :: "scope \<Rightarrow> json" where
  "Scope_getContexts s = m_contexts s"

definition Scope_getLevel :: "scope \<Rightarrow> EventLevel" where
  "Scope_getLevel s = m_level s"

definition Scope_getRelease :: "scope \<Rightarrow> string" where
  "Scope_getRelease s = m_release s"

definition Scope_getLevelStr :: "scope \<Rightarrow> string" where
  "Scope_getLevelStr s = levelToString (m_level s)"

definition Scope_getBreadcrumbs :: "scope \<Rightarrow> json" where
  "Scope_getBreadcrumbs s = JObject (om_put ''values'' (JArray (m_breadcrumbs s)) [])"

definition Scope_applyToEvent :: "scope \<Rightarrow> json \<Rightarrow> json res" where
  "Scope_applyToEvent s event =
     bind_res (if m_breadcrumbs s \<noteq> []
               then push_back_list [JString ''breadcrumbs'', Scope_getBreadcrumbs s] event
               else Inr event) (\<lambda>event.
     bind_res (if \<not> json_empty (m_tags s)
               then push_back_list [JString ''tags'', Scope_getTags s] event
               else Inr event) (\<lambda>event.
     bind_res (if \<not> json_empty (m_extras s)
               then push_back_list [JString ''extra'', Scope_getExtras s] event
               else Inr event) (\<lambda>event.
     bind_res (if m_transactionName s \<noteq> []
               then push_back_list [JString ''transaction'', JString (Scope_getTransaction s)] event
               else Inr event) (\<lambda>event.
     bind_res (if m_release s \<noteq> []
               then push_back_list [JString ''release'', JString (Scope_getRelease s)] event
               else Inr event) (\<lambda>event.
     push_back_list [JString ''level'', JString (Scope_getLevelStr s)] event)))))"

section \<open>Well-formed scopes\<close>

text \<open>The stores are null (nothing stored yet) or objects with ordered keys.\<close>

definition store_ok :: "json \<Rightarrow> bool" where
  "store_ok j \<longleftrightarrow> (j = JNull \<or> is_object j) \<and> json_ok j"

definition scope_ok :: "scope \<Rightarrow> bool" where
  "scope_ok s \<longleftrightarrow> store_ok (m_tags s) \<and> store_ok (m_extras s) \<and> (\<forall>c\<in>set (m_breadcrumbs s). json_ok c)"

lemma store_ok_cases:
  assumes "store_ok j"
  obtains "j = JNull" | kvs where "j = JObject kvs" "json_ok (JObject kvs)"
  using assms by (auto simp: store_ok_def is_object_iff)

lemma setValueMap_ok:
  assumes "store_ok m"
  shows "\<exists>m'. setValueMap k v m = Inr m' \<and> store_ok m'"
  using assms
proof (cases rule: store_ok_cases)
  case 1
  then show ?thesis
    by (simp add: setValueMap_def json_emplace_def json_find_def store_ok_def is_object_iff)
next
  case (2 kvs)
  show ?thesis
  proof (cases "v = []")
    case True
    then show ?thesis
      using 2 json_ok_erase [of k m] assms
      by (auto simp: setValueMap_def json_erase_def store_ok_def is_object_iff
          simp del: json_ok.simps(1))
  next
    case False
    with 2 have "json_ok (JObject (om_emplace k (JString v) kvs))"
      by (intro json_ok_om_emplace) auto
    with 2 False show ?thesis
      by (simp add: setValueMap_def json_emplace_def store_ok_def is_object_iff
          del: json_ok.simps(1))
  qed
qed

lemma json_find_setValueMap:
  assumes "store_ok m" "setValueMap k v m = Inr m'"
  shows "json_find x m' =
    (if x \<noteq> k then json_find x m
     else if v = [] then None
     else case json_find k m of Some w \<Rightarrow> Some w | None \<Rightarrow> Some (JString v))"
proof -
  have "json_ok m" using assms(1) by (simp add: store_ok_def)
  with assms(2) show ?thesis
    by (auto simp: setValueMap_def json_find_emplace json_find_erase split: if_splits option.splits)
qed

section \<open>The contract of the key/value stores\<close>

text \<open>
  What a client may rely on: an empty value removes the key, a non-empty value is stored only if
  the key is not bound yet, and no other key is touched.
\<close>

locale value_store =
  fixes lookup_value :: "'s \<Rightarrow> string \<Rightarrow> json option"
    and set_value :: "string \<Rightarrow> string \<Rightarrow> 's \<Rightarrow> 's res"
    and store_inv :: "'s \<Rightarrow> bool"
  assumes set_total: "store_inv s \<Longrightarrow> \<exists>s'. set_value k v s = Inr s' \<and> store_inv s'"
    and lookup_set: "store_inv s \<Longrightarrow> set_value k v s = Inr s' \<Longrightarrow> lookup_value s' x =
          (if x \<noteq> k then lookup_value s x
           else if v = [] then None
           else case lookup_value s k of Some w \<Rightarrow> Some w | None \<Rightarrow> Some (JString v))"
begin

fun set_all :: "(string \<times> string) list \<Rightarrow> 's \<Rightarrow> 's res" where
  "set_all [] s = Inr s"
| "set_all ((k, v) # kvs) s = bind_res (set_value k v s) (set_all kvs)"

lemma set_inv: "store_inv s \<Longrightarrow> set_value k v s = Inr s' \<Longrightarrow> store_inv s'"
  using set_total by (metis sum.inject(2))

lemma set_all_total: "store_inv s \<Longrightarrow> \<exists>s'. set_all kvs s = Inr s' \<and> store_inv s'"
proof (induction kvs arbitrary: s)
  case (Cons kv kvs)
  obtain k v where kv: "kv = (k, v)" by (cases kv)
  obtain s1 where "set_value k v s = Inr s1" "store_inv s1"
    using set_total [OF Cons.prems] by blast
  with Cons.IH kv show ?case by simp
qed simp

text \<open>A second non-empty value for a bound key changes nothing that can be looked up.\<close>

lemma set_bound_ignored:
  assumes "store_inv s" "lookup_value s k = Some w" "v \<noteq> []" "set_value k v s = Inr s'"
  shows "lookup_value s' = lookup_value s"
  using lookup_set [OF assms(1,4)] assms(2,3) by (auto simp: fun_eq_iff)

lemma set_then_lookup:
  assumes "store_inv s" "lookup_value s k = None" "v \<noteq> []" "set_value k v s = Inr s'"
  shows "lookup_value s' = (lookup_value s)(k \<mapsto> JString v)"
  using lookup_set [OF assms(1,4)] assms(2,3) by (auto simp: fun_eq_iff)

lemma clear_then_lookup:
  assumes "store_inv s" "set_value k [] s = Inr s'"
  shows "lookup_value s' = (lookup_value s)(k := None)"
  using lookup_set [OF assms] by (auto simp: fun_eq_iff)

text \<open>Clearing a key first is the way to replace its value.\<close>

lemma clear_and_set:
  assumes "store_inv s" "v \<noteq> []"
  shows "\<exists>s'. set_all [(k, []), (k, v)] s = Inr s'
    \<and> lookup_value s' = (lookup_value s)(k \<mapsto> JString v)"
proof -
  obtain s1 where s1: "set_value k [] s = Inr s1" "store_inv s1"
    using set_total [OF assms(1)] by blast
  obtain s2 where s2: "set_value k v s1 = Inr s2"
    using set_total [OF s1(2)] by blast
  have l1: "lookup_value s1 = (lookup_value s)(k := None)"
    by (rule clear_then_lookup [OF assms(1) s1(1)])
  then have "lookup_value s2 = (lookup_value s1)(k \<mapsto> JString v)"
    by (intro set_then_lookup [OF s1(2) _ assms(2) s2]) simp
  with s1 s2 l1 show ?thesis by simp
qed

end

definition scope_tag :: "scope \<Rightarrow> string \<Rightarrow> json option" where
  "scope_tag s k = json_find k (m_tags s)"

definition scope_extra :: "scope \<Rightarrow> string \<Rightarrow> json option" where
  "scope_extra s k = json_find k (m_extras s)"

interpretation tags: value_store scope_tag Scope_setTag scope_ok
proof unfold_locales
  fix s k v
  assume "scope_ok s"
  then show "\<exists>s'. Scope_setTag k v s = Inr s' \<and> scope_ok s'"
    using setValueMap_ok [of "m_tags s" k v] by (auto simp: Scope_setTag_def scope_ok_def)
next
  fix s k v s' x
  assume "scope_ok s" "Scope_setTag k v s = Inr s'"
  then show "scope_tag s' x =
          (if x \<noteq> k then scope_tag s x
           else if v = [] then None
           else case scope_tag s k of Some w \<Rightarrow> Some w | None \<Rightarrow> Some (JString v))"
    by (auto simp: Scope_setTag_def scope_ok_def scope_tag_def bind_res_eq_Inr
        json_find_setValueMap split: option.split)
qed

interpretation extras: value_store scope_extra Scope_setExtra scope_ok
proof unfold_locales
  fix s k v
  assume "scope_ok s"
  then show "\<exists>s'. Scope_setExtra k v s = Inr s' \<and> scope_ok s'"
    using setValueMap_ok [of "m_extras s" k v] by (auto simp: Scope_setExtra_def scope_ok_def)
next
  fix s k v s' x
  assume "scope_ok s" "Scope_setExtra k v s = Inr s'"
  then show "scope_extra s' x =
          (if x \<noteq> k then scope_extra s x
           else if v = [] then None
           else case scope_extra s k of Some w \<Rightarrow> Some w | None \<Rightarrow> Some (JString v))"
    by (auto simp: Scope_setExtra_def scope_ok_def scope_extra_def bind_res_eq_Inr
        json_find_setValueMap split: option.split)
qed

section \<open>The constructor\<close>

lemma Scope_setTag_frame:
  assumes "Scope_setTag k v s = Inr s'"
  shows "m_breadcrumbs s' = m_breadcrumbs s" "m_maxBreadcrumbs s' = m_maxBreadcrumbs s"
    "m_extras s' = m_extras s" "m_release s' = m_release s" "m_level s' = m_level s"
    "m_transactionName s' = m_transactionName s"
  using assms by (auto simp: Scope_setTag_def bind_res_eq_Inr)

lemma scope_ok_initial:
  "scope_ok (Scope_clear
       \<lparr>m_userName = [], m_transactionName = [], m_release = [], m_level = LEVEL_INFO,
        m_fingerprint = [], m_maxBreadcrumbs = 100, m_breadcrumbs = [],
        m_extras = JNull, m_tags = JNull, m_contexts = JNull\<rparr>)"
  by (simp add: scope_ok_def store_ok_def Scope_clear_def Scope_clearBreadcrumbs_def)

lemma setDefaultTags_ok:
  assumes "scope_ok s"
  shows "\<exists>s'. Scope_setDefaultTags gl gh s = Inr s' \<and> scope_ok s'
    \<and> m_breadcrumbs s' = m_breadcrumbs s \<and> m_maxBreadcrumbs s' = m_maxBreadcrumbs s
    \<and> m_level s' = m_level s"
proof -
  obtain s1 where s1: "(case gl of Some l \<Rightarrow> Scope_setTag ''user_login'' l s | None \<Rightarrow> Inr s) = Inr s1"
    "scope_ok s1" "m_breadcrumbs s1 = m_breadcrumbs s" "m_maxBreadcrumbs s1 = m_maxBreadcrumbs s"
    "m_level s1 = m_level s"
  proof (cases gl)
    case None
    with assms that show ?thesis by auto
  next
    case (Some l)
    with tags.set_total [OF assms, of "''user_login''" l] that show ?thesis
      by (auto dest: Scope_setTag_frame)
  qed
  show ?thesis
  proof (cases "gh 50")
    case None
    with s1 show ?thesis by (simp add: Scope_setDefaultTags_def Let_def)
  next
    case (Some h)
    obtain s2 where s2: "Scope_setTag ''server_name'' h s1 = Inr s2" "scope_ok s2"
      using tags.set_total [OF s1(2)] by blast
    with s1 Some show ?thesis
      by (simp add: Scope_setDefaultTags_def Let_def Scope_setTag_frame [OF s2(1)])
  qed
qed

lemma Scope_new_ok:
  "\<exists>s. Scope_new gl gh = Inr s \<and> scope_ok s \<and> m_breadcrumbs s = [] \<and> m_maxBreadcrumbs s = 100
    \<and> m_level s = LEVEL_INFO"
  using setDefaultTags_ok [OF scope_ok_initial, of gl gh]
  by (auto simp: Scope_new_def Scope_clear_def Scope_clearBreadcrumbs_def)

section \<open>Breadcrumbs: the window of the last ones\<close>

definition crumbs_bounded :: "scope \<Rightarrow> bool" where
  "crumbs_bounded s \<longleftrightarrow> length (m_breadcrumbs s) \<le> unat (m_maxBreadcrumbs s)"

lemma Scope_addBreadcrumb_frame [simp]:
  "m_maxBreadcrumbs (Scope_addBreadcrumb c s) = m_maxBreadcrumbs s"
  "m_tags (Scope_addBreadcrumb c s) = m_tags s" "m_extras (Scope_addBreadcrumb c s) = m_extras s"
  "m_release (Scope_addBreadcrumb c s) = m_release s"
  "m_level (Scope_addBreadcrumb c s) = m_level s"
  by (simp_all add: Scope_addBreadcrumb_def Let_def)

lemma Scope_addBreadcrumb_window:
  assumes "crumbs_bounded s"
  shows "m_breadcrumbs (Scope_addBreadcrumb c s)
    = last_n (unat (m_maxBreadcrumbs s)) (m_breadcrumbs s @ [c])"
  using assms
  by (cases "length (m_breadcrumbs s) = unat (m_maxBreadcrumbs s)")
    (auto simp: Scope_addBreadcrumb_def crumbs_bounded_def Let_def last_n_tl last_n_short)

lemma Scope_addBreadcrumb_bounded: "crumbs_bounded s \<Longrightarrow> crumbs_bounded (Scope_addBreadcrumb c s)"
  by (simp add: crumbs_bounded_def Scope_addBreadcrumb_window length_last_n)

text \<open>Property C21: adding breadcrumbs one after another to a scope within its limit keeps exactly
  the last \<open>m_maxBreadcrumbs\<close> of all breadcrumbs, oldest first.\<close>

theorem breadcrumbs_are_last:
  assumes "crumbs_bounded s"
  shows "m_breadcrumbs (fold Scope_addBreadcrumb cs s)
    = last_n (unat (m_maxBreadcrumbs s)) (m_breadcrumbs s @ cs)"
  using assms
proof (induction cs arbitrary: s)
  case Nil
  then show ?case by (simp add: crumbs_bounded_def last_n_short)
next
  case (Cons c cs)
  let ?n = "unat (m_maxBreadcrumbs s)"
  have "m_breadcrumbs (fold Scope_addBreadcrumb (c # cs) s)
      = last_n ?n (last_n ?n (m_breadcrumbs s @ [c]) @ cs)"
    using Cons by (simp add: Scope_addBreadcrumb_bounded Scope_addBreadcrumb_window)
  also have "\<dots> = last_n ?n ((m_breadcrumbs s @ [c]) @ cs)"
    by (rule last_n_append)
  finally show ?case by simp
qed

theorem breadcrumbs_are_last_witness:
  "m_breadcrumbs (fold Scope_addBreadcrumb [JString ''a'', JString ''b'', JString ''c'']
     \<lparr>m_userName = [], m_transactionName = [], m_release = [], m_level = LEVEL_INFO,
        m_fingerprint = [], m_maxBreadcrumbs = 2, m_breadcrumbs = [JString ''x''],
        m_extras = JNull, m_tags = JNull, m_contexts = JNull\<rparr>)
   = [JString ''b'', JString ''c'']"
  by (subst breadcrumbs_are_last) (simp_all add: crumbs_bounded_def last_n_def)

section \<open>Applying the scope to an event\<close>

text \<open>What the scope contributes, in the order the code adds it.\<close>

definition scope_fields :: "scope \<Rightarrow> (string \<times> json) list" where
  "scope_fields s =
     (if m_breadcrumbs s = [] then []
      else [(''breadcrumbs'', JObject [(''values'', JArray (m_breadcrumbs s))])])
     @ (if json_empty (m_tags s) then [] else [(''tags'', m_tags s)])
     @ (if json_empty (m_extras s) then [] else [(''extra'', m_extras s)])
     @ (if m_transactionName s = [] then [] else [(''transaction'', JString (m_transactionName s))])
     @ (if m_release s = [] then [] else [(''release'', JString (m_release s))])
     @ [(''level'', JString (levelToString (m_level s)))]"

lemma push_back_list_pair:
  "push_back_list [JString k, v] (JObject kvs) = Inr (JObject (om_emplace k v kvs))"
  by (simp add: push_back_list_def push_back_pair_def is_object_def)

lemma Scope_applyToEvent_object:
  "Scope_applyToEvent s (JObject kvs) = Inr (JObject (fold (\<lambda>(k, v). om_emplace k v) (scope_fields s) kvs))"
  by (simp add: Scope_applyToEvent_def scope_fields_def push_back_list_pair Scope_getBreadcrumbs_def
      Scope_getTags_def Scope_getExtras_def Scope_getTransaction_def Scope_getRelease_def
      Scope_getLevelStr_def)

lemma scope_fields_ok: "scope_ok s \<Longrightarrow> \<forall>kv\<in>set (scope_fields s). json_ok (snd kv)"
  by (auto simp: scope_fields_def scope_ok_def store_ok_def)

text \<open>Property C20: applying a scope to an event object succeeds, keeps the event well formed, keeps
  every field the event already has, and adds exactly the scope's fields (breadcrumbs, tags, extra,
  transaction, release when present, and always a level) under the keys the event lacks.\<close>

theorem applyToEvent_merges:
  assumes "scope_ok s" "is_object event" "json_ok event"
  shows "\<exists>e'. Scope_applyToEvent s event = Inr e' \<and> is_object e' \<and> json_ok e'
    \<and> (\<forall>k. json_find k e' = (case json_find k event of Some v \<Rightarrow> Some v
            | None \<Rightarrow> map_of (scope_fields s) k))"
proof -
  obtain kvs where e: "event = JObject kvs" and ok: "om_ok kvs"
    using assms by (auto simp: is_object_iff)
  let ?r = "JObject (fold (\<lambda>(k, v). om_emplace k v) (scope_fields s) kvs)"
  have "json_ok ?r"
    using assms e by (intro json_ok_fold_emplace scope_fields_ok) auto
  moreover have "json_find k ?r = (case json_find k event of Some v \<Rightarrow> Some v
      | None \<Rightarrow> map_of (scope_fields s) k)" for k
    using omap.lookup_fold_emplace [OF ok] by (simp add: json_find_def e)
  ultimately show ?thesis
    by (simp add: e Scope_applyToEvent_object is_object_iff)
qed

theorem applyToEvent_merges_witness:
  "\<exists>e'. Scope_applyToEvent
     \<lparr>m_userName = [], m_transactionName = [], m_release = ''1.1'', m_level = LEVEL_INFO,
        m_fingerprint = [], m_maxBreadcrumbs = 2, m_breadcrumbs = [],
        m_extras = JNull, m_tags = JNull, m_contexts = JNull\<rparr>
     (JObject [(''level'', JString ''warning'')]) = Inr e'
     \<and> json_find ''level'' e' = Some (JString ''warning'')
     \<and> json_find ''release'' e' = Some (JString ''1.1'')"
  (is "\<exists>e'. Scope_applyToEvent ?s ?e = Inr e' \<and> _")
proof -
  have "scope_ok ?s" "is_object ?e" "json_ok ?e"
    by (simp_all add: scope_ok_def store_ok_def is_object_def)
  from applyToEvent_merges [OF this] show ?thesis
    by (auto simp: json_find_def scope_fields_def)
qed

section \<open>Tags and extras\<close>

text \<open>Once a tag has a value, setting it to another non-empty value through
  \<open>Scope::setTag\<close> succeeds but leaves every tag as it was (\<open>emplace\<close> does not overwrite).\<close>

theorem setTag_first_value_stays:
  assumes "scope_ok s" "scope_tag s k = Some w" "v \<noteq> []"
  shows "\<exists>s'. Scope_setTag k v s = Inr s' \<and> scope_ok s' \<and> scope_tag s' = scope_tag s"
  using tags.set_total [OF assms(1)] tags.set_bound_ignored [OF assms] by blast

theorem setTag_first_value_stays_witness:
  "\<exists>s'. Scope_setTag ''env'' ''prod''
     \<lparr>m_userName = [], m_transactionName = [], m_release = [], m_level = LEVEL_INFO,
        m_fingerprint = [], m_maxBreadcrumbs = 2, m_breadcrumbs = [], m_extras = JNull,
        m_tags = JObject [(''env'', JString ''test'')], m_contexts = JNull\<rparr> = Inr s'
     \<and> scope_tag s' ''env'' = Some (JString ''test'')"
  (is "\<exists>s'. Scope_setTag _ _ ?s = Inr s' \<and> _")
proof -
  have "scope_ok ?s" "scope_tag ?s ''env'' = Some (JString ''test'')" "''prod'' \<noteq> []"
    by (simp_all add: scope_ok_def store_ok_def is_object_def scope_tag_def json_find_def)
  from setTag_first_value_stays [OF this] this(2) show ?thesis by auto
qed

end
