(* ===== verification/Regex_Match.thy ===== *)
theory Regex_Match
  imports Sentry_Prelude
begin

text \<open>
  The fragment of \<open>std::regex\<close> (ECMAScript grammar) the DSN parser uses: literals, the dot,
  concatenation, the greedy star and numbered groups.  \<open>matches\<close> lists every way to match a prefix
  of the input in the order a backtracking matcher tries them, so its head is the match the
  library reports; \<open>regex_search\<close> tries the start positions from left to right.
\<close>

datatype regex =
    Lit char
  | Dot
  | Cat regex regex
  | Star regex
  | Group nat regex

type_synonym captures = "nat \<Rightarrow> string option"

definition line_terminator :: "char \<Rightarrow> bool" where
  "line_terminator c \<longleftrightarrow> c = CHR 0x0A \<or> c = CHR 0x0D"

function matches :: "regex \<Rightarrow> string \<Rightarrow> captures \<Rightarrow> (string \<times> captures) list" where
  "matches (Lit c) s k =
     (case s of [] \<Rightarrow> [] | x # xs \<Rightarrow> if x = c then [(xs, k)] else [])"
| "matches Dot s k =
     (case s of [] \<Rightarrow> [] | x # xs \<Rightarrow> if line_terminator x then [] else [(xs, k)])"
| "matches (Cat a b) s k = concat (map (\<lambda>(s', k'). matches b s' k') (matches a s k))"
| "matches (Star r) s k =
     concat (map (\<lambda>(s', k'). if length s' < length s then matches (Star r) s' k' else [])
       (matches r s k)) @ [(s, k)]"
| "matches (Group n r) s k =
     map (\<lambda>(s', k'). (s', k'(n \<mapsto> take (length s - length s') s))) (matches r s k)"
  by pat_completeness auto
termination
  by (relation "measures [\<lambda>(r, s, k). size r, \<lambda>(r, s, k). length s]") auto

fun regex_search :: "regex \<Rightarrow> string \<Rightarrow> captures option" where
  "regex_search re s =
     (case matches re s Map.empty of
        (_, k) # _ \<Rightarrow> Some k
      | [] \<Rightarrow> (case s of [] \<Rightarrow> None | _ # t \<Rightarrow> regex_search re t))"

declare matches.simps(4) [simp del] regex_search.simps [simp del]

text \<open>The text of a group that did not take part in the match is the empty string.\<close>

definition capture_str :: "captures \<Rightarrow> nat \<Rightarrow> string" where
  "capture_str k n = (case k n of Some s \<Rightarrow> s | None \<Rightarrow> [])"

section \<open>The language of an expression\<close>

inductive_set star_of :: "string set \<Rightarrow> string set" for A :: "string set" where
  star_nil: "[] \<in> star_of A"
| star_step: "x \<in> A \<Longrightarrow> x \<noteq> [] \<Longrightarrow> y \<in> star_of A \<Longrightarrow> x @ y \<in> star_of A"

fun language :: "regex \<Rightarrow> string set" where
  "language (Lit c) = {[c]}"
| "language Dot = {[x] |x. \<not> line_terminator x}"
| "language (Cat a b) = {x @ y |x y. x \<in> language a \<and> y \<in> language b}"
| "language (Star r) = star_of (language r)"
| "language (Group n r) = language r"

text \<open>The matcher leaves over exactly the remainders of the prefixes in the language.\<close>

lemma matches_sound:
  "(s', k') \<in> set (matches r s k) \<Longrightarrow> \<exists>p. s = p @ s' \<and> p \<in> language r"
proof (induction r s k arbitrary: s' k' rule: matches.induct)
  case (1 c s k)
  then show ?case by (auto split: list.splits if_splits)
next
  case (2 s k)
  then show ?case by (auto split: list.splits if_splits)
next
  case (3 a b s k)
  from "3.prems" obtain s1 k1 where
    m: "(s1, k1) \<in> set (matches a s k)" "(s', k') \<in> set (matches b s1 k1)" by auto
  obtain p where p: "s = p @ s1" "p \<in> language a" using "3.IH"(1) [OF m(1)] by blast
  obtain q where q: "s1 = q @ s'" "q \<in> language b"
    using "3.IH"(2) [OF m(1) refl m(2)] by blast
  show ?case by (rule exI [of _ "p @ q"]) (use p q in auto)
next
  case (4 r s k)
  from "4.prems" consider "s' = s" | s1 k1 where "(s1, k1) \<in> set (matches r s k)" "length s1 < length s"
    "(s', k') \<in> set (matches (Star r) s1 k1)"
    by (auto simp: matches.simps(4) [of r s k] split: if_splits)
  then show ?case
  proof cases
    case 1
    then show ?thesis by (auto intro: star_nil)
  next
    case 2
    obtain p where p: "s = p @ s1" "p \<in> language r" using "4.IH"(1) [OF 2(1)] by blast
    obtain q where q: "s1 = q @ s'" "q \<in> star_of (language r)"
      using "4.IH"(2) [OF 2(1) refl 2(2,3)] by auto
    have "p \<noteq> []" using p(1) 2(2) by auto
    then show ?thesis by (intro exI [of _ "p @ q"]) (use p q in \<open>auto intro: star_step\<close>)
  qed
next
  case (5 n r s k)
  then show ?case by force
qed

lemma matches_complete:
  "p \<in> language r \<Longrightarrow> \<exists>k'. (s, k') \<in> set (matches r (p @ s) k)"
proof (induction r arbitrary: p s k)
  case (Cat a b)
  then obtain x y where p: "p = x @ y" "x \<in> language a" "y \<in> language b" by auto
  from Cat.IH(1) [OF p(2), of "y @ s" k] obtain k1
    where 1: "(y @ s, k1) \<in> set (matches a (x @ y @ s) k)" by blast
  from Cat.IH(2) [OF p(3), of s k1] obtain k2 where 2: "(s, k2) \<in> set (matches b (y @ s) k1)" by blast
  have "(s, k2) \<in> set (matches (Cat a b) (p @ s) k)"
    by (simp add: p(1)) (rule bexI [OF _ 1], simp add: 2)
  then show ?case by (intro exI [of _ k2])
next
  case (Star r)
  from Star.prems have "p \<in> star_of (language r)" by simp
  then show ?case
  proof (induction arbitrary: k rule: star_of.induct)
    case star_nil
    then show ?case by (auto simp: matches.simps(4) [of r s])
  next
    case (star_step x y)
    from Star.IH [OF star_step.hyps(1), of "y @ s" k] obtain k1
      where 1: "(y @ s, k1) \<in> set (matches r (x @ y @ s) k)" by blast
    obtain k2 where 2: "(s, k2) \<in> set (matches (Star r) (y @ s) k1)"
      using star_step.IH by blast
    have "(s, k2) \<in> set (matches (Star r) ((x @ y) @ s) k)"
      using star_step.hyps(2)
      by (subst matches.simps(4), simp) (rule bexI [OF _ 1], simp add: 2)
    then show ?case by (intro exI [of _ k2])
  qed
qed (force+)

theorem matches_iff_language:
  "matches r s k \<noteq> [] \<longleftrightarrow> (\<exists>p s'. s = p @ s' \<and> p \<in> language r)"
proof
  assume "matches r s k \<noteq> []"
  then obtain s' k' where "(s', k') \<in> set (matches r s k)" by (cases "matches r s k") auto
  then show "\<exists>p s'. s = p @ s' \<and> p \<in> language r" using matches_sound by blast
next
  assume "\<exists>p s'. s = p @ s' \<and> p \<in> language r"
  then obtain p s' k' where "s = p @ s'" "(s', k') \<in> set (matches r (p @ s') k)"
    using matches_complete by blast
  then show "matches r s k \<noteq> []" by auto
qed

corollary matches_nonempty_captures: "matches r s k \<noteq> [] \<longleftrightarrow> matches r s k' \<noteq> []"
  by (simp add: matches_iff_language)

theorem regex_search_iff:
  "regex_search re s \<noteq> None \<longleftrightarrow> (\<exists>x p y. s = x @ p @ y \<and> p \<in> language re)"
proof (induction s)
  case Nil
  then show ?case
    using matches_iff_language [of re "[]" Map.empty]
    by (subst regex_search.simps) (auto split: list.split)
next
  case (Cons c s)
  show ?case
  proof (cases "matches re (c # s) Map.empty")
    case Nil
    then have "\<nexists>p s'. c # s = p @ s' \<and> p \<in> language re"
      using matches_iff_language [of re "c # s" Map.empty] by blast
    moreover have "regex_search re (c # s) = regex_search re s"
      using Nil by (subst regex_search.simps) simp
    ultimately show ?thesis using Cons
      by (metis append_eq_Cons_conv append_Cons append_Nil)
  next
    case (Cons m ms)
    then have "\<exists>p s'. c # s = p @ s' \<and> p \<in> language re"
      using matches_iff_language [of re "c # s" Map.empty] by simp
    then have "\<exists>x p y. c # s = x @ p @ y \<and> p \<in> language re"
      by (metis append_Nil)
    then show ?thesis using Cons by (subst regex_search.simps) (auto split: prod.split)
  qed
qed

section \<open>Greedy groups of dots\<close>

definition dot_run :: "string \<Rightarrow> nat" where
  "dot_run s = length (takeWhile (\<lambda>c. \<not> line_terminator c) s)"

lemma dot_run_simps [simp]:
  "dot_run [] = 0" "dot_run (c # s) = (if line_terminator c then 0 else Suc (dot_run s))"
  by (simp_all add: dot_run_def)

lemma rev_upt_Suc: "rev [0..<Suc (Suc n)] = map Suc (rev [0..<Suc n]) @ [0]"
proof -
  have "[0..<Suc (Suc n)] = 0 # map Suc [0..<Suc n]"
    by (simp only: map_Suc_upt) (rule upt_conv_Cons, simp)
  then show ?thesis by (simp add: rev_map del: upt_Suc)
qed

lemma matches_star_dot:
  "matches (Star Dot) s k = map (\<lambda>i. (drop i s, k)) (rev [0..<Suc (dot_run s)])"
proof (induction s)
  case Nil
  then show ?case by (simp add: matches.simps(4))
next
  case (Cons c s)
  show ?case
  proof (cases "line_terminator c")
    case True
    then show ?thesis by (simp add: matches.simps(4) [of Dot "c # s"])
  next
    case False
    then have "matches (Star Dot) (c # s) k = matches (Star Dot) s k @ [(c # s, k)]"
      by (simp add: matches.simps(4) [of Dot "c # s"])
    also have "\<dots> = map (\<lambda>i. (drop i (c # s), k)) (map Suc (rev [0..<Suc (dot_run s)]) @ [0])"
      by (simp add: Cons del: upt_Suc)
    also have "\<dots> = map (\<lambda>i. (drop i (c # s), k)) (rev [0..<Suc (dot_run (c # s))])"
      using False by (simp add: rev_upt_Suc del: upt_Suc)
    finally show ?thesis .
  qed
qed

lemma dot_run_le: "dot_run s \<le> length s"
  by (simp add: dot_run_def length_takeWhile_le)

lemma matches_group_dots:
  "matches (Group n (Star Dot)) s k
    = map (\<lambda>i. (drop i s, k(n \<mapsto> take i s))) (rev [0..<Suc (dot_run s)])"
  using dot_run_le [of s] by (auto simp: matches_star_dot)

text \<open>
  A backtracking search over the lengths of a greedy group stops at the greatest length for which
  the rest matches.
\<close>

lemma hd_concat_greatest:
  assumes "i \<le> n" "f i \<noteq> []" "\<And>j. i < j \<Longrightarrow> j \<le> n \<Longrightarrow> f j = []"
  shows "concat (map f (rev [0..<Suc n])) \<noteq> [] \<and> hd (concat (map f (rev [0..<Suc n]))) = hd (f i)"
  using assms
proof (induction n)
  case (Suc n)
  show ?case
  proof (cases "i = Suc n")
    case True
    with Suc.prems show ?thesis by simp
  next
    case False
    with Suc.prems have "f (Suc n) = []" "i \<le> n" by auto
    with Suc show ?thesis by simp
  qed
qed simp

lemma greatest_index:
  assumes "concat (map f (rev [0..<Suc n])) \<noteq> []"
  obtains i where "i \<le> n" "f i \<noteq> []" "\<And>j. i < j \<Longrightarrow> j \<le> n \<Longrightarrow> f j = []"
proof -
  let ?P = "\<lambda>i. i \<le> n \<and> f i \<noteq> []"
  from assms have "\<exists>i\<in>{0..<Suc n}. f i \<noteq> []" by (simp add: del: upt_Suc)
  then have "\<exists>i. ?P i" by (auto simp: less_Suc_eq_le)
  then have "?P (Greatest ?P)" by (rule GreatestI_ex_nat [where b = n]) simp
  moreover have "f j = []" if j: "Greatest ?P < j" "j \<le> n" for j
  proof (rule ccontr)
    assume "f j \<noteq> []"
    with j have "j \<le> Greatest ?P" by (intro Greatest_le_nat [where b = n]) auto
    with j show False by simp
  qed
  ultimately show ?thesis using that by blast
qed

declare matches.simps [simp del]

end
