(* ===== verification/Http_Status.thy ===== *)
theory Http_Status
  imports Cxx_Strings
begin

text \<open>
  \<open>externals/http-server-3.0.0/status_code.hpp\<close>: the HTTP status codes with their numeric values
  and status lines, and the lookup from a status line the transport applies to each response.
\<close>

datatype (plugins only: size) StatusCode =
    SC_unknown
  | SC_information_continue
  | SC_information_switching_protocols
  | SC_information_processing
  | SC_success_ok
  | SC_success_created
  | SC_success_accepted
  | SC_success_non_authoritative_information
  | SC_success_no_content
  | SC_success_reset_content
  | SC_success_partial_content
  | SC_success_multi_status
  | SC_success_already_reported
  | SC_success_im_used
  | SC_redirection_multiple_choices
  | SC_redirection_moved_permanently
  | SC_redirection_found
  | SC_redirection_see_other
  | SC_redirection_not_modified
  | SC_redirection_use_proxy
  | SC_redirection_switch_proxy
  | SC_redirection_temporary_redirect
  | SC_redirection_permanent_redirect
  | SC_client_error_bad_request
  | SC_client_error_unauthorized
  | SC_client_error_payment_required
  | SC_client_error_forbidden
  | SC_client_error_not_found
  | SC_client_error_method_not_allowed
  | SC_client_error_not_acceptable
  | SC_client_error_proxy_authentication_required
  | SC_client_error_request_timeout
  | SC_client_error_conflict
  | SC_client_error_gone
  | SC_client_error_length_required
  | SC_client_error_precondition_failed
  | SC_client_error_payload_too_large
  | SC_client_error_uri_too_long
  | SC_client_error_unsupported_media_type
  | SC_client_error_range_not_satisfiable
  | SC_client_error_expectation_failed
  | SC_client_error_im_a_teapot
  | SC_client_error_misdirection_required
  | SC_client_error_unprocessable_entity
  | SC_client_error_locked
  | SC_client_error_failed_dependency
  | SC_client_error_upgrade_required
  | SC_client_error_precondition_required
  | SC_client_error_too_many_requests
  | SC_client_error_request_header_fields_too_large
  | SC_client_error_unavailable_for_legal_reasons
  | SC_server_error_internal_server_error
  | SC_server_error_not_implemented
  | SC_server_error_bad_gateway
  | SC_server_error_service_unavailable
  | SC_server_error_gateway_timeout
  | SC_server_error_http_version_not_supported
  | SC_server_error_variant_also_negotiates
  | SC_server_error_insufficient_storage
  | SC_server_error_loop_detected
  | SC_server_error_not_extended
  | SC_server_error_network_authentication_required

primrec status_value :: "StatusCode \<Rightarrow> nat" where
  "status_value SC_unknown = 0"
| "status_value SC_information_continue = 100"
| "status_value SC_information_switching_protocols = 101"
| "status_value SC_information_processing = 102"
| "status_value SC_success_ok = 200"
| "status_value SC_success_created = 201"
| "status_value SC_success_accepted = 202"
| "status_value SC_success_non_authoritative_information = 203"
| "status_value SC_success_no_content = 204"
| "status_value SC_success_reset_content = 205"
| "status_value SC_success_partial_content = 206"
| "status_value SC_success_multi_status = 207"
| "status_value SC_success_already_reported = 208"
| "status_value SC_success_im_used = 226"
| "status_value SC_redirection_multiple_choices = 300"
| "status_value SC_redirection_moved_permanently = 301"
| "status_value SC_redirection_found = 302"
| "status_value SC_redirection_see_other = 303"
| "status_value SC_redirection_not_modified = 304"
| "status_value SC_redirection_use_proxy = 305"
| "status_value SC_redirection_switch_proxy = 306"
| "status_value SC_redirection_temporary_redirect = 307"
| "status_value SC_redirection_permanent_redirect = 308"
| "status_value SC_client_error_bad_request = 400"
| "status_value SC_client_error_unauthorized = 401"
| "status_value SC_client_error_payment_required = 402"
| "status_value SC_client_error_forbidden = 403"
| "status_value SC_client_error_not_found = 404"
| "status_value SC_client_error_method_not_allowed = 405"
| "status_value SC_client_error_not_acceptable = 406"
| "status_value SC_client_error_proxy_authentication_required = 407"
| "status_value SC_client_error_request_timeout = 408"
| "status_value SC_client_error_conflict = 409"
| "status_value SC_client_error_gone = 410"
| "status_value SC_client_error_length_required = 411"
| "status_value SC_client_error_precondition_failed = 412"
| "status_value SC_client_error_payload_too_large = 413"
| "status_value SC_client_error_uri_too_long = 414"
| "status_value SC_client_error_unsupported_media_type = 415"
| "status_value SC_client_error_range_not_satisfiable = 416"
| "status_value SC_client_error_expectation_failed = 417"
| "status_value SC_client_error_im_a_teapot = 418"
| "status_value SC_client_error_misdirection_required = 421"
| "status_value SC_client_error_unprocessable_entity = 422"
| "status_value SC_client_error_locked = 423"
| "status_value SC_client_error_failed_dependency = 424"
| "status_value SC_client_error_upgrade_required = 426"
| "status_value SC_client_error_precondition_required = 428"
| "status_value SC_client_error_too_many_requests = 429"
| "status_value SC_client_error_request_header_fields_too_large = 431"
| "status_value SC_client_error_unavailable_for_legal_reasons = 451"
| "status_value SC_server_error_internal_server_error = 500"
| "status_value SC_server_error_not_implemented = 501"
| "status_value SC_server_error_bad_gateway = 502"
| "status_value SC_server_error_service_unavailable = 503"
| "status_value SC_server_error_gateway_timeout = 504"
| "status_value SC_server_error_http_version_not_supported = 505"
| "status_value SC_server_error_variant_also_negotiates = 506"
| "status_value SC_server_error_insufficient_storage = 507"
| "status_value SC_server_error_loop_detected = 508"
| "status_value SC_server_error_not_extended = 510"
| "status_value SC_server_error_network_authentication_required = 511"

definition status_code_strings :: "(StatusCode \<times> string) list" where
  "status_code_strings =
    [(SC_unknown, ''''),
     (SC_information_continue, ''100 Continue''),
     (SC_information_switching_protocols, ''101 Switching Protocols''),
     (SC_information_processing, ''102 Processing''),
     (SC_success_ok, ''200 OK''),
     (SC_success_created, ''201 Created''),
     (SC_success_accepted, ''202 Accepted''),
     (SC_success_non_authoritative_information, ''203 Non-Authoritative Information''),
     (SC_success_no_content, ''204 No Content''),
     (SC_success_reset_content, ''205 Reset Content''),
     (SC_success_partial_content, ''206 Partial Content''),
     (SC_success_multi_status, ''207 Multi-Status''),
     (SC_success_already_reported, ''208 Already Reported''),
     (SC_success_im_used, ''226 IM Used''),
     (SC_redirection_multiple_choices, ''300 Multiple Choices''),
     (SC_redirection_moved_permanently, ''301 Moved Permanently''),
     (SC_redirection_found, ''302 Found''),
     (SC_redirection_see_other, ''303 See Other''),
     (SC_redirection_not_modified, ''304 Not Modified''),
     (SC_redirection_use_proxy, ''305 Use Proxy''),
     (SC_redirection_switch_proxy, ''306 Switch Proxy''),
     (SC_redirection_temporary_redirect, ''307 Temporary Redirect''),
     (SC_redirection_permanent_redirect, ''308 Permanent Redirect''),
     (SC_client_error_bad_request, ''400 Bad Request''),
     (SC_client_error_unauthorized, ''401 Unauthorized''),
     (SC_client_error_payment_required, ''402 Payment Required''),
     (SC_client_error_forbidden, ''403 Forbidden''),
     (SC_client_error_not_found, ''404 Not Found''),
     (SC_client_error_method_not_allowed, ''405 Method Not Allowed''),
     (SC_client_error_not_acceptable, ''406 Not Acceptable''),
     (SC_client_error_proxy_authentication_required, ''407 Proxy Authentication Required''),
     (SC_client_error_request_timeout, ''408 Request Timeout''),
     (SC_client_error_conflict, ''409 Conflict''),
     (SC_client_error_gone, ''410 Gone''),
     (SC_client_error_length_required, ''411 Length Required''),
     (SC_client_error_precondition_failed, ''412 Precondition Failed''),
     (SC_client_error_payload_too_large, ''413 Payload Too Large''),
     (SC_client_error_uri_too_long, ''414 URI Too Long''),
     (SC_client_error_unsupported_media_type, ''415 Unsupported Media Type''),
     (SC_client_error_range_not_satisfiable, ''416 Range Not Satisfiable''),
     (SC_client_error_expectation_failed, ''417 Expectation Failed''),
     (SC_client_error_im_a_teapot, ''418 I'' @ [CHR 0x27] @ ''m a teapot''),
     (SC_client_error_misdirection_required, ''421 Misdirected Request''),
     (SC_client_error_unprocessable_entity, ''422 Unprocessable Entity''),
     (SC_client_error_locked, ''423 Locked''),
     (SC_client_error_failed_dependency, ''424 Failed Dependency''),
     (SC_client_error_upgrade_required, ''426 Upgrade Required''),
     (SC_client_error_precondition_required, ''428 Precondition Required''),
     (SC_client_error_too_many_requests, ''429 Too Many Requests''),
     (SC_client_error_request_header_fields_too_large, ''431 Request Header Fields Too Large''),
     (SC_client_error_unavailable_for_legal_reasons, ''451 Unavailable For Legal Reasons''),
     (SC_server_error_internal_server_error, ''500 Internal Server Error''),
     (SC_server_error_not_implemented, ''501 Not Implemented''),
     (SC_server_error_bad_gateway, ''502 Bad Gateway''),
     (SC_server_error_service_unavailable, ''503 Service Unavailable''),
     (SC_server_error_gateway_timeout, ''504 Gateway Timeout''),
     (SC_server_error_http_version_not_supported, ''505 HTTP Version Not Supported''),
     (SC_server_error_variant_also_negotiates, ''506 Variant Also Negotiates''),
     (SC_server_error_insufficient_storage, ''507 Insufficient Storage''),
     (SC_server_error_loop_detected, ''508 Loop Detected''),
     (SC_server_error_not_extended, ''510 Not Extended''),
     (SC_server_error_network_authentication_required, ''511 Network Authentication Required'')]"

definition status_code :: "string \<Rightarrow> StatusCode" where
  "status_code status_code_string =
     (case map_of (map prod.swap status_code_strings) status_code_string of
        Some c \<Rightarrow> c
      | None \<Rightarrow> SC_unknown)"

definition status_code_text :: "StatusCode \<Rightarrow> string" where
  "status_code_text c =
     (case map_of status_code_strings c of Some s \<Rightarrow> s | None \<Rightarrow> [])"

lemma status_texts_distinct: "distinct (map snd status_code_strings)"
  unfolding status_code_strings_def list.map snd_conv by code_simp

lemma status_code_eq:
  assumes "(c, s) \<in> set status_code_strings"
  shows "status_code s = c"
proof -
  have "map_of (map prod.swap status_code_strings) s = Some c"
    using assms status_texts_distinct by (intro map_of_is_SomeI) (auto simp: comp_def)
  then show ?thesis by (simp add: status_code_def)
qed

lemma status_code_known:
  assumes "status_code s \<noteq> SC_unknown"
  shows "(status_code s, s) \<in> set status_code_strings"
  using assms by (auto simp: status_code_def dest!: map_of_SomeD split: option.splits)

lemma status_code_listed: "c \<in> fst ` set status_code_strings"
  unfolding status_code_strings_def list.set(2) image_insert fst_conv
  by (cases c) (simp_all only: insert_iff simp_thms)

lemma status_code_text_listed: "(c, status_code_text c) \<in> set status_code_strings"
proof -
  obtain s where "map_of status_code_strings c = Some s"
    using status_code_listed [of c] by (metis option.exhaust map_of_eq_None_iff)
  then show ?thesis by (auto simp: status_code_text_def dest: map_of_SomeD)
qed

text \<open>Looking up the status line of any status code gives back that code, so the table
  of status lines and the lookup agree on every code.\<close>

theorem status_code_roundtrip: "status_code (status_code_text c) = c"
  by (rule status_code_eq [OF status_code_text_listed])

text \<open>The two status lines the transport distinguishes are recognised by their full text only.\<close>

lemma status_codes_distinct: "distinct (map fst status_code_strings)"
proof -
  have "distinct (map status_value (map fst status_code_strings))"
    unfolding status_code_strings_def list.map fst_conv by simp
  then show ?thesis by (simp only: distinct_map)
qed

lemma status_code_iff:
  assumes "c \<noteq> SC_unknown"
  shows "status_code s = c \<longleftrightarrow> s = status_code_text c"
proof
  assume "status_code s = c"
  with assms status_code_known [of s] have "(c, s) \<in> set status_code_strings" by simp
  then have "map_of status_code_strings c = Some s"
    using status_codes_distinct by (rule map_of_is_SomeI [rotated])
  then show "s = status_code_text c" by (simp add: status_code_text_def)
next
  assume "s = status_code_text c"
  then show "status_code s = c" using status_code_eq [OF status_code_text_listed] by simp
qed

lemma status_code_success_iff: "status_code s = SC_success_ok \<longleftrightarrow> s = ''200 OK''"
proof -
  have "status_code_text SC_success_ok = ''200 OK''"
    by (simp add: status_code_text_def status_code_strings_def)
  with status_code_iff [of SC_success_ok s] show ?thesis by simp
qed

lemma status_code_too_many_iff:
  "status_code s = SC_client_error_too_many_requests \<longleftrightarrow> s = ''429 Too Many Requests''"
proof -
  have "status_code_text SC_client_error_too_many_requests = ''429 Too Many Requests''"
    by (simp add: status_code_text_def status_code_strings_def)
  with status_code_iff [of SC_client_error_too_many_requests s] show ?thesis by simp
qed

end
