(* ===== verification/Simple_Web.thy ===== *)
theory Simple_Web
  imports Http_Status
begin

text \<open>
  The part of \<open>externals/http-server-3.0.0\<close> (\<open>utility.hpp\<close>, \<open>client_http.hpp\<close>) the transport uses:
  header fields with case-insensitive names, the host and port of a client, and the text of the
  request it writes.  A multimap of header fields is the list of its fields in the order the
  container iterates over them; the order \<open>unordered_multimap\<close> chooses is not specified, so no
  lemma depends on where \<open>hdr_emplace\<close> puts a field.  Sockets, timers and the event loop (asio) are
  not modelled: the transport receives the outcome of a request as an argument.
\<close>

type_synonym header = "(string \<times> string) list"

section \<open>Case-insensitive header names\<close>

definition case_insensitive_equal :: "string \<Rightarrow> string \<Rightarrow> bool" where
  "case_insensitive_equal str1 str2 \<longleftrightarrow>
     length str1 = length str2 \<and> list_all2 (\<lambda>a b. tolower a = tolower b) str1 str2"

text \<open>\<open>hash\<close> is the standard library's \<open>std::hash<int>\<close>.\<close>

definition case_insensitive_hash :: "(int \<Rightarrow> size_t) \<Rightarrow> string \<Rightarrow> size_t" where
  "case_insensitive_hash hash str =
     foldl (\<lambda>h c. xor h (hash (of_char (tolower c)) + 0x9e3779b9 + push_bit 6 h + drop_bit 2 h)) 0 str"

definition hdr_emplace :: "string \<Rightarrow> string \<Rightarrow> header \<Rightarrow> header" where
  "hdr_emplace k v h = h @ [(k, v)]"

fun hdr_find :: "string \<Rightarrow> header \<Rightarrow> string option" where
  "hdr_find k [] = None"
| "hdr_find k ((k', v) # h) = (if case_insensitive_equal k' k then Some v else hdr_find k h)"

lemma case_insensitive_equal_map:
  "case_insensitive_equal s t \<longleftrightarrow> map tolower s = map tolower t"
  by (auto simp: case_insensitive_equal_def list_all2_conv_all_nth list_eq_iff_nth_eq)

text \<open>Header names that compare equal have equal hashes, which the hash table of header
  fields needs for its lookups to find a field whatever the case of its name.\<close>

theorem case_insensitive_hash_agrees:
  assumes "case_insensitive_equal s t"
  shows "case_insensitive_hash hash s = case_insensitive_hash hash t"
proof -
  have fold: "case_insensitive_hash hash s
    = foldl (\<lambda>h c. xor h (hash (of_char c) + 0x9e3779b9 + push_bit 6 h + drop_bit 2 h)) 0 (map tolower s)"
    for s by (simp add: case_insensitive_hash_def foldl_map)
  from assms show ?thesis by (simp add: fold case_insensitive_equal_map)
qed

theorem case_insensitive_hash_agrees_witness:
  "case_insensitive_hash word_of_int ''Retry-After'' = case_insensitive_hash word_of_int ''retry-after''"
  by (rule case_insensitive_hash_agrees) code_simp

section \<open>The client\<close>

record http_client =
  client_host :: string
  client_port :: u16
  client_timeout :: int

definition parse_host_port :: "string \<Rightarrow> u16 \<Rightarrow> (string \<times> u16) res" where
  "parse_host_port host_port default_port =
     (let host_end = str_find CHR '':'' host_port
      in if host_end = npos then Inr (host_port, default_port)
         else bind_res (str_substr host_port 0 host_end) (\<lambda>h.
              bind_res (str_substr host_port (host_end + 1) npos) (\<lambda>p.
              bind_res (stoul 10 p) (\<lambda>n. Inr (h, ucast n)))))"

text \<open>
  The constructor of the client is \<open>noexcept\<close> and calls \<open>parse_host_port\<close>, so an exception from
  \<open>stoul\<close> there ends the process.
\<close>

definition http_client_new :: "string \<Rightarrow> http_client res" where
  "http_client_new server_port_path =
     (case parse_host_port server_port_path 80 of
        Inr (h, p) \<Rightarrow> Inr \<lparr>client_host = h, client_port = p, client_timeout = 0\<rparr>
      | Inl e \<Rightarrow> Inl (Terminate ''exception in a noexcept function''))"

definition crlf :: string where
  "crlf = [CHR 0x0D, CHR 0x0A]"

definition header_lines :: "header \<Rightarrow> string" where
  "header_lines h = concat (map (\<lambda>(k, v). k @ '': '' @ v @ crlf) h)"

text \<open>Without a proxy server, as the transport leaves the configuration.\<close>

definition create_request_header :: "http_client \<Rightarrow> string \<Rightarrow> string \<Rightarrow> header \<Rightarrow> string" where
  "create_request_header c meth path h =
     (let corrected_path = (if path = [] then ''/'' else path)
      in meth @ '' '' @ corrected_path @ '' HTTP/1.1'' @ crlf
         @ ''Host: '' @ client_host c @ crlf @ header_lines h)"

definition request_text :: "http_client \<Rightarrow> string \<Rightarrow> string \<Rightarrow> string \<Rightarrow> header \<Rightarrow> string" where
  "request_text c meth path content h =
     create_request_header c meth path h
     @ (if content \<noteq> []
        then (case hdr_find ''Content-Length'' h of
                Some _ \<Rightarrow> []
              | None \<Rightarrow>
                  (if hdr_find ''Transfer-Encoding'' h = Some ''chunked'' then []
                   else ''Content-Length: '' @ show_nat (length content) @ crlf))
        else [])
     @ crlf @ content"

section \<open>Host and port\<close>

lemma parse_host_port_plain:
  "CHR '':'' \<notin> set s \<Longrightarrow> parse_host_port s p = Inr (s, p)"
  by (simp add: parse_host_port_def str_find_absent)

lemma of_nat_neq_npos: "n < 2 ^ 64 - 1 \<Longrightarrow> (of_nat n :: size_t) \<noteq> npos"
proof
  assume n: "n < 2 ^ 64 - 1" and "(of_nat n :: size_t) = npos"
  then have "unat (of_nat n :: size_t) = 2 ^ 64 - 1" by (simp add: unat_npos)
  moreover have "unat (of_nat n :: size_t) = n" using n by (intro unat_of_nat_size) simp
  ultimately show False using n by simp
qed

lemma parse_host_port_colon:
  assumes "CHR '':'' \<notin> set h" "length h + length rest < 2 ^ 64 - 2"
  shows "parse_host_port (h @ CHR '':'' # rest) p
    = bind_res (stoul 10 rest) (\<lambda>n. Inr (h, ucast n))"
proof -
  have find: "str_find CHR '':'' (h @ CHR '':'' # rest) = of_nat (length h)"
    using assms by (simp add: str_find_append)
  have npos: "(of_nat (length h) :: size_t) \<noteq> npos"
    using assms by (intro of_nat_neq_npos) simp
  have host: "str_substr (h @ CHR '':'' # rest) 0 (of_nat (length h)) = Inr h"
    using assms by (intro str_substr_prefix) simp
  have port: "str_substr (h @ CHR '':'' # rest) (of_nat (length h) + 1) npos = Inr rest"
    using str_substr_rest [of "h @ '':''" rest] assms by (simp add: add.commute)
  show ?thesis by (simp add: parse_host_port_def Let_def find npos host port)
qed

text \<open>The client of a host with a decimal port up to 65535 gets exactly that host and
  port.\<close>

theorem http_client_new_host_port:
  assumes "CHR '':'' \<notin> set h" "length h < 2 ^ 32" "n < 2 ^ 16"
  shows "http_client_new (h @ '':'' @ show_nat n)
    = Inr \<lparr>client_host = h, client_port = of_nat n, client_timeout = 0\<rparr>"
proof -
  have "length (show_nat n) \<le> 5"
    using assms(3) by (intro show_base_length) auto
  then have "parse_host_port (h @ CHR '':'' # show_nat n) 80 = bind_res (stoul 10 (show_nat n)) (\<lambda>n. Inr (h, ucast n))"
    using assms by (intro parse_host_port_colon) auto
  moreover have "stoul 10 (show_nat n @ []) = Inr (of_nat n)"
    using assms(3) by (intro stoul_show_nat) auto
  ultimately show ?thesis
    using assms(3) by (simp add: http_client_new_def unsigned_of_nat take_bit_nat_eq_self)
qed

theorem http_client_new_host_port_witness:
  "http_client_new (''sentry.local'' @ '':'' @ show_nat 9000)
    = Inr \<lparr>client_host = ''sentry.local'', client_port = of_nat 9000, client_timeout = 0\<rparr>"
  by (rule http_client_new_host_port) simp_all

end
