(* ===== verification/Transport.thy ===== *)
theory Transport
  imports Dsn Simple_Web
begin

text \<open>
  Class \<open>Transport\<close> of \<open>src/transport.h\<close> and \<open>src/transport.cpp\<close>: the queue of closures, the worker's
  \<open>perform\<close>, the posting of events with one retry, the reaction to error responses, and starting
  and stopping the worker thread.  The record has the members of the class; \<open>wire\<close> is not a member
  but the list of the requests handed to the HTTP client so far.  The clock and the outcome of a
  request are inputs: a \<open>tick\<close> gives the times one \<open>perform\<close> reads (nanoseconds since the epoch) and
  the reply the network has for it, a response or the exception the client throws.
\<close>

definition RECONNECTION_TIMEOUT_MILLISECONDS :: nat where
  "RECONNECTION_TIMEOUT_MILLISECONDS = 10000"

datatype State = NO_CONNECTION | SEND_EVENTS | DROP_EVENTS

text \<open>The two closures that are ever queued.\<close>

datatype task =
    Task_sendPost string
  | Task_sendPost_retry string header

record response =
  resp_status_code :: string
  resp_header :: header

record tick =
  tick_now :: int
  tick_after :: int
  tick_reply :: "failure + response"

record transport =
  m_lastConnectionRequestTime :: int
  m_retryAfterMilliseconds :: "u64 option"
  m_lastRequestBeforeDroppingTime :: int
  m_thread_joinable :: bool
  m_tasks :: "task list"
  m_running :: bool
  m_shouldStop :: bool
  m_dsnStruct :: SentryDSN
  m_pHttpClient :: "http_client option"
  m_state :: State
  wire :: "(string \<times> string \<times> header) list"

definition Transport_new :: transport where
  "Transport_new =
     \<lparr>m_lastConnectionRequestTime = 0, m_retryAfterMilliseconds = None,
      m_lastRequestBeforeDroppingTime = 0, m_thread_joinable = False, m_tasks = [],
      m_running = False, m_shouldStop = False, m_dsnStruct = empty_dsn, m_pHttpClient = None,
      m_state = NO_CONNECTION, wire = []\<rparr>"

section \<open>Time\<close>

text \<open>\<open>duration_cast<milliseconds>\<close> of a nanosecond count truncates towards zero.\<close>

definition to_milliseconds :: "int \<Rightarrow> int" where
  "to_milliseconds d = (if 0 \<le> d then d div 1000000 else - ((- d) div 1000000))"

definition to_seconds :: "int \<Rightarrow> int" where
  "to_seconds d = (if 0 \<le> d then d div 1000000000 else - ((- d) div 1000000000))"

definition reconnectTimeoutReached :: "int \<Rightarrow> transport \<Rightarrow> bool" where
  "reconnectTimeoutReached now t \<longleftrightarrow>
     (let timeSinceLastRequest = now - m_lastConnectionRequestTime t
      in to_milliseconds timeSinceLastRequest \<ge> int RECONNECTION_TIMEOUT_MILLISECONDS)"

text \<open>Before a first 429 response \<open>m_retryAfterMilliseconds\<close> is an uninitialised member.\<close>

definition droppingEventsTimeoutReached :: "int \<Rightarrow> transport \<Rightarrow> bool res" where
  "droppingEventsTimeoutReached now t =
     (let timeSinceLastRequest = now - m_lastRequestBeforeDroppingTime t;
          millisecondsSinceLasteRequest = to_milliseconds timeSinceLastRequest
      in case m_retryAfterMilliseconds t of
           None \<Rightarrow> Inl (Undefined_behaviour ''read of an uninitialised member'')
         | Some retry \<Rightarrow> Inr (retry \<le> word_of_int millisecondsSinceLasteRequest))"

section \<open>Queueing\<close>

definition changeState :: "State \<Rightarrow> transport \<Rightarrow> transport" where
  "changeState newState t = t\<lparr>m_state := newState\<rparr>"

definition addActionToQueue :: "task \<Rightarrow> transport \<Rightarrow> transport" where
  "addActionToQueue actionToEnqueue t =
     (if \<not> m_shouldStop t then t\<lparr>m_tasks := m_tasks t @ [actionToEnqueue]\<rparr> else t)"

definition sendEvent :: "string \<Rightarrow> transport \<Rightarrow> transport" where
  "sendEvent contents t = addActionToQueue (Task_sendPost contents) t"

definition sendEventRetry :: "string \<Rightarrow> header \<Rightarrow> transport \<Rightarrow> transport" where
  "sendEventRetry contents header t = addActionToQueue (Task_sendPost_retry contents header) t"

section \<open>Posting\<close>

definition SENTRY_VERSION :: nat where
  "SENTRY_VERSION = 7"

definition createHeader :: "int \<Rightarrow> transport \<Rightarrow> header" where
  "createHeader now t =
     (let client_version = ''sentry_cpp/0.1'';
          timestamp = show_int (to_seconds now);
          header_info = ''Sentry '' @ ''sentry_version='' @ show_nat SENTRY_VERSION @ '', ''
            @ ''sentry_client='' @ client_version @ '', ''
            @ ''sentry_timestamp='' @ timestamp @ '', ''
            @ ''sentry_key='' @ publicKey (m_dsnStruct t)
            @ (if secretKey (m_dsnStruct t) \<noteq> []
               then '', '' @ ''sentry_secret='' @ secretKey (m_dsnStruct t) else [])
      in hdr_emplace ''User-Agent'' client_version
           (hdr_emplace ''Content-Type'' ''application/json''
             (hdr_emplace ''X-Sentry-Auth'' header_info [])))"

text \<open>
  The loop over the response's header fields, with the value the member has when the loop ends;
  \<open>stoul\<close> stops it with an exception.
\<close>

fun retryAfter_loop :: "header \<Rightarrow> u64 \<Rightarrow> unit res \<times> u64" where
  "retryAfter_loop [] retry = (Inr (), retry)"
| "retryAfter_loop ((name, val) # h) retry =
     (if name = ''Retry-After''
      then (case stoul 10 (takeWhile (\<lambda>c. c \<noteq> CHR 0x00) val) of
              Inl e \<Rightarrow> (Inl e, retry)
            | Inr n \<Rightarrow> retryAfter_loop h (n * MILLISECONDS_IN_SECOND))
      else retryAfter_loop h retry)"

definition handleTooManyRequests :: "response \<Rightarrow> transport \<Rightarrow> unit res \<times> transport" where
  "handleTooManyRequests errorResponse t =
     (case retryAfter_loop (resp_header errorResponse) (of_nat RECONNECTION_TIMEOUT_MILLISECONDS) of
        (Inl e, retry) \<Rightarrow> (Inl e, t\<lparr>m_retryAfterMilliseconds := Some retry\<rparr>)
      | (Inr _, retry) \<Rightarrow>
          (Inr (), changeState DROP_EVENTS (t\<lparr>m_retryAfterMilliseconds := Some retry\<rparr>)))"

definition checkResponse :: "response \<Rightarrow> transport \<Rightarrow> bool res \<times> transport" where
  "checkResponse response t =
     (if status_code (resp_status_code response) = SC_success_ok then (Inr True, t)
      else if status_code (resp_status_code response) = SC_client_error_too_many_requests
      then (case handleTooManyRequests response t of
              (Inl e, t') \<Rightarrow> (Inl e, t')
            | (Inr _, t') \<Rightarrow> (Inr True, t'))
      else (Inr False, t))"

text \<open>
  The overload that posts.  A \<open>system_error\<close> of the client is caught; every other exception leaves
  the function.
\<close>

definition sendPost_header ::
    "tick \<Rightarrow> string \<Rightarrow> header \<Rightarrow> bool \<Rightarrow> transport \<Rightarrow> unit res \<times> transport" where
  "sendPost_header tk content header isRetrying t =
     (if m_pHttpClient t = None then (Inl (Undefined_behaviour ''null pointer''), t)
      else
        let t = t\<lparr>wire := wire t @ [(sentry_endpoint (m_dsnStruct t), content, header)]\<rparr>
        in case tick_reply tk of
             Inr response \<Rightarrow>
               (case checkResponse response t of
                  (Inl e, t') \<Rightarrow> (Inl e, t')
                | (Inr ok, t') \<Rightarrow>
                    (Inr (), if \<not> ok \<and> \<not> isRetrying then sendEventRetry content header t' else t'))
           | Inl (System_error e) \<Rightarrow>
               (Inr (), (changeState NO_CONNECTION t)\<lparr>m_lastConnectionRequestTime := tick_after tk\<rparr>)
           | Inl e \<Rightarrow> (Inl e, t))"

definition sendPost :: "tick \<Rightarrow> string \<Rightarrow> transport \<Rightarrow> unit res \<times> transport" where
  "sendPost tk content t =
     (if m_pHttpClient t = None then (Inr (), t)
      else sendPost_header tk content (createHeader (tick_now tk) t) False t)"

fun run_task :: "tick \<Rightarrow> task \<Rightarrow> transport \<Rightarrow> unit res \<times> transport" where
  "run_task tk (Task_sendPost contents) t = sendPost tk contents t"
| "run_task tk (Task_sendPost_retry contents header) t = sendPost_header tk contents header True t"

section \<open>The worker\<close>

definition performNoConnection :: "tick \<Rightarrow> transport \<Rightarrow> transport" where
  "performNoConnection tk t =
     (if reconnectTimeoutReached (tick_now tk) t then changeState SEND_EVENTS t else t)"

definition performSendEvents :: "tick \<Rightarrow> transport \<Rightarrow> unit res \<times> transport" where
  "performSendEvents tk t =
     (case m_tasks t of
        [] \<Rightarrow> (Inr (), t)
      | funcToExecute # rest \<Rightarrow> run_task tk funcToExecute (t\<lparr>m_tasks := rest\<rparr>))"

definition performDropEvents :: "tick \<Rightarrow> transport \<Rightarrow> unit res \<times> transport" where
  "performDropEvents tk t =
     (case droppingEventsTimeoutReached (tick_now tk) t of
        Inl e \<Rightarrow> (Inl e, t)
      | Inr reached \<Rightarrow> (Inr (), if reached then changeState SEND_EVENTS t else t))"

text \<open>The case for \<open>DROP_EVENTS\<close> is an empty \<open>break\<close> in the source.\<close>

definition perform :: "tick \<Rightarrow> transport \<Rightarrow> unit res \<times> transport" where
  "perform tk t =
     (case m_state t of
        NO_CONNECTION \<Rightarrow> (Inr (), performNoConnection tk t)
      | SEND_EVENTS \<Rightarrow> performSendEvents tk t
      | DROP_EVENTS \<Rightarrow> (Inr (), t))"

text \<open>
  The second loop of \<open>run\<close>, entered once \<open>m_shouldStop\<close> is set: \<open>None\<close> when it never ends.  The ticks
  are those of its iterations, from number \<open>i\<close> on.  An exception leaves the thread function.
\<close>

partial_function (option) drain ::
    "(nat \<Rightarrow> tick) \<Rightarrow> nat \<Rightarrow> transport \<Rightarrow> (unit res \<times> transport) option" where
  "drain env i t =
     (if m_tasks t = [] then Some (Inr (), t\<lparr>m_running := False\<rparr>)
      else (case perform (env i) t of
              (Inl e, t') \<Rightarrow> Some (Inl e, t')
            | (Inr u, t') \<Rightarrow> drain env (Suc i) t'))"

section \<open>Start, set up, stop\<close>

definition Transport_start :: "transport \<Rightarrow> transport" where
  "Transport_start t = t\<lparr>m_thread_joinable := True, m_running := True\<rparr>"

definition setupClient :: "SentryDSN \<Rightarrow> transport \<Rightarrow> EErrorCode res \<times> transport" where
  "setupClient dsn t =
     (let t = t\<lparr>m_dsnStruct := dsn\<rparr>
      in case http_client_new (hostPath (m_dsnStruct t)) of
           Inl e \<Rightarrow> (Inl e, t)
         | Inr c \<Rightarrow> (Inr NO_ERROR,
             t\<lparr>m_pHttpClient := Some (c\<lparr>client_timeout := uint HTTP_CLIENT_TIMOUT_IN_SECONDS\<rparr>)\<rparr>))"

text \<open>
  \<open>stop\<close> sets the flag and joins the worker, whose remaining iterations are those of \<open>drain\<close>.
  \<open>on_worker\<close> says whether the caller is the worker thread itself: joining oneself and joining a
  thread that is not joinable are errors of \<open>std::thread::join\<close>.  The result is \<open>None\<close> when the
  join never returns.
\<close>

definition Transport_stop ::
    "bool \<Rightarrow> (nat \<Rightarrow> tick) \<Rightarrow> transport \<Rightarrow> (unit res \<times> transport) option" where
  "Transport_stop on_worker env t =
     (let t = t\<lparr>m_shouldStop := True\<rparr>
      in if \<not> m_thread_joinable t then Some (Inl (System_error ''Invalid argument''), t)
         else if on_worker then Some (Inl (System_error ''Resource deadlock avoided''), t)
         else case drain env 0 t of
                None \<Rightarrow> None
              | Some (Inl e, t') \<Rightarrow> Some (Inl (Terminate ''exception in the worker thread''), t')
              | Some (Inr _, t') \<Rightarrow> Some (Inr (), t'\<lparr>m_thread_joinable := False\<rparr>))"

text \<open>The destructor destroys the \<open>std::thread\<close> member, which must not be joinable.\<close>

definition Transport_destroy :: "transport \<Rightarrow> unit res" where
  "Transport_destroy t =
     (if m_thread_joinable t then Inl (Terminate ''destruction of a joinable thread'') else Inr ())"

section \<open>Runs of the first loop, interleaved with the clients' calls\<close>

datatype op =
    Op_sendEvent string
  | Op_perform tick

fun run_ops :: "op list \<Rightarrow> transport \<Rightarrow> unit res \<times> transport" where
  "run_ops [] t = (Inr (), t)"
| "run_ops (Op_sendEvent c # ops) t = run_ops ops (sendEvent c t)"
| "run_ops (Op_perform tk # ops) t =
     (case perform tk t of
        (Inl e, t') \<Rightarrow> (Inl (Terminate ''exception in the worker thread''), t')
      | (Inr _, t') \<Rightarrow> run_ops ops t')"

section \<open>Frames\<close>

named_theorems transport_simps \<open>unfolding the operations of the transport\<close>

lemmas [transport_simps] =
  changeState_def addActionToQueue_def sendEvent_def sendEventRetry_def handleTooManyRequests_def
  checkResponse_def sendPost_header_def sendPost_def performNoConnection_def performSendEvents_def
  perform_def Let_def

lemmas transport_splits = failure.splits sum.splits prod.splits if_splits list.splits State.splits

lemma retryAfter_loop_frame:
  "handleTooManyRequests r t = (x, t') \<Longrightarrow> m_tasks t' = m_tasks t \<and> wire t' = wire t
    \<and> m_shouldStop t' = m_shouldStop t \<and> m_pHttpClient t' = m_pHttpClient t
    \<and> m_dsnStruct t' = m_dsnStruct t \<and> m_thread_joinable t' = m_thread_joinable t"
  by (auto simp: handleTooManyRequests_def changeState_def split: prod.splits sum.splits)

lemma checkResponse_frame:
  "checkResponse r t = (x, t') \<Longrightarrow> m_tasks t' = m_tasks t \<and> wire t' = wire t
    \<and> m_shouldStop t' = m_shouldStop t \<and> m_pHttpClient t' = m_pHttpClient t
    \<and> m_dsnStruct t' = m_dsnStruct t \<and> m_thread_joinable t' = m_thread_joinable t"
  by (auto simp: checkResponse_def dest: retryAfter_loop_frame split: prod.splits sum.splits if_splits)

text \<open>What posting one queued task does to the queue and the wire, whatever the reply.\<close>

lemma sendPost_header_effect:
  assumes "sendPost_header tk c h retrying t = (r, t')" "m_pHttpClient t \<noteq> None"
  shows "wire t' = wire t @ [(sentry_endpoint (m_dsnStruct t), c, h)]
    \<and> (m_tasks t' = m_tasks t \<or> \<not> retrying \<and> \<not> m_shouldStop t \<and> m_tasks t' = m_tasks t @ [Task_sendPost_retry c h])
    \<and> m_shouldStop t' = m_shouldStop t \<and> m_pHttpClient t' = m_pHttpClient t
    \<and> m_dsnStruct t' = m_dsnStruct t \<and> m_thread_joinable t' = m_thread_joinable t"
  using assms
  by (auto simp: sendPost_header_def Let_def changeState_def sendEventRetry_def addActionToQueue_def
      dest!: checkResponse_frame split: sum.splits failure.splits prod.splits if_splits)

fun task_content :: "task \<Rightarrow> string" where
  "task_content (Task_sendPost c) = c"
| "task_content (Task_sendPost_retry c h) = c"

fun task_is_retry :: "task \<Rightarrow> bool" where
  "task_is_retry (Task_sendPost c) = False"
| "task_is_retry (Task_sendPost_retry c h) = True"

definition wire_contents :: "transport \<Rightarrow> string list" where
  "wire_contents t = map (\<lambda>(u, c, h). c) (wire t)"

lemma run_task_effect:
  assumes "run_task tk a t = (r, t')" "m_pHttpClient t \<noteq> None"
  shows "wire_contents t' = wire_contents t @ [task_content a]
    \<and> (m_tasks t' = m_tasks t \<or> \<not> task_is_retry a \<and> \<not> m_shouldStop t
        \<and> (\<exists>h. m_tasks t' = m_tasks t @ [Task_sendPost_retry (task_content a) h]))
    \<and> m_shouldStop t' = m_shouldStop t \<and> m_pHttpClient t' = m_pHttpClient t
    \<and> m_thread_joinable t' = m_thread_joinable t"
proof (cases a)
  case (Task_sendPost c)
  with assms have "sendPost_header tk c (createHeader (tick_now tk) t) False t = (r, t')"
    by (simp add: sendPost_def)
  from sendPost_header_effect [OF this assms(2)] Task_sendPost show ?thesis
    by (auto simp: wire_contents_def)
next
  case (Task_sendPost_retry c h)
  with assms have "sendPost_header tk c h True t = (r, t')" by simp
  from sendPost_header_effect [OF this assms(2)] Task_sendPost_retry show ?thesis
    by (auto simp: wire_contents_def)
qed

text \<open>One \<open>perform\<close>: nothing but the state, or the first task of the queue is taken and posted.\<close>

lemma perform_cases:
  assumes "perform tk t = (r, t')" "m_pHttpClient t \<noteq> None"
  obtains (idle) s where "r = Inr ()" "t' = t\<lparr>m_state := s\<rparr>"
      "m_state t = SEND_EVENTS \<longrightarrow> m_tasks t = []" "m_state t = DROP_EVENTS \<longrightarrow> s = DROP_EVENTS"
      "s = DROP_EVENTS \<longrightarrow> m_state t = DROP_EVENTS"
  | (post) a rest where "m_state t = SEND_EVENTS" "m_tasks t = a # rest"
      "run_task tk a (t\<lparr>m_tasks := rest\<rparr>) = (r, t')"
proof (cases "m_state t = SEND_EVENTS \<and> m_tasks t \<noteq> []")
  case True
  then obtain a rest where "m_tasks t = a # rest" by (cases "m_tasks t") auto
  with True assms(1) show ?thesis by (intro post) (auto simp: perform_def performSendEvents_def)
next
  case False
  show ?thesis
  proof (rule idle)
    show "r = Inr ()" "t' = t\<lparr>m_state := m_state t'\<rparr>"
      "m_state t = SEND_EVENTS \<longrightarrow> m_tasks t = []" "m_state t = DROP_EVENTS \<longrightarrow> m_state t' = DROP_EVENTS"
      "m_state t' = DROP_EVENTS \<longrightarrow> m_state t = DROP_EVENTS"
      using assms(1) False
      by (auto simp: perform_def performSendEvents_def performNoConnection_def changeState_def
          split: State.splits list.splits if_splits)
  qed
qed

section \<open>No event is posted more than twice\<close>

definition posts :: "string \<Rightarrow> transport \<Rightarrow> nat" where
  "posts c t = count_list (wire_contents t) c"

text \<open>How often the tasks in the queue can still post the content \<open>c\<close>.\<close>

fun task_posts :: "string \<Rightarrow> task \<Rightarrow> nat" where
  "task_posts c (Task_sendPost c') = (if c' = c then 2 else 0)"
| "task_posts c (Task_sendPost_retry c' h) = (if c' = c then 1 else 0)"

definition pending_posts :: "string \<Rightarrow> transport \<Rightarrow> nat" where
  "pending_posts c t = sum_list (map (task_posts c) (m_tasks t))"

fun sends :: "string \<Rightarrow> op list \<Rightarrow> nat" where
  "sends c [] = 0"
| "sends c (Op_sendEvent c' # ops) = (if c' = c then 1 else 0) + sends c ops"
| "sends c (Op_perform tk # ops) = sends c ops"

lemma run_task_potential:
  assumes "run_task tk a t = (r, t')"
  shows "posts c t' + pending_posts c t' \<le> posts c t + pending_posts c t + task_posts c a"
proof (cases "m_pHttpClient t = None")
  case True
  with assms show ?thesis by (cases a) (auto simp: sendPost_def sendPost_header_def)
next
  case False
  from run_task_effect [OF assms this] show ?thesis
    by (cases a) (auto simp: posts_def pending_posts_def)
qed

lemma perform_potential:
  assumes "perform tk t = (r, t')"
  shows "posts c t' + pending_posts c t' \<le> posts c t + pending_posts c t"
proof (cases "m_state t = SEND_EVENTS \<and> m_tasks t \<noteq> []")
  case True
  then obtain a rest where t: "m_state t = SEND_EVENTS" "m_tasks t = a # rest"
    by (cases "m_tasks t") auto
  with assms have "run_task tk a (t\<lparr>m_tasks := rest\<rparr>) = (r, t')"
    by (simp add: perform_def performSendEvents_def)
  from run_task_potential [OF this, of c] t show ?thesis
    by (simp add: posts_def pending_posts_def wire_contents_def)
next
  case False
  with assms show ?thesis
    by (auto simp: perform_def performSendEvents_def performNoConnection_def changeState_def
        posts_def pending_posts_def wire_contents_def split: State.splits list.splits)
qed

lemma run_ops_potential:
  "posts c (snd (run_ops ops t)) + pending_posts c (snd (run_ops ops t))
    \<le> posts c t + pending_posts c t + 2 * sends c ops"
proof (induction ops arbitrary: t)
  case (Cons o' ops)
  show ?case
  proof (cases o')
    case (Op_sendEvent c')
    then show ?thesis using Cons [of "sendEvent c' t"]
      by (auto simp: sendEvent_def addActionToQueue_def posts_def pending_posts_def wire_contents_def
          split: if_splits)
  next
    case (Op_perform tk)
    obtain r t' where p: "perform tk t = (r, t')" by (cases "perform tk t")
    from perform_potential [OF p, of c] Cons [of t'] show ?thesis
      by (cases r) (auto simp: Op_perform p)
  qed
qed simp

text \<open>Property C2: in any interleaving of \<open>sendEvent\<close> calls and iterations of the worker, with any
  replies of the network and any clock, a content is posted at most twice for each time it was sent
  (once, and once more as the retry), counting what the queue could post at the start.\<close>

theorem posts_at_most_twice:
  "posts c (snd (run_ops ops t)) \<le> posts c t + pending_posts c t + 2 * sends c ops"
  using run_ops_potential [of c ops t] by simp

section \<open>Order: events are posted first in, first out\<close>

text \<open>The contract the hub relies on: what is sent is queued behind what is already queued.\<close>

locale event_sink =
  fixes send :: "string \<Rightarrow> 's \<Rightarrow> 's"
    and queued :: "'s \<Rightarrow> string list"
    and accepting :: "'s \<Rightarrow> bool"
  assumes queued_send: "accepting s \<Longrightarrow> queued (send c s) = queued s @ [c]"
    and refused_send: "\<not> accepting s \<Longrightarrow> send c s = s"
    and accepting_send: "accepting (send c s) = accepting s"
begin

lemma queued_sends: "accepting s \<Longrightarrow> queued (fold send cs s) = queued s @ cs"
  by (induction cs arbitrary: s) (auto simp: queued_send accepting_send)

lemma refused_sends: "\<not> accepting s \<Longrightarrow> fold send cs s = s"
  by (induction cs arbitrary: s) (auto simp: refused_send)

end

definition queued_contents :: "transport \<Rightarrow> string list" where
  "queued_contents t = map task_content (m_tasks t)"

definition accepts_events :: "transport \<Rightarrow> bool" where
  "accepts_events t \<longleftrightarrow> \<not> m_shouldStop t"

interpretation sink: event_sink sendEvent queued_contents accepts_events
  by unfold_locales
    (auto simp: sendEvent_def addActionToQueue_def queued_contents_def accepts_events_def)

text \<open>A reply on which the worker does not queue the retry: anything but a response that is
  neither a success nor a 429.\<close>

definition rejected :: "tick \<Rightarrow> bool" where
  "rejected tk = (case tick_reply tk of
     Inl _ \<Rightarrow> False
   | Inr r \<Rightarrow> status_code (resp_status_code r) \<noteq> SC_success_ok
       \<and> status_code (resp_status_code r) \<noteq> SC_client_error_too_many_requests)"

fun sent_contents :: "op list \<Rightarrow> string list" where
  "sent_contents [] = []"
| "sent_contents (Op_sendEvent c # ops) = c # sent_contents ops"
| "sent_contents (Op_perform tk # ops) = sent_contents ops"

fun op_ok :: "op \<Rightarrow> bool" where
  "op_ok (Op_sendEvent c) = True"
| "op_ok (Op_perform tk) = (\<not> rejected tk)"

lemma sendPost_header_no_retry:
  assumes "sendPost_header tk c h retrying t = (r, t')" "\<not> rejected tk"
  shows "m_tasks t' = m_tasks t"
  using assms
  by (auto simp: sendPost_header_def Let_def changeState_def rejected_def checkResponse_def
      dest!: retryAfter_loop_frame split: sum.splits failure.splits prod.splits if_splits)

lemma perform_fifo:
  assumes "perform tk t = (r, t')" "m_pHttpClient t \<noteq> None" "\<not> rejected tk"
  shows "wire_contents t' @ queued_contents t' = wire_contents t @ queued_contents t
    \<and> m_pHttpClient t' = m_pHttpClient t \<and> m_shouldStop t' = m_shouldStop t"
  using assms(1,2)
proof (cases rule: perform_cases)
  case (idle s)
  then show ?thesis by (simp add: wire_contents_def queued_contents_def)
next
  case (post a rest)
  let ?t = "t\<lparr>m_tasks := rest\<rparr>"
  have "m_tasks t' = rest"
    using post(3) assms(2,3) sendPost_header_no_retry
    by (cases a) (fastforce simp: sendPost_def)+
  with run_task_effect [OF post(3)] assms(2) post(2) show ?thesis
    by (simp add: wire_contents_def queued_contents_def)
qed

text \<open>Property C1: as long as no reply makes the worker queue a retry, events go out in the order in
  which they were sent: what was posted followed by what is still queued is what was posted and
  queued at the start followed by the events sent since, none lost, none reordered.\<close>

theorem events_posted_in_order:
  assumes "m_pHttpClient t \<noteq> None" "\<not> m_shouldStop t" "\<forall>o'\<in>set ops. op_ok o'"
    and "run_ops ops t = (Inr (), t')"
  shows "wire_contents t' @ queued_contents t' = wire_contents t @ queued_contents t @ sent_contents ops"
  using assms
proof (induction ops arbitrary: t)
  case (Cons o' ops)
  show ?case
  proof (cases o')
    case (Op_sendEvent c)
    then have "run_ops ops (sendEvent c t) = (Inr (), t')" using Cons.prems(4) by simp
    moreover have "m_pHttpClient (sendEvent c t) \<noteq> None" "\<not> m_shouldStop (sendEvent c t)"
      "wire_contents (sendEvent c t) = wire_contents t"
      using Cons.prems by (simp_all add: sendEvent_def addActionToQueue_def wire_contents_def)
    ultimately show ?thesis using Cons Op_sendEvent sink.queued_send [of t c]
      by (simp add: accepts_events_def)
  next
    case (Op_perform tk)
    obtain r t1 where p: "perform tk t = (r, t1)" by (cases "perform tk t")
    then have "r = Inr ()" using Cons.prems(4) Op_perform by (cases r) auto
    with p Cons.prems(4) Op_perform have run: "run_ops ops t1 = (Inr (), t')" by simp
    have "\<not> rejected tk" using Cons.prems(3) Op_perform by simp
    from perform_fifo [OF p Cons.prems(1) this] have f:
      "wire_contents t1 @ queued_contents t1 = wire_contents t @ queued_contents t"
      "m_pHttpClient t1 \<noteq> None" "\<not> m_shouldStop t1" using Cons.prems(1,2) by simp_all
    from Cons.IH [OF f(2,3) _ run] Cons.prems(3) have
      "wire_contents t' @ queued_contents t' = wire_contents t1 @ queued_contents t1 @ sent_contents ops"
      by simp
    with f(1) show ?thesis by (metis Op_perform append.assoc sent_contents.simps(3))
  qed
qed simp

definition sample_client :: http_client where
  "sample_client = \<lparr>client_host = ''sentry.io'', client_port = 80, client_timeout = 1\<rparr>"

definition reply_at :: "int \<Rightarrow> string \<Rightarrow> header \<Rightarrow> tick" where
  "reply_at now status h = \<lparr>tick_now = now, tick_after = now,
     tick_reply = Inr \<lparr>resp_status_code = status, resp_header = h\<rparr>\<rparr>"

definition refused_at :: "int \<Rightarrow> tick" where
  "refused_at now = \<lparr>tick_now = now, tick_after = now, tick_reply = Inl (System_error ''refused'')\<rparr>"

definition ready_transport :: transport where
  "ready_transport = Transport_new\<lparr>m_thread_joinable := True, m_running := True,
     m_pHttpClient := Some sample_client, m_state := SEND_EVENTS\<rparr>"

lemma status_eval [simp]:
  "status_code ''200 OK'' = SC_success_ok"
  "status_code ''429 Too Many Requests'' = SC_client_error_too_many_requests"
  "(status_code s = SC_success_ok) = (s = ''200 OK'')"
  "(status_code s = SC_client_error_too_many_requests) = (s = ''429 Too Many Requests'')"
  by (simp_all add: status_code_success_iff status_code_too_many_iff)

lemmas transport_eval = transport_simps ready_transport_def Transport_new_def reply_at_def
  refused_at_def rejected_def wire_contents_def queued_contents_def

theorem events_posted_in_order_witness:
  "\<exists>t'. run_ops [Op_sendEvent ''a'', Op_sendEvent ''b'', Op_perform (reply_at 0 ''200 OK'' []),
       Op_sendEvent ''c''] ready_transport = (Inr (), t')
    \<and> wire_contents t' @ queued_contents t' = [''a'', ''b'', ''c'']"
  (is "\<exists>t'. run_ops ?ops _ = _ \<and> _")
proof -
  obtain t' where run: "run_ops ?ops ready_transport = (Inr (), t')"
    by (simp add: transport_eval)
  have "m_pHttpClient ready_transport \<noteq> None" "\<not> m_shouldStop ready_transport"
    "\<forall>o'\<in>set ?ops. op_ok o'" by (simp_all add: transport_eval)
  from events_posted_in_order [OF this run] run show ?thesis
    by (simp add: transport_eval)
qed

section \<open>Back-off after a connection error\<close>

lemma reconnect_iff:
  "reconnectTimeoutReached now t \<longleftrightarrow> m_lastConnectionRequestTime t + 10000000000 \<le> now"
  by (auto simp: reconnectTimeoutReached_def to_milliseconds_def Let_def
      RECONNECTION_TIMEOUT_MILLISECONDS_def split: if_splits)

fun op_before :: "int \<Rightarrow> op \<Rightarrow> bool" where
  "op_before limit (Op_sendEvent c) = True"
| "op_before limit (Op_perform tk) = (tick_now tk < limit)"

lemma run_ops_waiting:
  assumes "m_state t = NO_CONNECTION"
    and "list_all (op_before (m_lastConnectionRequestTime t + 10000000000)) ops"
  shows "run_ops ops t = (Inr (), fold sendEvent (sent_contents ops) t)"
  using assms
proof (induction ops arbitrary: t)
  case (Cons o' ops)
  show ?case
  proof (cases o')
    case (Op_sendEvent c)
    have "m_state (sendEvent c t) = m_state t"
      "m_lastConnectionRequestTime (sendEvent c t) = m_lastConnectionRequestTime t"
      by (simp_all add: sendEvent_def addActionToQueue_def)
    with Op_sendEvent Cons show ?thesis by simp
  next
    case (Op_perform tk)
    with Cons.prems have "perform tk t = (Inr (), t)"
      by (simp add: perform_def performNoConnection_def reconnect_iff)
    with Op_perform Cons show ?thesis by simp
  qed
qed simp

lemma wire_sends: "wire (fold sendEvent cs t) = wire t"
  by (induction cs arbitrary: t) (auto simp: sendEvent_def addActionToQueue_def)

text \<open>Property C34: after a connection error the worker posts nothing for ten seconds: in a run whose
  iterations all read a clock less than ten seconds after the time of the error, no request goes
  out, the state stays \<open>NO_CONNECTION\<close>, and the events sent meanwhile are only queued.\<close>

theorem no_posts_during_backoff:
  assumes "m_state t = NO_CONNECTION"
    and "list_all (op_before (m_lastConnectionRequestTime t + 10000000000)) ops"
  shows "run_ops ops t = (Inr (), fold sendEvent (sent_contents ops) t)
    \<and> wire (snd (run_ops ops t)) = wire t"
  using run_ops_waiting [OF assms] by (simp add: wire_sends)

theorem no_posts_during_backoff_witness:
  "wire (snd (run_ops [Op_sendEvent ''a'', Op_perform (reply_at 10999999999 ''200 OK'' [])]
     (ready_transport\<lparr>m_state := NO_CONNECTION, m_lastConnectionRequestTime := 1000000000\<rparr>))) = []"
  (is "wire (snd (run_ops ?ops ?t)) = []")
proof -
  have "m_state ?t = NO_CONNECTION"
    "list_all (op_before (m_lastConnectionRequestTime ?t + 10000000000)) ?ops"
    by (simp_all add: reply_at_def)
  from no_posts_during_backoff [OF this, THEN conjunct2] show ?thesis
    by (rule trans) (simp add: ready_transport_def Transport_new_def)
qed

text \<open>Property C35: an event whose request fails with a connection error is gone: the worker leaves it
  neither in the queue nor scheduled for a retry, and only the state and the time of the error
  remain, although the description of \<open>CONNECTION_ERROR\<close> says it will be stored and retried.\<close>

theorem connection_error_drops_event:
  assumes "m_state t = SEND_EVENTS" "m_tasks t = a # rest" "m_pHttpClient t \<noteq> None"
    and "tick_reply tk = Inl (System_error e)"
  shows "fst (perform tk t) = Inr () \<and> m_tasks (snd (perform tk t)) = rest
    \<and> m_state (snd (perform tk t)) = NO_CONNECTION
    \<and> m_lastConnectionRequestTime (snd (perform tk t)) = tick_after tk"
  using assms by (cases a) (auto simp: transport_simps)

theorem connection_error_drops_event_witness:
  "m_tasks (snd (perform (refused_at 7) (ready_transport\<lparr>m_tasks := [Task_sendPost ''a'', Task_sendPost ''b'']\<rparr>)))
    = [Task_sendPost ''b'']"
  using connection_error_drops_event
      [of "ready_transport\<lparr>m_tasks := [Task_sendPost ''a'', Task_sendPost ''b'']\<rparr>"
        "Task_sendPost ''a''" "[Task_sendPost ''b'']" "refused_at 7" "''refused''"]
  by (simp add: ready_transport_def Transport_new_def refused_at_def)

section \<open>Too many requests\<close>

lemma run_ops_dropping:
  "m_state t = DROP_EVENTS \<Longrightarrow> run_ops ops t = (Inr (), fold sendEvent (sent_contents ops) t)"
proof (induction ops arbitrary: t)
  case (Cons o' ops)
  then show ?case
    by (cases o') (auto simp: perform_def sendEvent_def addActionToQueue_def)
qed simp

lemma state_sends: "m_state (fold sendEvent cs t) = m_state t"
  by (induction cs arbitrary: t) (auto simp: sendEvent_def addActionToQueue_def)

text \<open>Property C18: \<open>DROP_EVENTS\<close> is a trap: whatever the clock shows and whatever is sent, the worker
  never leaves this state and never posts again; events sent are queued and stay in the queue.
  (\<open>perform\<close> has an empty case for the state and never calls \<open>performDropEvents\<close>.)\<close>

theorem drop_events_is_forever:
  assumes "m_state t = DROP_EVENTS" "\<not> m_shouldStop t"
  shows "m_state (snd (run_ops ops t)) = DROP_EVENTS \<and> wire (snd (run_ops ops t)) = wire t
    \<and> queued_contents (snd (run_ops ops t)) = queued_contents t @ sent_contents ops"
  using assms sink.queued_sends [of t "sent_contents ops"]
  by (simp add: run_ops_dropping state_sends wire_sends accepts_events_def)

theorem drop_events_is_forever_witness:
  "queued_contents (snd (run_ops
      [Op_sendEvent ''a'', Op_perform (reply_at 99999999999999 ''200 OK'' []), Op_sendEvent ''b'']
      (ready_transport\<lparr>m_state := DROP_EVENTS\<rparr>))) = [''a'', ''b'']"
  using drop_events_is_forever [of "ready_transport\<lparr>m_state := DROP_EVENTS\<rparr>"
      "[Op_sendEvent ''a'', Op_perform (reply_at 99999999999999 ''200 OK'' []), Op_sendEvent ''b'']"]
  by (simp add: ready_transport_def Transport_new_def queued_contents_def)

text \<open>Property C36: a 429 response whose only header field is \<open>Retry-After\<close> with a decimal number of
  seconds puts the transport into \<open>DROP_EVENTS\<close> with that many milliseconds (modulo \<open>2 ^ 64\<close>), counts
  as handled (no retry is queued), and without the field the default of ten seconds is stored.\<close>

theorem too_many_requests_stores_delay:
  assumes "resp_status_code r = ''429 Too Many Requests''" "n < 2 ^ 64"
  shows "checkResponse (r\<lparr>resp_header := [(''Retry-After'', show_nat n)]\<rparr>) t
      = (Inr True, t\<lparr>m_state := DROP_EVENTS, m_retryAfterMilliseconds := Some (of_nat (n * 1000))\<rparr>)
    \<and> checkResponse (r\<lparr>resp_header := []\<rparr>) t
      = (Inr True, t\<lparr>m_state := DROP_EVENTS, m_retryAfterMilliseconds := Some 10000\<rparr>)"
proof -
  have nul: "takeWhile (\<lambda>c. c \<noteq> CHR 0x00) (show_nat n) = show_nat n"
  proof (rule takeWhile_eq_all_conv [THEN iffD2], rule ballI)
    fix c
    assume "c \<in> set (show_nat n)"
    then obtain d where "d < 10" "c = digit_char d" using show_base_set [of 10 n] by auto
    moreover have "digit_value CHR 0x00 = None" by (simp add: digit_value_def)
    ultimately show "c \<noteq> CHR 0x00" using digit_char_neq [of d "CHR 0x00"] by simp
  qed
  have "stoul 10 (show_nat n @ []) = Inr (of_nat n)"
    using assms(2) by (intro stoul_show_nat) simp_all
  then show ?thesis
    using assms by (simp add: checkResponse_def handleTooManyRequests_def nul changeState_def
        MILLISECONDS_IN_SECOND_def RECONNECTION_TIMEOUT_MILLISECONDS_def)
qed

theorem too_many_requests_stores_delay_witness:
  "checkResponse \<lparr>resp_status_code = ''429 Too Many Requests'', resp_header = [(''Retry-After'', show_nat 60)]\<rparr>
      ready_transport
    = (Inr True, ready_transport\<lparr>m_state := DROP_EVENTS, m_retryAfterMilliseconds := Some 60000\<rparr>)"
  using too_many_requests_stores_delay
      [of "\<lparr>resp_status_code = ''429 Too Many Requests'', resp_header = []\<rparr>" 60 ready_transport]
  by simp

text \<open>What \<open>stoul\<close> accepts in base ten: behind white space and one sign there is a digit, whatever follows.\<close>

definition starts_with_number :: "string \<Rightarrow> bool" where
  "starts_with_number v =
     (let s = dropWhile is_space (takeWhile (\<lambda>c. c \<noteq> CHR 0x00) v);
          s = (if s \<noteq> [] \<and> (hd s = CHR ''-'' \<or> hd s = CHR ''+'') then tl s else s)
      in s \<noteq> [] \<and> is_digit (hd s))"

lemma stoul_needs_number:
  assumes "\<not> starts_with_number v"
  shows "stoul 10 (takeWhile (\<lambda>c. c \<noteq> CHR 0x00) v) = Inl (Invalid_argument ''stoul'')"
proof -
  have "take_digits 10 s = []" if "\<not> (s \<noteq> [] \<and> is_digit (hd s))" for s
    using that take_digits_10_Cons by (cases s) (auto simp del: take_digits.simps(2))
  with assms show ?thesis by (simp add: starts_with_number_def stoul_def stoul_prefix_def Let_def)
qed

lemma retryAfter_loop_fails:
  "(''Retry-After'', v) \<in> set h \<Longrightarrow> \<not> starts_with_number v \<Longrightarrow> \<exists>e retry'. retryAfter_loop h retry = (Inl e, retry')"
proof (induction h retry rule: retryAfter_loop.induct)
  case (2 name val h retry)
  then show ?case
    by (cases "name = ''Retry-After''"; cases "stoul 10 (takeWhile (\<lambda>c. c \<noteq> CHR 0x00) val)")
      (auto simp: stoul_needs_number)
qed simp

text \<open>Property C33: a 429 response to the event the worker posts in \<open>SEND_EVENTS\<close> that has, at any place among its fields, a \<open>Retry-After\<close> whose text does
  not begin with a number (behind white space and one sign), such as the HTTP date the protocol also
  allows, makes \<open>std::stoul\<close> throw out of the worker's thread function, which ends the process.
  (A text that begins with a number, such as 120s, is not meant here: \<open>std::stoul\<close> accepts it.)\<close>

theorem retry_after_date_terminates:
  assumes "m_state t = SEND_EVENTS" "m_tasks t = a # rest" "m_pHttpClient t \<noteq> None"
    and "tick_reply tk = Inr r" "resp_status_code r = ''429 Too Many Requests''"
    and "(''Retry-After'', v) \<in> set (resp_header r)" "\<not> starts_with_number v"
  shows "fst (run_ops (Op_perform tk # ops) t) = Inl (Terminate ''exception in the worker thread'')"
proof -
  obtain e retry where "retryAfter_loop (resp_header r) (of_nat RECONNECTION_TIMEOUT_MILLISECONDS) = (Inl e, retry)"
    using retryAfter_loop_fails [OF assms(6,7)] by blast
  with assms(1-5) show ?thesis by (cases a) (auto simp: transport_simps)
qed

theorem retry_after_date_terminates_witness:
  "fst (run_ops [Op_perform (reply_at 0 ''429 Too Many Requests''
          [(''Content-Length'', ''0''), (''Retry-After'', ''Wed, 21 Oct 2015 07:28:00 GMT'')])]
       (ready_transport\<lparr>m_tasks := [Task_sendPost ''a'']\<rparr>))
   = Inl (Terminate ''exception in the worker thread'')"
  by (rule retry_after_date_terminates [of _ "Task_sendPost ''a''" "[]" _
        "\<lparr>resp_status_code = ''429 Too Many Requests'', resp_header =
            [(''Content-Length'', ''0''), (''Retry-After'', ''Wed, 21 Oct 2015 07:28:00 GMT'')]\<rparr>"
        "''Wed, 21 Oct 2015 07:28:00 GMT''" "[]"])
    (simp_all add: ready_transport_def Transport_new_def reply_at_def starts_with_number_def is_digit_def is_space_def)

section \<open>Stopping the worker\<close>

lemma drain_unfold:
  "drain env i t = (if m_tasks t = [] then Some (Inr (), t\<lparr>m_running := False\<rparr>)
      else (case perform (env i) t of
              (Inl e, t') \<Rightarrow> Some (Inl e, t')
            | (Inr u, t') \<Rightarrow> drain env (Suc i) t'))"
  by (rule drain.simps)

lemma drain_dropping:
  assumes "m_state t = DROP_EVENTS" "m_tasks t \<noteq> []"
  shows "drain env i t = None"
proof (cases "drain env i t")
  case (Some r)
  have "m_state t = DROP_EVENTS \<longrightarrow> m_tasks t = []"
  proof (rule drain.raw_induct [where P = "\<lambda>env i t r. m_state t = DROP_EVENTS \<longrightarrow> m_tasks t = []", OF _ Some])
    fix f env i t r
    assume IH: "\<And>env i t r. f env i t = Some r \<Longrightarrow> m_state t = DROP_EVENTS \<longrightarrow> m_tasks t = []"
      and eq: "(if m_tasks t = [] then Some (Inr (), t\<lparr>m_running := False\<rparr>)
        else (case perform (env i) t of (Inl e, t') \<Rightarrow> Some (Inl e, t') | (Inr u, t') \<Rightarrow> f env (Suc i) t'))
        = Some r"
    show "m_state t = DROP_EVENTS \<longrightarrow> m_tasks t = []"
      using eq IH [of env "Suc i" t r] by (auto simp: perform_def split: if_splits)
  qed
  with assms show ?thesis by simp
qed simp

text \<open>Property C19: once a 429 response has put the transport into \<open>DROP_EVENTS\<close> and an event is still
  queued, \<open>Transport::stop\<close> never returns: the second loop of \<open>run\<close> spins on a queue nothing takes
  from, and the caller waits in \<open>join\<close>.\<close>

theorem stop_hangs_when_dropping:
  assumes "m_state t = DROP_EVENTS" "m_tasks t \<noteq> []" "m_thread_joinable t"
  shows "Transport_stop False env t = None"
  using assms drain_dropping [of "t\<lparr>m_shouldStop := True\<rparr>" env 0]
  by (simp add: Transport_stop_def Let_def)

theorem stop_hangs_when_dropping_witness:
  "Transport_stop False (\<lambda>i. reply_at (int i * 1000000000) ''200 OK'' [])
     (ready_transport\<lparr>m_state := DROP_EVENTS, m_tasks := [Task_sendPost ''a'']\<rparr>) = None"
  by (rule stop_hangs_when_dropping) (simp_all add: ready_transport_def Transport_new_def)

text \<open>Replies that neither drop events nor throw something other than a connection error.\<close>

definition harmless :: "tick \<Rightarrow> bool" where
  "harmless tk = (case tick_reply tk of
     Inl (System_error _) \<Rightarrow> True
   | Inl _ \<Rightarrow> False
   | Inr r \<Rightarrow> resp_status_code r \<noteq> ''429 Too Many Requests'')"

definition clock_advances :: "(nat \<Rightarrow> tick) \<Rightarrow> bool" where
  "clock_advances env \<longleftrightarrow> (\<forall>b. \<exists>n. \<forall>i\<ge>n. b \<le> tick_now (env i))"

definition stopping :: "transport \<Rightarrow> bool" where
  "stopping t \<longleftrightarrow> m_shouldStop t \<and> m_pHttpClient t \<noteq> None \<and> m_state t \<noteq> DROP_EVENTS"

lemma post_when_stopping:
  assumes "stopping t" "m_state t = SEND_EVENTS" "m_tasks t = a # rest" "harmless tk"
  obtains t' where "perform tk t = (Inr (), t')" "stopping t'" "m_tasks t' = rest"
    "wire_contents t' = wire_contents t @ [task_content a]" "m_thread_joinable t' = m_thread_joinable t"
proof -
  have run: "perform tk t = run_task tk a (t\<lparr>m_tasks := rest\<rparr>)"
    using assms by (simp add: perform_def performSendEvents_def)
  obtain r t' where p: "run_task tk a (t\<lparr>m_tasks := rest\<rparr>) = (r, t')" by (cases "run_task tk a (t\<lparr>m_tasks := rest\<rparr>)")
  have client: "m_pHttpClient (t\<lparr>m_tasks := rest\<rparr>) \<noteq> None" using assms(1) by (simp add: stopping_def)
  from run_task_effect [OF p client] assms(1) have eff:
    "wire_contents t' = wire_contents t @ [task_content a]" "m_tasks t' = rest" "m_shouldStop t'"
    "m_pHttpClient t' \<noteq> None" "m_thread_joinable t' = m_thread_joinable t"
    by (auto simp: stopping_def wire_contents_def)
  have "r = Inr () \<and> m_state t' \<noteq> DROP_EVENTS"
    using p assms by (cases a) (auto simp: transport_simps stopping_def harmless_def
        split: sum.splits failure.splits if_splits)
  with p run eff that show ?thesis by (auto simp: stopping_def)
qed

lemma wait_when_stopping:
  assumes "m_state t = NO_CONNECTION" "m_tasks t \<noteq> []"
    and "\<forall>i\<ge>n. m_lastConnectionRequestTime t + 10000000000 \<le> tick_now (env i)"
  shows "\<exists>j. drain env i t = drain env j (t\<lparr>m_state := SEND_EVENTS\<rparr>)"
proof (induction "n - i" arbitrary: i)
  case 0
  then have "perform (env i) t = (Inr (), t\<lparr>m_state := SEND_EVENTS\<rparr>)"
    using assms by (simp add: perform_def performNoConnection_def reconnect_iff changeState_def)
  with assms(2) show ?case by (subst drain_unfold) auto
next
  case (Suc d)
  show ?case
  proof (cases "reconnectTimeoutReached (tick_now (env i)) t")
    case True
    then have "perform (env i) t = (Inr (), t\<lparr>m_state := SEND_EVENTS\<rparr>)"
      using assms by (simp add: perform_def performNoConnection_def changeState_def)
    with assms(2) show ?thesis by (subst drain_unfold) auto
  next
    case False
    then have "perform (env i) t = (Inr (), t)"
      using assms by (simp add: perform_def performNoConnection_def)
    with assms(2) have "drain env i t = drain env (Suc i) t" by (subst drain_unfold) simp
    moreover have "d = n - Suc i" using Suc.hyps(2) by simp
    ultimately show ?thesis using Suc.hyps(1) by metis
  qed
qed

lemma drain_completes:
  assumes "\<forall>i. harmless (env i)" "clock_advances env" "stopping t"
  shows "\<exists>t'. drain env i t = Some (Inr (), t') \<and> m_tasks t' = [] \<and> \<not> m_running t'
    \<and> wire_contents t' = wire_contents t @ queued_contents t
    \<and> m_thread_joinable t' = m_thread_joinable t"
  using assms(3)
proof (induction "m_tasks t" arbitrary: t i)
  case Nil
  then show ?case by (subst drain_unfold) (simp add: wire_contents_def queued_contents_def)
next
  case (Cons a rest)
  let ?t = "t\<lparr>m_state := SEND_EVENTS\<rparr>"
  have "\<exists>j. drain env i t = drain env j ?t"
  proof (cases "m_state t = NO_CONNECTION")
    case True
    obtain n where "\<forall>i\<ge>n. m_lastConnectionRequestTime t + 10000000000 \<le> tick_now (env i)"
      using assms(2) unfolding clock_advances_def by blast
    moreover have "m_tasks t \<noteq> []" using Cons.hyps(2) by (metis list.distinct(1))
    ultimately show ?thesis using wait_when_stopping [OF True] by blast
  next
    case False
    with Cons.prems have "m_state t = SEND_EVENTS" by (cases "m_state t") (auto simp: stopping_def)
    then have "?t = t" by simp
    then show ?thesis by metis
  qed
  then obtain j where j: "drain env i t = drain env j ?t" ..
  have "stopping ?t" "m_state ?t = SEND_EVENTS" "m_tasks ?t = a # rest"
    using Cons.prems Cons.hyps(2) by (simp_all add: stopping_def)
  then obtain t1 where t1: "perform (env j) ?t = (Inr (), t1)" "stopping t1" "m_tasks t1 = rest"
    "wire_contents t1 = wire_contents ?t @ [task_content a]" "m_thread_joinable t1 = m_thread_joinable ?t"
    using post_when_stopping assms(1) by metis
  from t1(1) have "drain env j ?t = drain env (Suc j) t1"
    using \<open>m_tasks ?t = a # rest\<close> by (subst drain_unfold) simp
  with Cons.hyps(1) [OF t1(3) [symmetric] t1(2), of "Suc j"] j t1 Cons.hyps(2) show ?case
    by (simp add: queued_contents_def wire_contents_def flip: Cons.hyps(2))
qed

lemma stop_posts_all:
  assumes "\<forall>i. harmless (env i)" "clock_advances env"
    and "m_thread_joinable t" "m_pHttpClient t \<noteq> None" "m_state t \<noteq> DROP_EVENTS"
  shows "\<exists>t'. Transport_stop False env t = Some (Inr (), t') \<and> m_tasks t' = [] \<and> \<not> m_running t'
    \<and> \<not> m_thread_joinable t' \<and> wire_contents t' = wire_contents t @ queued_contents t"
proof -
  let ?t = "t\<lparr>m_shouldStop := True\<rparr>"
  have "stopping ?t" using assms by (simp add: stopping_def)
  from drain_completes [OF assms(1,2) this, of 0] obtain t' where
    "drain env 0 ?t = Some (Inr (), t')" "m_tasks t' = []" "\<not> m_running t'"
    "wire_contents t' = wire_contents ?t @ queued_contents ?t" by blast
  with assms(3) show ?thesis
    by (auto simp: Transport_stop_def Let_def wire_contents_def queued_contents_def)
qed

text \<open>Property C7: as long as the network never answers 429 (nor makes the client throw anything but
  a connection error) and the clock advances, \<open>Transport::stop\<close> returns: the worker ends with an
  empty queue, having posted every queued event exactly once and in order, and is joined.\<close>

theorem stop_flushes_queue:
  assumes "\<forall>i. harmless (env i)" "clock_advances env"
    and "m_thread_joinable t" "m_pHttpClient t \<noteq> None" "m_state t \<noteq> DROP_EVENTS"
  shows "\<exists>t'. Transport_stop False env t = Some (Inr (), t') \<and> m_tasks t' = [] \<and> \<not> m_running t'
    \<and> \<not> m_thread_joinable t' \<and> wire_contents t' = wire_contents t @ queued_contents t"
  using assms by (rule stop_posts_all)

theorem stop_flushes_queue_witness:
  "\<exists>t'. Transport_stop False
       (\<lambda>i. if even i then refused_at (int i * 1000000000) else reply_at (int i * 1000000000) ''200 OK'' [])
       (ready_transport\<lparr>m_tasks := [Task_sendPost ''a'', Task_sendPost ''b'']\<rparr>) = Some (Inr (), t')
    \<and> m_tasks t' = [] \<and> wire_contents t' = [''a'', ''b'']"
  (is "\<exists>t'. Transport_stop False ?env ?t = _ \<and> _")
proof -
  have "\<forall>i. harmless (?env i)" by (simp add: harmless_def refused_at_def reply_at_def)
  moreover have "clock_advances ?env"
    unfolding clock_advances_def
  proof
    fix b
    show "\<exists>n. \<forall>i\<ge>n. b \<le> tick_now (?env i)"
      by (rule exI [of _ "nat b"]) (auto simp: refused_at_def reply_at_def nat_le_iff)
  qed
  moreover have "m_thread_joinable ?t" "m_pHttpClient ?t \<noteq> None" "m_state ?t \<noteq> DROP_EVENTS"
    "wire_contents ?t = []" "queued_contents ?t = [''a'', ''b'']"
    by (simp_all add: ready_transport_def Transport_new_def wire_contents_def queued_contents_def)
  ultimately show ?thesis using stop_flushes_queue [of ?env ?t] by auto
qed

text \<open>Stopping twice, stopping from the worker itself, and destroying a transport that was
  started and not stopped are errors: the first two throw \<open>system_error\<close> from \<open>join\<close>, the last one
  terminates the process.\<close>

theorem stop_misuse:
  "Transport_stop w env (t\<lparr>m_thread_joinable := False\<rparr>)
      = Some (Inl (System_error ''Invalid argument''), t\<lparr>m_thread_joinable := False, m_shouldStop := True\<rparr>)
   \<and> Transport_stop True env (Transport_start t)
      = Some (Inl (System_error ''Resource deadlock avoided''), (Transport_start t)\<lparr>m_shouldStop := True\<rparr>)
   \<and> Transport_destroy (Transport_start t) = Inl (Terminate ''destruction of a joinable thread'')"
  by (simp add: Transport_stop_def Transport_destroy_def Transport_start_def Let_def)

end
