(* ===== verification/Time_Stamp.thy ===== *)
theory Time_Stamp
  imports Cxx_Strings
begin

text \<open>
  The private helpers of \<open>Hub\<close> in \<open>src/hub.cpp\<close> that make event ids and time stamps and compare time
  stamps: \<open>generateUuid\<close>, \<open>ISO8601_timestamp\<close>, \<open>timeFromISO6801String\<close> and \<open>isTimeDiffGreaterThan\<close>,
  with the functions of \<open>time.h\<close> they call (\<open>gmtime\<close>, \<open>strftime\<close> and \<open>strptime\<close> for the format
  \<open>%FT%TZ\<close>, \<open>mktime\<close>, \<open>difftime\<close>).  The clock's value is an argument, a number of seconds since
  1970-01-01; the random bytes of \<open>uuid_generate_random\<close> are an argument; the offset of the local
  time zone, which \<open>mktime\<close> subtracts, is a function \<open>zone\<close> of the broken-down time.
\<close>

section \<open>The calendar\<close>

record tm =
  tm_sec :: nat
  tm_min :: nat
  tm_hour :: nat
  tm_mday :: nat
  tm_mon :: nat
  tm_year :: int

definition leap_year :: "int \<Rightarrow> bool" where
  "leap_year y \<longleftrightarrow> y mod 4 = 0 \<and> (y mod 100 \<noteq> 0 \<or> y mod 400 = 0)"

definition year_days :: "int \<Rightarrow> nat" where
  "year_days y = (if leap_year y then 366 else 365)"

definition month_lengths :: "int \<Rightarrow> nat list" where
  "month_lengths y =
     [31, if leap_year y then 29 else 28, 31, 30, 31, 30, 31, 31, 30, 31, 30, 31]"

function year_loop :: "int \<Rightarrow> nat \<Rightarrow> int \<times> nat" where
  "year_loop y d = (if d < year_days y then (y, d) else year_loop (y + 1) (d - year_days y))"
  by pat_completeness auto
termination
  by (relation "measure snd") (auto simp: year_days_def)

declare year_loop.simps [simp del]

fun month_loop :: "nat \<Rightarrow> nat list \<Rightarrow> nat \<Rightarrow> nat \<times> nat" where
  "month_loop m [] d = (m, d)"
| "month_loop m (l # ls) d = (if d < l then (m, d) else month_loop (Suc m) ls (d - l))"

definition gmtime :: "nat \<Rightarrow> tm" where
  "gmtime t =
     (let (y, yd) = year_loop 1970 (t div 86400);
          (m, md) = month_loop 0 (month_lengths y) yd;
          s = t mod 86400
      in \<lparr>tm_sec = s mod 60, tm_min = s div 60 mod 60, tm_hour = s div 3600, tm_mday = md + 1,
          tm_mon = m, tm_year = y - 1900\<rparr>)"

definition days_before_year :: "int \<Rightarrow> int" where
  "days_before_year y =
     365 * (y - 1970) + (y - 1) div 4 - (y - 1) div 100 + (y - 1) div 400 - 477"

definition timegm :: "tm \<Rightarrow> int" where
  "timegm x =
     (let y = tm_year x + 1900;
          days = days_before_year y + int (sum_list (take (tm_mon x) (month_lengths y)))
                 + int (tm_mday x) - 1
      in ((days * 24 + int (tm_hour x)) * 60 + int (tm_min x)) * 60 + int (tm_sec x))"

definition mktime :: "(tm \<Rightarrow> int) \<Rightarrow> tm \<Rightarrow> int" where
  "mktime zone x = timegm x - zone x"

lemma div_pred:
  fixes y k :: int
  assumes "0 < k"
  shows "y div k = (y - 1) div k + (if y mod k = 0 then 1 else 0)"
proof (cases "y mod k = 0")
  case True
  then obtain q where q: "y = k * q" by (auto simp: mod_eq_0_iff_dvd dvd_def)
  then have "y - 1 = k * (q - 1) + (k - 1)" by (simp add: algebra_simps)
  then have "(y - 1) div k = q - 1" by (rule int_div_pos_eq) (use assms in simp_all)
  with True q assms show ?thesis by simp
next
  case False
  have "y - 1 = k * (y div k) + (y mod k - 1)" by simp
  moreover have "0 \<le> y mod k" "y mod k < k" using assms by simp_all
  with False have "0 \<le> y mod k - 1" "y mod k - 1 < k" by simp_all
  ultimately have "(y - 1) div k = y div k" by (intro int_div_pos_eq)
  with False show ?thesis by simp
qed

lemma days_before_year_step: "days_before_year (y + 1) = days_before_year y + int (year_days y)"
proof -
  have c: "y mod 400 = 0 \<longrightarrow> y mod 100 = 0" "y mod 100 = 0 \<longrightarrow> y mod 4 = 0"
    using dvd_trans [of 100 400 y] dvd_trans [of 4 100 y] by (simp_all add: mod_eq_0_iff_dvd)
  have leap: "365 + (if P then 1 else 0) - (if Q then 1 else 0) + (if R then 1 else 0)
      = int (if P \<and> (\<not> Q \<or> R) then 366 else 365)" if "R \<longrightarrow> Q" "Q \<longrightarrow> P" for P Q R
    using that by (cases P; cases Q; cases R; simp)
  have step: "365 * (y - 1970) + 365 + a - b + c - 477
      = 365 * (y - 1970) + a' - b' + c' - 477 + (365 + i - j + k)"
    if "a = a' + i" "b = b' + j" "c = c' + k" for a b c a' b' c' i j k :: int
    using that by simp
  have "days_before_year (y + 1)
      = 365 * (y - 1970) + 365 + y div 4 - y div 100 + y div 400 - 477"
    unfolding days_before_year_def add_diff_cancel_right' by (simp only: diff_conv_add_uminus distrib_left)
  also have "\<dots> = days_before_year y + (365 + (if y mod 4 = 0 then 1 else 0)
      - (if y mod 100 = 0 then 1 else 0) + (if y mod 400 = 0 then 1 else 0))"
    unfolding days_before_year_def by (rule step [OF div_pred div_pred div_pred]) simp_all
  also have "\<dots> = days_before_year y + int (year_days y)"
    unfolding year_days_def leap_year_def by (simp only: leap [OF c])
  finally show ?thesis .
qed

lemma year_loop_spec:
  assumes "year_loop y d = (y', d')"
  shows "days_before_year y' + int d' = days_before_year y + int d \<and> d' < year_days y' \<and> y \<le> y'"
  using assms
proof (induction y d rule: year_loop.induct)
  case (1 y d)
  show ?case
  proof (cases "d < year_days y")
    case True
    with "1.prems" show ?thesis by (simp add: year_loop.simps)
  next
    case False
    with "1.prems" have "year_loop (y + 1) (d - year_days y) = (y', d')"
      by (simp add: year_loop.simps [of y d])
    with 1 False show ?thesis by (auto simp: days_before_year_step of_nat_diff)
  qed
qed

lemma month_loop_spec:
  assumes "month_loop m ls d = (m', d')" "d < sum_list ls"
  shows "m \<le> m' \<and> m' < m + length ls \<and> sum_list (take (m' - m) ls) + d' = d \<and> d' < ls ! (m' - m)"
  using assms
proof (induction m ls d rule: month_loop.induct)
  case (2 m l ls d)
  show ?case
  proof (cases "d < l")
    case False
    with 2 have "Suc m \<le> m' \<and> m' < Suc m + length ls
      \<and> sum_list (take (m' - Suc m) ls) + d' = d - l \<and> d' < ls ! (m' - Suc m)" by simp
    with False show ?thesis by (auto simp: take_Cons' nth_Cons' Suc_diff_Suc)
  qed (use 2 in simp)
qed simp

lemma sum_month_lengths: "sum_list (month_lengths y) = year_days y"
  by (simp add: month_lengths_def year_days_def)

lemma month_length_bound: "m < 12 \<Longrightarrow> month_lengths y ! m \<le> 31"
proof -
  assume m: "m < 12"
  have "list_all (\<lambda>l. l \<le> 31) (month_lengths y)" by (simp add: month_lengths_def)
  moreover have "m < length (month_lengths y)" using m by (simp add: month_lengths_def)
  ultimately show ?thesis by (simp add: list_all_length)
qed

text \<open>The broken-down time is in range and denotes the time it was made from.\<close>

lemma gmtime_fields:
  "tm_sec (gmtime t) < 60" "tm_min (gmtime t) < 60" "tm_hour (gmtime t) < 24"
  "1 \<le> tm_mday (gmtime t)" "tm_mday (gmtime t) \<le> 31" "tm_mon (gmtime t) < 12"
  "70 \<le> tm_year (gmtime t)"
  "days_before_year (tm_year (gmtime t) + 1900) * 86400 \<le> int t"
  "timegm (gmtime t) = int t"
proof -
  obtain y yd where y: "year_loop 1970 (t div 86400) = (y, yd)" by fastforce
  obtain m md where m: "month_loop 0 (month_lengths y) yd = (m, md)" by fastforce
  from year_loop_spec [OF y] have yd: "days_before_year y + int yd = int (t div 86400)"
    "yd < year_days y" "1970 \<le> y" by (auto simp: days_before_year_def)
  have m': "m < 12" "sum_list (take m (month_lengths y)) + md = yd" "md < month_lengths y ! m"
    using month_loop_spec [OF m] yd(2) sum_month_lengths [of y]
    by (auto simp: month_lengths_def)
  have g: "gmtime t = \<lparr>tm_sec = t mod 86400 mod 60, tm_min = t mod 86400 div 60 mod 60,
     tm_hour = t mod 86400 div 3600, tm_mday = md + 1, tm_mon = m, tm_year = y - 1900\<rparr>"
    by (simp add: gmtime_def y m Let_def)
  show "tm_sec (gmtime t) < 60" "tm_min (gmtime t) < 60" "1 \<le> tm_mday (gmtime t)"
    "tm_mon (gmtime t) < 12" "70 \<le> tm_year (gmtime t)"
    using g yd m' by simp_all
  show "tm_hour (gmtime t) < 24"
    using g by (simp add: less_mult_imp_div_less)
  show "tm_mday (gmtime t) \<le> 31"
    using g m' month_length_bound [of m y] by simp
  have "int (t div 86400) * 86400 \<le> int t"
    by (simp flip: of_nat_mult of_nat_le_iff add: div_times_less_eq_dividend)
  then show "days_before_year (tm_year (gmtime t) + 1900) * 86400 \<le> int t"
    using g yd(1) by simp
  let ?s = "t mod 86400"
  have "(?s div 3600 * 60 + ?s div 60 mod 60) * 60 + ?s mod 60 = ?s"
    by (simp add: div_mult2_eq [of ?s 60 60, simplified] flip: mult.commute)
  then have s: "(int (?s div 3600) * 60 + int (?s div 60 mod 60)) * 60 + int (?s mod 60) = int ?s"
    by (metis (no_types) of_nat_add of_nat_mult of_nat_numeral)
  have "int (t div 86400 * 86400 + ?s) = int (t div 86400) * 86400 + int ?s"
    by (simp only: of_nat_add of_nat_mult of_nat_numeral)
  then have "int t = int (t div 86400) * 86400 + int ?s" by (simp only: div_mult_mod_eq)
  with s yd(1) m'(2) show "timegm (gmtime t) = int t"
    by (simp add: timegm_def g Let_def algebra_simps)
qed

section \<open>Time stamps\<close>

definition two_digits :: "nat \<Rightarrow> string" where
  "two_digits n = pad_left 2 CHR ''0'' (show_nat n)"

text \<open>\<open>strftime\<close> for the format \<open>%FT%TZ\<close>, that is \<open>%Y-%m-%dT%H:%M:%SZ\<close>.\<close>

definition strftime_FTTZ :: "tm \<Rightarrow> string" where
  "strftime_FTTZ x =
     show_nat (nat (tm_year x + 1900)) @ ''-'' @ two_digits (tm_mon x + 1) @ ''-''
     @ two_digits (tm_mday x) @ ''T'' @ two_digits (tm_hour x) @ '':'' @ two_digits (tm_min x)
     @ '':'' @ two_digits (tm_sec x) @ ''Z''"

text \<open>
  The buffer has \<open>sizeof("2011-10-08T07:07:09Z")\<close> = 21 bytes, the terminating NUL included.  When the
  text does not fit, \<open>strftime\<close> returns 0 and leaves the buffer indeterminate.
\<close>

definition ISO8601_timestamp :: "nat \<Rightarrow> string res" where
  "ISO8601_timestamp now =
     (let s = strftime_FTTZ (gmtime now)
      in if length s + 1 \<le> 21 then Inr s else Inl (Undefined_behaviour ''read of an indeterminate buffer''))"

text \<open>The number parser of \<open>strptime\<close>: at most \<open>n\<close> digits, none after the value passes \<open>hi div 10\<close>.\<close>

fun number_loop :: "nat \<Rightarrow> nat \<Rightarrow> nat \<Rightarrow> string \<Rightarrow> nat \<times> string" where
  "number_loop 0 hi v s = (v, s)"
| "number_loop (Suc n) hi v [] = (v, [])"
| "number_loop (Suc n) hi v (c # cs) =
     (if v * 10 \<le> hi \<and> is_digit c then number_loop n hi (v * 10 + the (digit_value c)) cs else (v, c # cs))"

definition get_number :: "nat \<Rightarrow> nat \<Rightarrow> nat \<Rightarrow> string \<Rightarrow> (nat \<times> string) option" where
  "get_number lo hi n s =
     (case dropWhile (\<lambda>c. c = CHR '' '') s of
        [] \<Rightarrow> None
      | c # cs \<Rightarrow>
          if is_digit c
          then (let (v, rest) = number_loop (n - 1) hi (the (digit_value c)) cs
                in if lo \<le> v \<and> v \<le> hi then Some (v, rest) else None)
          else None)"

fun match_char :: "char \<Rightarrow> string \<Rightarrow> string option" where
  "match_char c [] = None"
| "match_char c (x # xs) = (if x = c then Some xs else None)"

text \<open>\<open>strptime\<close> for the same format; \<open>None\<close> when the text does not match.\<close>

definition strptime_FTTZ :: "string \<Rightarrow> tm option" where
  "strptime_FTTZ s =
     Option.bind (get_number 0 9999 4 s) (\<lambda>(y, s).
     Option.bind (match_char CHR ''-'' s) (\<lambda>s.
     Option.bind (get_number 1 12 2 s) (\<lambda>(m, s).
     Option.bind (match_char CHR ''-'' s) (\<lambda>s.
     Option.bind (get_number 1 31 2 s) (\<lambda>(d, s).
     Option.bind (match_char CHR ''T'' s) (\<lambda>s.
     Option.bind (get_number 0 23 2 s) (\<lambda>(hh, s).
     Option.bind (match_char CHR '':'' s) (\<lambda>s.
     Option.bind (get_number 0 59 2 s) (\<lambda>(mm, s).
     Option.bind (match_char CHR '':'' s) (\<lambda>s.
     Option.bind (get_number 0 61 2 s) (\<lambda>(ss, s).
     Option.bind (match_char CHR ''Z'' s) (\<lambda>s.
     Some \<lparr>tm_sec = ss, tm_min = mm, tm_hour = hh, tm_mday = d, tm_mon = m - 1,
           tm_year = int y - 1900\<rparr>))))))))))))"

text \<open>
  The result of \<open>strptime\<close> is ignored: when the text does not match, the structure keeps
  indeterminate members, which \<open>mktime\<close> then reads.
\<close>

definition timeFromISO6801String :: "string \<Rightarrow> tm option" where
  "timeFromISO6801String timestamp = strptime_FTTZ (takeWhile (\<lambda>c. c \<noteq> CHR 0x00) timestamp)"

definition isTimeDiffGreaterThan :: "(tm \<Rightarrow> int) \<Rightarrow> string \<Rightarrow> string \<Rightarrow> int \<Rightarrow> bool res" where
  "isTimeDiffGreaterThan zone timestamp1 timestamp2 diffInSeconds =
     (case (timeFromISO6801String timestamp1, timeFromISO6801String timestamp2) of
        (Some timeS1, Some timeS2) \<Rightarrow>
          (let time1 = mktime zone timeS1; time2 = mktime zone timeS2; diff = time2 - time1
           in Inr (diffInSeconds < diff))
      | _ \<Rightarrow> Inl (Undefined_behaviour ''read of an uninitialised struct tm''))"

section \<open>Event ids\<close>

text \<open>The sixteen bytes of \<open>uuid_generate_random\<close> in hexadecimal, two digits each.\<close>

definition generateUuid :: "u8 list \<Rightarrow> string" where
  "generateUuid new_uuid = concat (map (\<lambda>b. pad_left 2 CHR ''0'' (show_hex (unat b))) new_uuid)"

section \<open>Reading time stamps back\<close>

lemma two_digits_eq:
  assumes "n < 100"
  shows "two_digits n = [digit_char (n div 10), digit_char (n mod 10)]"
proof (cases "n < 10")
  case True
  then show ?thesis by (simp add: two_digits_def pad_left_def show_base_small)
next
  case False
  with assms have "n div 10 < 10" by simp
  with False show ?thesis
    by (simp add: two_digits_def pad_left_def show_base_step show_base_small)
qed

lemma four_digits_eq:
  assumes "1000 \<le> n" "n < 10000"
  shows "show_nat n = [digit_char (n div 1000), digit_char (n div 100 mod 10),
    digit_char (n div 10 mod 10), digit_char (n mod 10)]"
proof -
  have "10 \<le> n div 10" "10 \<le> n div 10 div 10" "n div 10 div 10 div 10 < 10"
    using assms by simp_all
  moreover have "n div 10 div 10 = n div 100" "n div 10 div 10 div 10 = n div 1000"
    by (simp_all flip: div_mult2_eq)
  ultimately show ?thesis
    using assms by (simp add: show_base_step [of 10 n] show_base_step [of 10 "n div 10"]
        show_base_step [of 10 "n div 100"] show_base_small)
qed

lemma digit_char_not_blank: "d < 10 \<Longrightarrow> digit_char d \<noteq> CHR '' ''"
  by (rule digit_char_neq) (simp_all add: digit_value_def)

lemma get_number_two:
  assumes "lo \<le> n" "n \<le> hi" "hi < 100"
  shows "get_number lo hi 2 (two_digits n @ rest) = Some (n, rest)"
proof -
  have d: "n div 10 < 10" "n mod 10 < 10" using assms by simp_all
  have "n div 10 * 10 \<le> hi" using assms(2) div_times_less_eq_dividend [of n 10] by linarith
  with assms d show ?thesis
    by (simp add: two_digits_eq get_number_def digit_char_not_blank is_digit_digit_char numeral_2_eq_2)
qed

lemma get_number_year:
  assumes "1000 \<le> n" "n < 10000"
  shows "get_number 0 9999 4 (show_nat n @ rest) = Some (n, rest)"
proof -
  let ?a = "n div 1000" and ?b = "n div 100 mod 10" and ?c = "n div 10 mod 10" and ?d = "n mod 10"
  have d: "?a < 10" "?b < 10" "?c < 10" "?d < 10" using assms by simp_all
  have q: "n div 10 = n div 100 * 10 + ?c" "n div 100 = ?a * 10 + ?b"
    using div_mult_mod_eq [of "n div 10" 10] div_mult_mod_eq [of "n div 100" 10]
    by (simp_all flip: div_mult2_eq)
  then have n: "((?a * 10 + ?b) * 10 + ?c) * 10 + ?d = n"
    using div_mult_mod_eq [of n 10] by simp
  have e: "digit_char ?a \<noteq> CHR '' ''" "is_digit (digit_char ?a)" "is_digit (digit_char ?b)"
    "is_digit (digit_char ?c)" "is_digit (digit_char ?d)"
    "the (digit_value (digit_char ?a)) = ?a" "the (digit_value (digit_char ?b)) = ?b"
    "the (digit_value (digit_char ?c)) = ?c" "the (digit_value (digit_char ?d)) = ?d"
    using d by (simp_all add: digit_char_not_blank is_digit_digit_char)
  have small: "a * 10 \<le> 9999 \<and> (a * 10 + b) * 10 \<le> 9999 \<and> ((a * 10 + b) * 10 + c) * 10 \<le> 9999"
    if "a < 10" "b < 10" "c < 10" for a b c :: nat
    using that by simp
  have h: "?a * 10 \<le> 9999" "(?a * 10 + ?b) * 10 \<le> 9999" "((?a * 10 + ?b) * 10 + ?c) * 10 \<le> 9999"
    using small [OF d(1-3)] by blast+
  have three: "(4 - 1 :: nat) = Suc (Suc (Suc 0))" by simp
  have "number_loop (4 - 1) 9999 ?a (digit_char ?b # digit_char ?c # digit_char ?d # rest) = (n, rest)"
    unfolding three number_loop.simps by (simp only: e h if_True simp_thms number_loop.simps n)
  with e(1,2,6) assms(2) show ?thesis
    unfolding four_digits_eq [OF assms] get_number_def append_Cons append_Nil dropWhile.simps
    by simp
qed

lemma strptime_strftime:
  assumes "- 900 \<le> tm_year x" "tm_year x < 8100" "tm_mon x < 12" "1 \<le> tm_mday x" "tm_mday x \<le> 31"
    "tm_hour x < 24" "tm_min x < 60" "tm_sec x < 60"
  shows "strptime_FTTZ (strftime_FTTZ x) = Some x"
proof -
  have "1000 \<le> nat (tm_year x + 1900)" "nat (tm_year x + 1900) < 10000" using assms by simp_all
  note year = get_number_year [OF this]
  show ?thesis
    using assms by (simp add: strptime_FTTZ_def strftime_FTTZ_def year get_number_two)
qed

lemma strftime_length:
  assumes "1000 \<le> nat (tm_year x + 1900)" "nat (tm_year x + 1900) < 10000" "tm_mon x < 12"
    "tm_mday x \<le> 31" "tm_hour x < 24" "tm_min x < 60" "tm_sec x < 60"
  shows "length (strftime_FTTZ x) = 20"
  using assms by (simp add: strftime_FTTZ_def two_digits_eq four_digits_eq)

lemma strftime_no_nul:
  "takeWhile (\<lambda>c. c \<noteq> CHR 0x00) (strftime_FTTZ x) = strftime_FTTZ x"
proof -
  have "c \<noteq> CHR 0x00" if "c \<in> set (show_nat n)" for c n
  proof -
    from that obtain d where "d < 10" "c = digit_char d" using show_base_set [of 10 n] by auto
    moreover have "digit_value CHR 0x00 = None" by (simp add: digit_value_def)
    ultimately show ?thesis using digit_char_neq [of d "CHR 0x00"] by simp
  qed
  then have "c \<noteq> CHR 0x00" if "c \<in> set (strftime_FTTZ x)" for c
    using that unfolding strftime_FTTZ_def two_digits_def pad_left_def by auto
  then show ?thesis by (simp add: takeWhile_eq_all_conv)
qed

lemma show_nat_ascii: "c \<in> set (show_nat n) \<Longrightarrow> of_char c < (128::nat)"
  using show_base_set [of 10 n] by (auto simp: of_char_digit_char)

lemma strftime_ascii: "c \<in> set (strftime_FTTZ x) \<Longrightarrow> of_char c < (128::nat)"
  unfolding strftime_FTTZ_def two_digits_def pad_left_def by (auto dest: show_nat_ascii)

text \<open>The years 1970 to 9999, the last one ending at second 253402300800.\<close>

lemma gmtime_year_bound:
  assumes "t < 253402300800"
  shows "tm_year (gmtime t) < 8100"
proof (rule ccontr)
  assume "\<not> ?thesis"
  then have y: "10000 \<le> tm_year (gmtime t) + 1900" by simp
  have mono: "days_before_year y \<le> days_before_year (y + int n)" for y n
    by (induction n) (use days_before_year_step [of "y + int n" for n] in \<open>auto simp: algebra_simps\<close>)
  have "days_before_year 10000 \<le> days_before_year (tm_year (gmtime t) + 1900)"
    using mono [of 10000 "nat (tm_year (gmtime t) + 1900 - 10000)"] y by (simp add: add.commute)
  moreover have "days_before_year 10000 = 2932897" by (simp add: days_before_year_def)
  ultimately have "2932897 * 86400 \<le> int t" using gmtime_fields(8) [of t] by linarith
  with assms show False by simp
qed

lemma timestamp_ok:
  assumes "t < 253402300800"
  shows "ISO8601_timestamp t = Inr (strftime_FTTZ (gmtime t))"
    and "timeFromISO6801String (strftime_FTTZ (gmtime t)) = Some (gmtime t)"
    and "length (strftime_FTTZ (gmtime t)) = 20"
proof -
  note f = gmtime_fields [of t] gmtime_year_bound [OF assms]
  then show l: "length (strftime_FTTZ (gmtime t)) = 20" by (intro strftime_length) simp_all
  then show "ISO8601_timestamp t = Inr (strftime_FTTZ (gmtime t))"
    by (simp add: ISO8601_timestamp_def Let_def)
  show "timeFromISO6801String (strftime_FTTZ (gmtime t)) = Some (gmtime t)"
    unfolding timeFromISO6801String_def strftime_no_nul
    by (rule strptime_strftime) (use f in simp_all)
qed

text \<open>Property C40: until the end of the year 9999 the time stamp of an event is a text of exactly 20
  characters, which fills the buffer, and reading it back and converting it to a time (in UTC) gives
  the clock's value.\<close>

theorem timestamp_roundtrip:
  assumes "t < 253402300800"
  shows "\<exists>s. ISO8601_timestamp t = Inr s \<and> length s = 20
    \<and> map_option timegm (timeFromISO6801String s) = Some (int t)"
  using timestamp_ok [OF assms] gmtime_fields(9) [of t] by auto

theorem timestamp_roundtrip_witness:
  "\<exists>s. ISO8601_timestamp 1570000000 = Inr s \<and> length s = 20
    \<and> map_option timegm (timeFromISO6801String s) = Some 1570000000"
  using timestamp_roundtrip [of 1570000000] by simp

text \<open>\<open>isTimeDiffGreaterThan\<close> on the time stamps of two clock values compares their
  difference, corrected by the change of the local zone's offset between them (\<open>mktime\<close> takes the UTC
  fields for local time), strictly with the interval.\<close>

theorem isTimeDiffGreaterThan_iff:
  assumes "t1 < 253402300800" "t2 < 253402300800"
    and "ISO8601_timestamp t1 = Inr s1" "ISO8601_timestamp t2 = Inr s2"
  shows "isTimeDiffGreaterThan zone s1 s2 d
    = Inr (d < int t2 - int t1 - (zone (gmtime t2) - zone (gmtime t1)))"
  using timestamp_ok [OF assms(1)] timestamp_ok [OF assms(2)] assms(3,4) gmtime_fields(9) [of t1]
    gmtime_fields(9) [of t2]
  by (simp add: isTimeDiffGreaterThan_def mktime_def Let_def algebra_simps)

theorem isTimeDiffGreaterThan_iff_witness:
  "\<exists>s1 s2. ISO8601_timestamp 1570000000 = Inr s1 \<and> ISO8601_timestamp 1570003601 = Inr s2
    \<and> isTimeDiffGreaterThan (\<lambda>_. 7200) s1 s2 3600 = Inr True
    \<and> isTimeDiffGreaterThan (\<lambda>_. 7200) s1 s2 3601 = Inr False"
  using timestamp_ok(1) [of 1570000000] timestamp_ok(1) [of 1570003601]
    isTimeDiffGreaterThan_iff [of 1570000000 1570003601 _ _ "\<lambda>_. 7200"]
  by simp

lemma byte_digits:
  fixes b :: u8
  shows "pad_left 2 CHR ''0'' (show_hex (unat b)) = [digit_char (unat b div 16), digit_char (unat b mod 16)]"
    and "unat b div 16 < 16"
proof -
  have "unat b < 256" using unsigned_less [where w = b and 'a = nat] by simp
  then show "unat b div 16 < 16" by simp
  then show "pad_left 2 CHR ''0'' (show_hex (unat b))
      = [digit_char (unat b div 16), digit_char (unat b mod 16)]"
    by (cases "unat b < 16") (simp_all add: pad_left_def show_base_step show_base_small)
qed

lemma byte_digits_inj:
  fixes b c :: u8
  assumes "digit_char (unat b div 16) = digit_char (unat c div 16)"
    and "digit_char (unat b mod 16) = digit_char (unat c mod 16)"
  shows "b = c"
proof -
  have "unat b div 16 = unat c div 16"
    by (rule digit_char_inj [OF _ _ assms(1)]) (use byte_digits(2) [of b] byte_digits(2) [of c] in simp_all)
  moreover have "unat b mod 16 = unat c mod 16"
    by (rule digit_char_inj [OF _ _ assms(2)]) (simp_all add: less_imp_le order_less_le_trans [OF mod_less_divisor])
  ultimately have "unat b = unat c" by (metis div_mult_mod_eq)
  then show ?thesis by (simp add: word_unat_eq_iff)
qed

lemma hex_digit_in: "d < 16 \<Longrightarrow> digit_char d \<in> set ''0123456789abcdef''"
proof -
  assume "d < 16"
  then have "d \<in> set [0..<16]" by simp
  then have "digit_char d \<in> set (map digit_char [0..<16])" by simp
  also have "map digit_char [0..<16] = ''0123456789abcdef''" by code_simp
  finally show ?thesis .
qed

lemma generateUuid_chars:
  assumes "c \<in> set (generateUuid bs)"
  shows "c \<in> set ''0123456789abcdef''"
proof -
  from assms obtain b :: u8 where "c \<in> {digit_char (unat b div 16), digit_char (unat b mod 16)}"
    unfolding generateUuid_def byte_digits by auto
  moreover have "unat b mod 16 < 16" by simp
  ultimately obtain d where "d < 16" "c = digit_char d"
    using byte_digits(2) [of b] by blast
  then show ?thesis using hex_digit_in by blast
qed

lemma generateUuid_ascii: "c \<in> set (generateUuid bs) \<Longrightarrow> of_char c < (128::nat)"
  by (auto dest!: generateUuid_chars)

text \<open>An event id has two lower-case hexadecimal digits for every random byte, so the 16
  bytes of a UUID give exactly 32 characters without dashes, and different bytes give different ids.\<close>

theorem generateUuid_format:
  "length (generateUuid bs) = 2 * length bs
   \<and> set (generateUuid bs) \<subseteq> set ''0123456789abcdef''
   \<and> (generateUuid bs = generateUuid cs \<longleftrightarrow> bs = cs)"
proof (intro conjI)
  show "length (generateUuid bs) = 2 * length bs"
    by (induction bs) (simp_all add: generateUuid_def byte_digits)
  show "set (generateUuid bs) \<subseteq> set ''0123456789abcdef''"
    using generateUuid_chars by blast
  show "generateUuid bs = generateUuid cs \<longleftrightarrow> bs = cs"
  proof (induction bs arbitrary: cs)
    case Nil
    then show ?case by (cases cs) (simp_all add: generateUuid_def byte_digits)
  next
    case (Cons b bs)
    then show ?case
      by (cases cs) (auto simp: generateUuid_def byte_digits dest: byte_digits_inj)
  qed
qed

end
