(* ===== verification/Utf8.thy ===== *)
theory Utf8
  imports Cxx_Strings
begin

unbundle bit_operations_syntax

text \<open>
  \<open>serializer::decode\<close> of \<open>externals/json-3.1.2/json.h\<close>, the table-driven UTF-8 decoder that \<open>dump\<close>
  runs over every string, and the proof that it accepts exactly the byte sequences of RFC 3629.  The
  first 256 entries of the table give the class of a byte, the other 144 the transitions of the nine
  states (0 accept, 1 reject), 16 entries a state.
\<close>

section \<open>The decoder\<close>

definition utf8d_classes :: "nat list" where
  "utf8d_classes =
     replicate 128 0 @ replicate 16 1 @ replicate 16 9 @ replicate 32 7
     @ [8, 8] @ replicate 30 2
     @ [0xA] @ replicate 12 0x3 @ [0x4, 0x3, 0x3]
     @ [0xB, 0x6, 0x6, 0x6, 0x5] @ replicate 11 0x8"

definition utf8d_transitions :: "nat list" where
  "utf8d_transitions =
    [0x0, 0x1, 0x2, 0x3, 0x5, 0x8, 0x7, 0x1, 0x1, 0x1, 0x4, 0x6, 0x1, 0x1, 0x1, 0x1,
     1, 1, 1, 1, 1, 1, 1, 1, 1, 1, 1, 1, 1, 1, 1, 1, 1, 0, 1, 1, 1, 1, 1, 0, 1, 0, 1, 1, 1, 1, 1, 1,
     1, 2, 1, 1, 1, 1, 1, 2, 1, 2, 1, 1, 1, 1, 1, 1, 1, 1, 1, 1, 1, 1, 1, 2, 1, 1, 1, 1, 1, 1, 1, 1,
     1, 2, 1, 1, 1, 1, 1, 1, 1, 2, 1, 1, 1, 1, 1, 1, 1, 1, 1, 1, 1, 1, 1, 3, 1, 3, 1, 1, 1, 1, 1, 1,
     1, 3, 1, 1, 1, 1, 1, 3, 1, 3, 1, 1, 1, 1, 1, 1, 1, 3, 1, 1, 1, 1, 1, 1, 1, 1, 1, 1, 1, 1, 1, 1]"

definition utf8d :: "nat list" where
  "utf8d = utf8d_classes @ utf8d_transitions"

definition UTF8_ACCEPT :: nat where
  "UTF8_ACCEPT = 0"

definition UTF8_REJECT :: nat where
  "UTF8_REJECT = 1"

definition utf8_decode :: "nat \<Rightarrow> u32 \<Rightarrow> nat \<Rightarrow> nat \<times> u32" where
  "utf8_decode state codep byte =
     (let type = utf8d ! byte
      in (utf8d ! (256 + state * 16 + type),
          if state \<noteq> UTF8_ACCEPT
          then (of_nat byte AND 0x3F) OR push_bit 6 codep
          else drop_bit type 0xFF AND of_nat byte))"

section \<open>UTF-8 as RFC 3629 defines it\<close>

text \<open>The ranges of the bytes that must follow a first byte; \<open>None\<close> when it cannot be a first byte.\<close>

definition utf8_tail :: "nat \<times> nat" where
  "utf8_tail = (0x80, 0xBF)"

definition utf8_follow :: "nat \<Rightarrow> (nat \<times> nat) list option" where
  "utf8_follow a =
     (if a < 0x80 then Some []
      else if a < 0xC2 then None
      else if a \<le> 0xDF then Some [utf8_tail]
      else if a = 0xE0 then Some [(0xA0, 0xBF), utf8_tail]
      else if a = 0xED then Some [(0x80, 0x9F), utf8_tail]
      else if a \<le> 0xEF then Some [utf8_tail, utf8_tail]
      else if a = 0xF0 then Some [(0x90, 0xBF), utf8_tail, utf8_tail]
      else if a \<le> 0xF3 then Some [utf8_tail, utf8_tail, utf8_tail]
      else if a = 0xF4 then Some [(0x80, 0x8F), utf8_tail, utf8_tail]
      else None)"

fun utf8_run :: "(nat \<times> nat) list \<Rightarrow> nat list \<Rightarrow> bool" where
  "utf8_run rs [] = (rs = [])"
| "utf8_run [] (a # s) = (case utf8_follow a of None \<Rightarrow> False | Some rs \<Rightarrow> utf8_run rs s)"
| "utf8_run ((lo, hi) # rs) (a # s) = (lo \<le> a \<and> a \<le> hi \<and> utf8_run rs s)"

definition byte :: "char \<Rightarrow> nat" where
  "byte c = of_char c"

lemma byte_less: "byte c < 256"
  by (simp add: byte_def)

definition utf8_valid :: "string \<Rightarrow> bool" where
  "utf8_valid s = utf8_run [] (map byte s)"

lemma utf8_valid_ascii: "(\<And>c. c \<in> set s \<Longrightarrow> byte c < 0x80) \<Longrightarrow> utf8_valid s"
  unfolding utf8_valid_def by (induction s) (simp_all add: utf8_follow_def)

section \<open>The table against the definition\<close>

definition class_of :: "nat \<Rightarrow> nat" where
  "class_of a = utf8d_classes ! a"

definition next_state :: "nat \<Rightarrow> nat \<Rightarrow> nat" where
  "next_state s t = utf8d_transitions ! (s * 16 + t)"

text \<open>The bytes a state still expects.\<close>

definition expects :: "nat \<Rightarrow> (nat \<times> nat) list" where
  "expects s =
     (if s = 2 then [utf8_tail]
      else if s = 3 then [utf8_tail, utf8_tail]
      else if s = 4 then [(0xA0, 0xBF), utf8_tail]
      else if s = 5 then [(0x80, 0x9F), utf8_tail]
      else if s = 6 then [(0x90, 0xBF), utf8_tail, utf8_tail]
      else if s = 7 then [utf8_tail, utf8_tail, utf8_tail]
      else if s = 8 then [(0x80, 0x8F), utf8_tail, utf8_tail]
      else [])"

definition live :: "nat \<Rightarrow> bool" where
  "live s \<longleftrightarrow> s \<in> {0, 2, 3, 4, 5, 6, 7, 8}"

lemma length_classes: "length utf8d_classes = 256"
  by (simp add: utf8d_classes_def)

lemma fst_utf8_decode:
  assumes "a < 256"
  shows "fst (utf8_decode s cp a) = next_state s (class_of a)"
proof -
  have c: "utf8d ! a = class_of a"
    using assms by (simp add: utf8d_def class_of_def nth_append length_classes)
  have "utf8d ! (256 + n) = utf8d_transitions ! n" for n
    using nth_append_length_plus [of utf8d_classes utf8d_transitions n]
    by (simp add: utf8d_def length_classes)
  with c show ?thesis
    by (simp add: utf8_decode_def next_state_def Let_def add.assoc)
qed

lemma nth_run: "(replicate n x @ xs) ! i = (if i < n then x else xs ! (i - n))"
  by (simp add: nth_append)

lemma class_of_eq:
  assumes "a < 256"
  shows "class_of a =
    (if a < 0x80 then 0 else if a < 0x90 then 1 else if a < 0xA0 then 9 else if a < 0xC0 then 7
     else if a < 0xC2 then 8 else if a < 0xE0 then 2 else if a = 0xE0 then 10
     else if a = 0xED then 4 else if a < 0xF0 then 3 else if a = 0xF0 then 11
     else if a < 0xF4 then 6 else if a = 0xF4 then 5 else 8)"
proof -
  consider "a < 0xC0" | "0xC0 \<le> a" "a < 0xE0" | "0xE0 \<le> a" "a < 0xF0" | "0xF0 \<le> a"
    by linarith
  then show ?thesis
  proof cases
    case 1
    then show ?thesis unfolding class_of_def utf8d_classes_def nth_run by (auto split: if_splits)
  next
    case 2
    then obtain d where "a = 0xC0 + d" "d < 0x20" using le_Suc_ex by fastforce
    then show ?thesis unfolding class_of_def utf8d_classes_def nth_run
      by (auto simp: nth_Cons' nth_append)
  next
    case 3
    then obtain d where "a = 0xE0 + d" "d < 0x10" using le_Suc_ex by fastforce
    then show ?thesis unfolding class_of_def utf8d_classes_def nth_run
      by (auto simp: nth_Cons' nth_append)
  next
    case 4
    with assms obtain d where "a = 0xF0 + d" "d < 0x10" using le_Suc_ex by fastforce
    then show ?thesis unfolding class_of_def utf8d_classes_def nth_run
      by (simp add: nth_Cons' nth_append)
  qed
qed

lemma next_state_eq:
  assumes "t < 12"
  shows "next_state 0 t = [0, 1, 2, 3, 5, 8, 7, 1, 1, 1, 4, 6] ! t"
    and "next_state 2 t = (if t \<in> {1, 7, 9} then 0 else 1)"
    and "next_state 3 t = (if t \<in> {1, 7, 9} then 2 else 1)"
    and "next_state 4 t = (if t = 7 then 2 else 1)"
    and "next_state 5 t = (if t \<in> {1, 9} then 2 else 1)"
    and "next_state 6 t = (if t \<in> {7, 9} then 3 else 1)"
    and "next_state 7 t = (if t \<in> {1, 7, 9} then 3 else 1)"
    and "next_state 8 t = (if t = 1 then 3 else 1)"
proof -
  have "t \<in> {0, 1, 2, 3, 4, 5, 6, 7, 8, 9, 10, 11}"
    using assms by (simp only: insert_iff empty_iff) arith
  then show "next_state 0 t = [0, 1, 2, 3, 5, 8, 7, 1, 1, 1, 4, 6] ! t"
    "next_state 2 t = (if t \<in> {1, 7, 9} then 0 else 1)"
    "next_state 3 t = (if t \<in> {1, 7, 9} then 2 else 1)"
    "next_state 4 t = (if t = 7 then 2 else 1)"
    "next_state 5 t = (if t \<in> {1, 9} then 2 else 1)"
    "next_state 6 t = (if t \<in> {7, 9} then 3 else 1)"
    "next_state 7 t = (if t \<in> {1, 7, 9} then 3 else 1)"
    "next_state 8 t = (if t = 1 then 3 else 1)"
    by (elim insertE emptyE; simp add: next_state_def utf8d_transitions_def)+
qed

text \<open>One step of the table is one step of the definition.\<close>

lemma class_of_less: "a < 256 \<Longrightarrow> class_of a < 12"
  by (simp add: class_of_eq)

lemma first_state_eq:
  assumes "a < 256"
  shows "next_state 0 (class_of a) =
    (if a < 0x80 then 0 else if a < 0xC2 then 1 else if a < 0xE0 then 2 else if a = 0xE0 then 4
     else if a = 0xED then 5 else if a < 0xF0 then 3 else if a = 0xF0 then 6
     else if a < 0xF4 then 7 else if a = 0xF4 then 8 else 1)"
proof -
  have n: "next_state 0 0 = 0" "next_state 0 1 = 1" "next_state 0 9 = 1" "next_state 0 7 = 1"
    "next_state 0 8 = 1" "next_state 0 2 = 2" "next_state 0 10 = 4" "next_state 0 4 = 5"
    "next_state 0 3 = 3" "next_state 0 11 = 6" "next_state 0 6 = 7" "next_state 0 5 = 8"
    by (simp_all add: next_state_eq)
  have "(if a < 0x90 then 1 else if a < 0xA0 then 1 else if a < 0xC0 then 1 else if a < 0xC2 then 1 else x)
      = (if a < 0xC2 then 1 else x)" for x :: nat
    by auto
  then show ?thesis
    unfolding class_of_eq [OF assms] if_distrib [of "next_state 0"] n by simp
qed

lemma utf8_step_first:
  assumes "a < 256"
  shows "utf8_follow a
    = (if next_state 0 (class_of a) = 1 then None else Some (expects (next_state 0 (class_of a))))"
    and "next_state 0 (class_of a) \<noteq> 1 \<Longrightarrow> live (next_state 0 (class_of a))"
    and "next_state 0 (class_of a) = 0 \<longleftrightarrow> a < 0x80"
  unfolding first_state_eq [OF assms] using assms
    apply (simp add: utf8_follow_def expects_def)
   apply (simp add: live_def split: if_splits)
  apply simp
  done

lemma next_state_range:
  assumes "a < 256"
  shows "next_state 2 (class_of a) = (if 0x80 \<le> a \<and> a \<le> 0xBF then 0 else 1)"
    and "next_state 3 (class_of a) = (if 0x80 \<le> a \<and> a \<le> 0xBF then 2 else 1)"
    and "next_state 4 (class_of a) = (if 0xA0 \<le> a \<and> a \<le> 0xBF then 2 else 1)"
    and "next_state 5 (class_of a) = (if 0x80 \<le> a \<and> a \<le> 0x9F then 2 else 1)"
    and "next_state 6 (class_of a) = (if 0x90 \<le> a \<and> a \<le> 0xBF then 3 else 1)"
    and "next_state 7 (class_of a) = (if 0x80 \<le> a \<and> a \<le> 0xBF then 3 else 1)"
    and "next_state 8 (class_of a) = (if 0x80 \<le> a \<and> a \<le> 0x8F then 3 else 1)"
  unfolding next_state_eq [OF class_of_less [OF assms]] unfolding class_of_eq [OF assms]
  by simp_all

lemma utf8_step_next:
  assumes "a < 256" "live s" "s \<noteq> 0"
  shows "\<exists>lo hi. expects s = (lo, hi) # tl (expects s)
    \<and> (next_state s (class_of a) \<noteq> 1 \<longleftrightarrow> lo \<le> a \<and> a \<le> hi)
    \<and> (lo \<le> a \<and> a \<le> hi \<longrightarrow> live (next_state s (class_of a))
         \<and> expects (next_state s (class_of a)) = tl (expects s))"
  using assms(2,3) unfolding live_def insert_iff empty_iff
  by (elim disjE; simp add: next_state_range [OF assms(1)] expects_def utf8_tail_def live_def)

section \<open>Code points\<close>

text \<open>Bounds on the code point read so far: a sequence that is accepted is not overlong.\<close>

definition codepoint_ok :: "nat \<Rightarrow> nat \<Rightarrow> bool" where
  "codepoint_ok s c \<longleftrightarrow>
     (s = 2 \<longrightarrow> 2 \<le> c \<and> c < 2 ^ 18)
     \<and> (s = 3 \<or> s = 5 \<longrightarrow> 1 \<le> c \<and> c < 2 ^ 12) \<and> (s = 4 \<longrightarrow> c < 2 ^ 12)
     \<and> (s = 7 \<or> s = 8 \<longrightarrow> 1 \<le> c \<and> c < 2 ^ 6) \<and> (s = 6 \<longrightarrow> c < 2 ^ 6)"

lemma unat_and_mask: "a < 256 \<Longrightarrow> unat ((of_nat a :: u32) AND mask n) = a mod 2 ^ n"
proof -
  assume a: "a < 256"
  have "unat (take_bit n (of_nat a :: u32)) = take_bit n (unat (of_nat a :: u32))"
    by (rule unsigned_take_bit_eq)
  also have "unat (of_nat a :: u32) = a" using a by (simp add: unat_of_nat)
  finally show ?thesis by (simp add: take_bit_eq_mask) (simp add: take_bit_eq_mod flip: take_bit_eq_mask)
qed

lemma mask_and_of_nat: "a < 256 \<Longrightarrow> unat (mask n AND (of_nat a :: u32)) = a mod 2 ^ n"
  by (simp add: and.commute [of "mask n"] unat_and_mask)

lemma next_codepoint:
  fixes cp :: u32
  assumes "a < 256" "unat cp < 2 ^ 18"
  shows "unat ((of_nat a AND 0x3F) OR push_bit 6 cp) = unat cp * 64 + a mod 64"
proof -
  let ?x = "of_nat a AND 0x3F :: u32"
  have m: "?x = take_bit 6 (of_nat a)" by (simp add: take_bit_eq_mask mask_eq_exp_minus_1)
  have "?x + push_bit 6 cp = ?x OR push_bit 6 cp"
    unfolding m by (rule disjunctive_add) (auto simp: bit_simps)
  moreover have "unat ?x = a mod 64"
    using unat_and_mask [OF assms(1), of 6] by (simp add: mask_eq_exp_minus_1)
  moreover have "unat (push_bit 6 cp) = unat cp * 64"
    using assms(2) by (simp add: push_bit_eq_mult unat_word_ariths)
  moreover have "unat cp * 64 + a mod 64 < 2 ^ 32"
    using assms(2) by (simp add: mod_less_divisor [THEN order_less_trans])
  ultimately show ?thesis
    using unat_add_lem [of ?x "push_bit 6 cp"] by simp
qed

lemma mod_range:
  fixes a m k :: nat
  assumes "k * m \<le> a" "a < k * m + m"
  shows "a mod m = a - k * m"
proof -
  have "a = (a - k * m) + m * k" "a - k * m < m" using assms by (simp_all add: mult.commute)
  then show ?thesis by (metis mod_less mod_mult_self2)
qed

lemma first_codepoint:
  assumes "a < 256"
  shows "a < 0x80 \<Longrightarrow> unat (snd (utf8_decode 0 cp a)) = a"
    and "codepoint_ok (next_state 0 (class_of a)) (unat (snd (utf8_decode 0 cp a)))"
proof -
  have u: "utf8d ! a = class_of a"
    using assms by (simp add: utf8d_def class_of_def nth_append length_classes)
  have d: "snd (utf8_decode 0 cp a) = drop_bit (class_of a) 0xFF AND of_nat a"
    by (simp add: utf8_decode_def UTF8_ACCEPT_def u Let_def)
  have m: "drop_bit t (0xFF :: u32) = mask (8 - t)" for t
  proof -
    have e: "(0xFF :: u32) = mask 8" by (simp add: mask_eq_exp_minus_1)
    show ?thesis unfolding e by (rule bit_word_eqI) (auto simp: bit_drop_bit_eq bit_mask_iff)
  qed
  have v: "unat (snd (utf8_decode 0 cp a)) = a mod 2 ^ (8 - class_of a)"
    unfolding d m by (rule mask_and_of_nat [OF assms])
  show "a < 0x80 \<Longrightarrow> unat (snd (utf8_decode 0 cp a)) = a"
    unfolding v using assms by (simp add: class_of_eq)
  note e = v first_state_eq [OF assms] class_of_eq [OF assms] codepoint_ok_def
  consider "a < 0xC2" | "0xC2 \<le> a" "a < 0xE0" | "a = 0xE0" | "0xE0 < a" "a < 0xF0" "a \<noteq> 0xED"
    | "a = 0xED" | "a = 0xF0" | "0xF0 < a" "a < 0xF4" | "a = 0xF4" | "0xF4 < a"
    by linarith
  then show "codepoint_ok (next_state 0 (class_of a)) (unat (snd (utf8_decode 0 cp a)))"
  proof cases
    case 2
    with mod_range [of 3 64 a] show ?thesis unfolding e by (simp add: next_state_eq; linarith)
  next
    case 4
    with mod_range [of 7 32 a] show ?thesis unfolding e by (simp add: next_state_eq; linarith)
  next
    case 7
    with mod_range [of 60 4 a] show ?thesis unfolding e by (simp add: next_state_eq; linarith)
  qed (unfold e, simp_all add: next_state_eq)
qed

lemma next_codepoint_ok:
  assumes "a < 256" "live s" "s \<noteq> 0" "codepoint_ok s (unat cp)"
    and "next_state s (class_of a) \<noteq> 1"
  shows "codepoint_ok (next_state s (class_of a)) (unat (snd (utf8_decode s cp a)))"
    and "next_state s (class_of a) = 0 \<Longrightarrow> 0x80 \<le> unat (snd (utf8_decode s cp a))"
proof -
  have "unat cp < 2 ^ 18" using assms(2,3,4) by (auto simp: live_def codepoint_ok_def)
  then have v: "unat (snd (utf8_decode s cp a)) = unat cp * 64 + a mod 64"
    using assms(1,3) by (simp add: utf8_decode_def UTF8_ACCEPT_def next_codepoint Let_def)
  have r: "a mod 64 < 64" by simp
  have q: "0x80 \<le> a \<Longrightarrow> a \<le> 0xBF \<Longrightarrow> a mod 64 = a - 0x80"
    using mod_range [of 2 64 a] by simp
  show "codepoint_ok (next_state s (class_of a)) (unat (snd (utf8_decode s cp a)))"
    and "next_state s (class_of a) = 0 \<Longrightarrow> 0x80 \<le> unat (snd (utf8_decode s cp a))"
    using assms(2-5) r q unfolding v live_def insert_iff empty_iff
    by (elim disjE; simp add: next_state_range [OF assms(1)] codepoint_ok_def split: if_splits; linarith?)+
qed

end
