(* ===== verification/Json_Float.thy ===== *)
theory Json_Float
  imports Cxx_Strings "HOL-Library.Signed_Division"
begin

text \<open>
  The printing of doubles of \<open>externals/json-3.1.2/json.h\<close>: \<open>detail::dtoa_impl\<close> (the Grisu2 algorithm)
  and \<open>detail::to_chars\<close>, which \<open>serializer::dump_float\<close> calls for every finite number.  A double is
  the word of its 64 bits; \<open>reinterpret_bits\<close> is the identity on it.  The character buffer is the
  text written so far, so \<open>length\<close> of the code is the length of the list.  Every \<open>assert\<close> is a
  branch; a shift by 64 bits or more and a division by zero are undefined, and so is a loop without
  side effects that does not end.  The exponents stay within a few thousand and are integers.
\<close>

unbundle bit_operations_syntax

definition asserting :: "bool \<Rightarrow> 'a res \<Rightarrow> 'a res" where
  "asserting c r = (if c then r else Inl (Terminate ''assertion failed''))"

lemma asserting_True [simp, res_simps]: "asserting True r = r"
  by (simp add: asserting_def)

lemma asserting_holds: "c \<Longrightarrow> asserting c r = r"
  by (simp add: asserting_def)

section \<open>The class diyfp: f * 2 ^ e\<close>

record diyfp =
  diy_f :: u64
  diy_e :: int

abbreviation Diyfp :: "u64 \<Rightarrow> int \<Rightarrow> diyfp" where
  "Diyfp f e \<equiv> \<lparr>diy_f = f, diy_e = e\<rparr>"

definition diyfp_sub :: "diyfp \<Rightarrow> diyfp \<Rightarrow> diyfp res" where
  "diyfp_sub x y =
     asserting (diy_e x = diy_e y)
     (asserting (diy_f y \<le> diy_f x)
     (Inr (Diyfp (diy_f x - diy_f y) (diy_e x))))"

text \<open>The upper half of the 128-bit product, rounded, from four products of 32-bit halves.\<close>

definition diyfp_mul :: "diyfp \<Rightarrow> diyfp \<Rightarrow> diyfp" where
  "diyfp_mul x y =
     (let u_lo = diy_f x AND 0xFFFFFFFF; u_hi = drop_bit 32 (diy_f x);
          v_lo = diy_f y AND 0xFFFFFFFF; v_hi = drop_bit 32 (diy_f y);
          p0 = u_lo * v_lo; p1 = u_lo * v_hi; p2 = u_hi * v_lo; p3 = u_hi * v_hi;
          p0_hi = drop_bit 32 p0;
          p1_lo = p1 AND 0xFFFFFFFF; p1_hi = drop_bit 32 p1;
          p2_lo = p2 AND 0xFFFFFFFF; p2_hi = drop_bit 32 p2;
          Q = p0_hi + p1_lo + p2_lo + push_bit (64 - 32 - 1) 1;
          h = p3 + p2_hi + p1_hi + drop_bit 32 Q
      in Diyfp h (diy_e x + diy_e y + 64))"

partial_function (option) normalize_loop :: "u64 \<Rightarrow> int \<Rightarrow> diyfp option" where
  "normalize_loop f e =
     (if drop_bit 63 f = 0 then normalize_loop (push_bit 1 f) (e - 1) else Some (Diyfp f e))"

declare normalize_loop.simps [code]

definition diyfp_normalize :: "diyfp \<Rightarrow> diyfp res" where
  "diyfp_normalize x =
     asserting (diy_f x \<noteq> 0)
     (case normalize_loop (diy_f x) (diy_e x) of
        None \<Rightarrow> Inl (Undefined_behaviour ''infinite loop'')
      | Some y \<Rightarrow> Inr y)"

definition diyfp_normalize_to :: "diyfp \<Rightarrow> int \<Rightarrow> diyfp res" where
  "diyfp_normalize_to x target_exponent =
     (let delta = diy_e x - target_exponent
      in asserting (0 \<le> delta)
         (if 64 \<le> delta then Inl (Undefined_behaviour ''shift by the width'')
          else asserting (drop_bit (nat delta) (push_bit (nat delta) (diy_f x)) = diy_f x)
               (Inr (Diyfp (push_bit (nat delta) (diy_f x)) target_exponent))))"

section \<open>The boundaries of a double\<close>

text \<open>A double is finite when its exponent is not all ones.\<close>

definition isfinite :: "u64 \<Rightarrow> bool" where
  "isfinite x \<longleftrightarrow> drop_bit 52 x AND 0x7FF \<noteq> 0x7FF"

definition signbit :: "u64 \<Rightarrow> bool" where
  "signbit x \<longleftrightarrow> drop_bit 63 x = 1"

record boundaries =
  bd_w :: diyfp
  bd_minus :: diyfp
  bd_plus :: diyfp

text \<open>\<open>kPrecision\<close> is 53, \<open>kBias\<close> 1075 and \<open>kMinExp\<close> -1074 for a double.\<close>

definition kBias :: int where "kBias = 1024 - 1 + (53 - 1)"
definition kMinExp :: int where "kMinExp = 1 - kBias"
definition kHiddenBit :: u64 where "kHiddenBit = push_bit (53 - 1) 1"

definition compute_boundaries :: "u64 \<Rightarrow> boundaries res" where
  "compute_boundaries value =
     asserting (isfinite value)
     (asserting (\<not> signbit value \<and> value \<noteq> 0)
     (let E = drop_bit (53 - 1) value;
          F = value AND (kHiddenBit - 1);
          is_denormal = E = 0;
          v = (if is_denormal then Diyfp F kMinExp else Diyfp (F + kHiddenBit) (uint E - kBias));
          lower_boundary_is_closer = F = 0 \<and> E > 1;
          m_plus = Diyfp (2 * diy_f v + 1) (diy_e v - 1);
          m_minus = (if lower_boundary_is_closer then Diyfp (4 * diy_f v - 1) (diy_e v - 2)
                     else Diyfp (2 * diy_f v - 1) (diy_e v - 1))
      in bind_res (diyfp_normalize m_plus) (\<lambda>w_plus.
         bind_res (diyfp_normalize_to m_minus (diy_e w_plus)) (\<lambda>w_minus.
         bind_res (diyfp_normalize v) (\<lambda>w.
         Inr \<lparr>bd_w = w, bd_minus = w_minus, bd_plus = w_plus\<rparr>)))))"

section \<open>The cached powers of ten\<close>

definition kAlpha :: int where "kAlpha = - 60"
definition kGamma :: int where "kGamma = - 32"

record cached_power =
  cp_f :: u64
  cp_e :: int
  cp_k :: int

abbreviation cached :: "u64 \<Rightarrow> int \<Rightarrow> int \<Rightarrow> cached_power" where
  "cached f e k \<equiv> \<lparr>cp_f = f, cp_e = e, cp_k = k\<rparr>"

definition kCachedPowers :: "cached_power list" where
  "kCachedPowers = [
     cached 0xAB70FE17C79AC6CA (- 1060) (- 300),
     cached 0xFF77B1FCBEBCDC4F (- 1034) (- 292),
     cached 0xBE5691EF416BD60C (- 1007) (- 284),
     cached 0x8DD01FAD907FFC3C (- 980) (- 276),
     cached 0xD3515C2831559A83 (- 954) (- 268),
     cached 0x9D71AC8FADA6C9B5 (- 927) (- 260),
     cached 0xEA9C227723EE8BCB (- 901) (- 252),
     cached 0xAECC49914078536D (- 874) (- 244),
     cached 0x823C12795DB6CE57 (- 847) (- 236),
     cached 0xC21094364DFB5637 (- 821) (- 228),
     cached 0x9096EA6F3848984F (- 794) (- 220),
     cached 0xD77485CB25823AC7 (- 768) (- 212),
     cached 0xA086CFCD97BF97F4 (- 741) (- 204),
     cached 0xEF340A98172AACE5 (- 715) (- 196),
     cached 0xB23867FB2A35B28E (- 688) (- 188),
     cached 0x84C8D4DFD2C63F3B (- 661) (- 180),
     cached 0xC5DD44271AD3CDBA (- 635) (- 172),
     cached 0x936B9FCEBB25C996 (- 608) (- 164),
     cached 0xDBAC6C247D62A584 (- 582) (- 156),
     cached 0xA3AB66580D5FDAF6 (- 555) (- 148),
     cached 0xF3E2F893DEC3F126 (- 529) (- 140),
     cached 0xB5B5ADA8AAFF80B8 (- 502) (- 132),
     cached 0x87625F056C7C4A8B (- 475) (- 124),
     cached 0xC9BCFF6034C13053 (- 449) (- 116),
     cached 0x964E858C91BA2655 (- 422) (- 108),
     cached 0xDFF9772470297EBD (- 396) (- 100),
     cached 0xA6DFBD9FB8E5B88F (- 369) (- 92),
     cached 0xF8A95FCF88747D94 (- 343) (- 84),
     cached 0xB94470938FA89BCF (- 316) (- 76),
     cached 0x8A08F0F8BF0F156B (- 289) (- 68),
     cached 0xCDB02555653131B6 (- 263) (- 60),
     cached 0x993FE2C6D07B7FAC (- 236) (- 52),
     cached 0xE45C10C42A2B3B06 (- 210) (- 44),
     cached 0xAA242499697392D3 (- 183) (- 36),
     cached 0xFD87B5F28300CA0E (- 157) (- 28),
     cached 0xBCE5086492111AEB (- 130) (- 20),
     cached 0x8CBCCC096F5088CC (- 103) (- 12),
     cached 0xD1B71758E219652C (- 77) (- 4),
     cached 0x9C40000000000000 (- 50) (4),
     cached 0xE8D4A51000000000 (- 24) (12),
     cached 0xAD78EBC5AC620000 (3) (20),
     cached 0x813F3978F8940984 (30) (28),
     cached 0xC097CE7BC90715B3 (56) (36),
     cached 0x8F7E32CE7BEA5C70 (83) (44),
     cached 0xD5D238A4ABE98068 (109) (52),
     cached 0x9F4F2726179A2245 (136) (60),
     cached 0xED63A231D4C4FB27 (162) (68),
     cached 0xB0DE65388CC8ADA8 (189) (76),
     cached 0x83C7088E1AAB65DB (216) (84),
     cached 0xC45D1DF942711D9A (242) (92),
     cached 0x924D692CA61BE758 (269) (100),
     cached 0xDA01EE641A708DEA (295) (108),
     cached 0xA26DA3999AEF774A (322) (116),
     cached 0xF209787BB47D6B85 (348) (124),
     cached 0xB454E4A179DD1877 (375) (132),
     cached 0x865B86925B9BC5C2 (402) (140),
     cached 0xC83553C5C8965D3D (428) (148),
     cached 0x952AB45CFA97A0B3 (455) (156),
     cached 0xDE469FBD99A05FE3 (481) (164),
     cached 0xA59BC234DB398C25 (508) (172),
     cached 0xF6C69A72A3989F5C (534) (180),
     cached 0xB7DCBF5354E9BECE (561) (188),
     cached 0x88FCF317F22241E2 (588) (196),
     cached 0xCC20CE9BD35C78A5 (614) (204),
     cached 0x98165AF37B2153DF (641) (212),
     cached 0xE2A0B5DC971F303A (667) (220),
     cached 0xA8D9D1535CE3B396 (694) (228),
     cached 0xFB9B7CD9A4A7443C (720) (236),
     cached 0xBB764C4CA7A44410 (747) (244),
     cached 0x8BAB8EEFB6409C1A (774) (252),
     cached 0xD01FEF10A657842C (800) (260),
     cached 0x9B10A4E5E9913129 (827) (268),
     cached 0xE7109BFBA19C0C9D (853) (276),
     cached 0xAC2820D9623BF429 (880) (284),
     cached 0x80444B5E7AA7CF85 (907) (292),
     cached 0xBF21E44003ACDD2D (933) (300),
     cached 0x8E679C2F5E44FF8F (960) (308),
     cached 0xD433179D9C8CB841 (986) (316),
     cached 0x9E19DB92B4E31BA9 (1013) (324)]"

definition get_cached_power_for_binary_exponent :: "int \<Rightarrow> cached_power res" where
  "get_cached_power_for_binary_exponent e =
     asserting (- 1500 \<le> e)
     (asserting (e \<le> 1500)
     (let f = kAlpha - e - 1;
          k = (f * 78913) sdiv (2 ^ 18) + (if 0 < f then 1 else 0);
          index = (300 + k + (8 - 1)) sdiv 8
      in asserting (0 \<le> index)
         (asserting (index < 79)
         (let cached = kCachedPowers ! nat index
          in asserting (kAlpha \<le> cp_e cached + e + 64)
             (asserting (cp_e cached + e + 64 \<le> kGamma)
             (Inr cached))))))"

section \<open>Digit generation\<close>

text \<open>The number of decimal digits and the largest power of ten below.\<close>

definition find_largest_pow10 :: "u32 \<Rightarrow> nat \<times> u32" where
  "find_largest_pow10 n =
     (if 1000000000 \<le> n then (10, 1000000000)
      else if 100000000 \<le> n then (9, 100000000)
      else if 10000000 \<le> n then (8, 10000000)
      else if 1000000 \<le> n then (7, 1000000)
      else if 100000 \<le> n then (6, 100000)
      else if 10000 \<le> n then (5, 10000)
      else if 1000 \<le> n then (4, 1000)
      else if 100 \<le> n then (3, 100)
      else if 10 \<le> n then (2, 10)
      else (1, 1))"

text \<open>
  \<open>grisu2_round\<close> only changes the last character; \<open>buf[len - 1]--\<close> on a byte wraps around.
\<close>

definition char_pred :: "char \<Rightarrow> char" where
  "char_pred c = char_of ((of_char c + 255 :: nat) mod 256)"

lemma char_pred_step:
  fixes n :: nat
  assumes "n \<noteq> 48" "n < 256"
  shows "((n + 255) mod 256 + 208) mod 256 < (n + 208) mod 256"
proof (cases "n = 0")
  case False
  then have "n + 255 = (n - 1) + 256" by simp
  then have *: "(n + 255) mod 256 = n - 1" using assms by (metis less_imp_diff_less mod_add_self2 mod_less)
  show ?thesis
  proof (cases "n < 48")
    case True
    then show ?thesis using False unfolding * by simp
  next
    case False
    then have "n - 1 + 208 = (n - 49) + 256" "n + 208 = (n - 48) + 256" using assms by simp_all
    then have "(n - 1 + 208) mod 256 = n - 49" "(n + 208) mod 256 = n - 48"
      using assms by (metis less_imp_diff_less mod_add_self2 mod_less)+
    then show ?thesis using False assms unfolding * by simp
  qed
qed simp

function round_loop :: "char \<Rightarrow> u64 \<Rightarrow> u64 \<Rightarrow> u64 \<Rightarrow> u64 \<Rightarrow> char res" where
  "round_loop c dist delta rest ten_k =
     (if rest < dist \<and> ten_k \<le> delta - rest
         \<and> (rest + ten_k < dist \<or> rest + ten_k - dist < dist - rest)
      then if c \<noteq> CHR ''0'' then round_loop (char_pred c) dist delta (rest + ten_k) ten_k
           else Inl (Terminate ''assertion failed'')
      else Inr c)"
  by pat_completeness auto
termination
proof (relation "measure (\<lambda>(c, _). (of_char c + 208) mod 256)")
  fix c :: char and dist delta rest ten_k :: u64
  assume "c \<noteq> CHR ''0''"
  then have "(of_char c :: nat) \<noteq> of_char CHR ''0''" by (metis of_char_eq_iff)
  then have "(of_char c :: nat) \<noteq> 48" by simp
  from char_pred_step [OF this]
  show "((char_pred c, dist, delta, rest + ten_k, ten_k), c, dist, delta, rest, ten_k)
      \<in> measure (\<lambda>(c, _). (of_char c + 208) mod 256)"
    by (simp add: char_pred_def)
qed simp

declare round_loop.simps [simp del]

definition grisu2_round :: "string \<Rightarrow> u64 \<Rightarrow> u64 \<Rightarrow> u64 \<Rightarrow> u64 \<Rightarrow> string res" where
  "grisu2_round buf dist delta rest ten_k =
     asserting (1 \<le> length buf)
     (asserting (dist \<le> delta)
     (asserting (rest \<le> delta)
     (asserting (0 < ten_k)
     (bind_res (round_loop (last buf) dist delta rest ten_k) (\<lambda>c. Inr (butlast buf @ [c]))))))"

text \<open>
  The fractional part \<open>p2\<close>, with \<open>one = 2 ^ s\<close>: one digit per iteration, until what remains is within
  \<open>delta\<close>.  The loop ends for every input, because the remainder gets one more factor two per iteration.
\<close>

definition odd_powers :: "u64 \<Rightarrow> nat set" where
  "odd_powers x = {k. k \<le> 64 \<and> \<not> 2 ^ k dvd unat x}"

lemma unat_low_bits: "unat (x AND (push_bit s 1 - 1) :: u64) = unat x mod 2 ^ min s 64"
proof (cases "s < 64")
  case True
  have "(push_bit s 1 - 1 :: u64) = mask s" by (simp add: mask_eq_exp_minus_1 push_bit_eq_mult)
  then have "x AND (push_bit s 1 - 1) = take_bit s x" by (simp only: take_bit_eq_mask)
  then have "unat (x AND (push_bit s 1 - 1)) = take_bit s (unat x)" by (simp only: unsigned_take_bit_eq)
  with True show ?thesis by (simp add: take_bit_eq_mod)
next
  case False
  then have "(2 :: u64) ^ s = 0" by simp
  then have "(push_bit s 1 - 1 :: u64) = - 1" by (simp add: push_bit_eq_mult)
  then have "x AND (push_bit s 1 - 1) = x" by (simp only: and.right_neutral)
  then show ?thesis using False unsigned_less [of x, where 'a = nat] by (simp add: min_def)
qed

lemma unat_times_ten: "unat (x * 10 :: u64) = (10 * unat x) mod 2 ^ 64"
  by (simp add: unat_word_ariths mult.commute)

lemma odd_powers_decrease:
  assumes "r = (p2 * 10) AND (push_bit s 1 - 1)" "r \<noteq> 0"
  shows "card (odd_powers r) < card (odd_powers p2)"
proof (rule psubset_card_mono)
  define t where "t = min s 64"
  have "unat r = (10 * unat p2) mod 2 ^ 64 mod 2 ^ t"
    using assms(1) by (simp only: unat_low_bits unat_times_ten t_def)
  then have r: "unat r = (10 * unat p2) mod 2 ^ t"
    using mod_mod_cancel [of "2 ^ t" "2 ^ 64" "10 * unat p2", OF le_imp_power_dvd]
    by (simp only: t_def min.cobounded2)
  have step: "2 ^ Suc k dvd unat r" if "2 ^ k dvd unat p2" "Suc k \<le> t" for k
  proof -
    have "2 ^ Suc k dvd 10 * unat p2" using mult_dvd_mono [OF _ that(1), of 2 10] by simp
    moreover have "(2 :: nat) ^ Suc k dvd 2 ^ t" using that(2) by (rule le_imp_power_dvd)
    ultimately show ?thesis unfolding r by (simp add: dvd_mod)
  qed
  have live: "\<not> 2 ^ t dvd 10 * unat p2"
    using assms(2) r by (metis mod_0_imp_dvd dvd_imp_mod_0 unsigned_0 unsigned_word_eqI)
  show "odd_powers r \<subset> odd_powers p2"
  proof
    show "odd_powers r \<subseteq> odd_powers p2"
    proof
      fix k assume k: "k \<in> odd_powers r"
      show "k \<in> odd_powers p2"
      proof (rule ccontr)
        assume "k \<notin> odd_powers p2"
        with k have d: "2 ^ k dvd unat p2" by (simp add: odd_powers_def)
        show False
        proof (cases "Suc k \<le> t")
          case True
          from step [OF d this] k show ?thesis
            by (auto simp: odd_powers_def dest: dvd_mult_right)
        next
          case False
          then have "(2 :: nat) ^ t dvd 2 ^ k" by (intro le_imp_power_dvd) simp
          from dvd_trans [OF this d] have "2 ^ t dvd 10 * unat p2" by (rule dvd_mult)
          with live show ?thesis ..
        qed
      qed
    qed
    show "odd_powers r \<noteq> odd_powers p2"
    proof
      assume eq: "odd_powers r = odd_powers p2"
      have all: "2 ^ k dvd unat p2" if "k \<le> t" for k
        using that
      proof (induction k)
        case (Suc k)
        then have "2 ^ Suc k dvd unat r" using step by simp
        then have "Suc k \<notin> odd_powers p2" unfolding eq [symmetric] by (simp only: odd_powers_def) blast
        moreover have "Suc k \<le> 64" using Suc.prems by (simp add: t_def)
        ultimately show ?case by (simp only: odd_powers_def) blast
      qed simp
      from all [of t] live show False by (simp add: dvd_mult)
    qed
  qed
qed (simp add: odd_powers_def)

function digit_gen_fraction ::
    "nat \<Rightarrow> u64 \<Rightarrow> u64 \<Rightarrow> string \<Rightarrow> int \<Rightarrow> u64 \<Rightarrow> nat \<Rightarrow> (string \<times> int) res" where
  "digit_gen_fraction s delta dist buffer decimal_exponent p2 m =
     asserting (p2 \<le> 0xFFFFFFFFFFFFFFFF div 10)
     (let p2 = p2 * 10;
          d = drop_bit s p2;
          r = p2 AND (push_bit s 1 - 1)
      in asserting (d \<le> 9)
         (let buffer = buffer @ [digit_char (unat d)];
              m = m + 1;
              delta = delta * 10;
              dist = dist * 10
          in if r \<le> delta
             then bind_res (grisu2_round buffer dist delta r (push_bit s 1)) (\<lambda>buffer.
                  Inr (buffer, decimal_exponent - int m))
             else digit_gen_fraction s delta dist buffer decimal_exponent r m))"
  by pat_completeness auto
termination
proof (relation "measure (\<lambda>(s, delta, dist, buffer, decimal_exponent, p2, m). card (odd_powers p2))")
qed (auto simp: asserting_def intro!: odd_powers_decrease)

declare digit_gen_fraction.simps [simp del]

text \<open>The integral part: \<open>n\<close> digits of \<open>p1\<close> are left, then the fractional part follows.\<close>

fun digit_gen_integral ::
    "nat \<Rightarrow> u64 \<Rightarrow> u64 \<Rightarrow> u64 \<Rightarrow> string \<Rightarrow> int \<Rightarrow> u32 \<Rightarrow> u32 \<Rightarrow> nat \<Rightarrow> (string \<times> int) res" where
  "digit_gen_integral s p2 delta dist buffer decimal_exponent p1 pow10 0 =
     asserting (delta < p2) (digit_gen_fraction s delta dist buffer decimal_exponent p2 0)"
| "digit_gen_integral s p2 delta dist buffer decimal_exponent p1 pow10 (Suc n) =
     (if pow10 = 0 then Inl (Undefined_behaviour ''division by zero'')
      else let d = p1 div pow10;
               r = p1 mod pow10
           in asserting (d \<le> 9)
              (let buffer = buffer @ [digit_char (unat d)];
                   rest = push_bit s (ucast r) + p2
               in if rest \<le> delta
                  then bind_res (grisu2_round buffer dist delta rest (push_bit s (ucast pow10))) (\<lambda>buffer.
                       Inr (buffer, decimal_exponent + int n))
                  else digit_gen_integral s p2 delta dist buffer decimal_exponent r (pow10 div 10) n))"

definition grisu2_digit_gen :: "int \<Rightarrow> diyfp \<Rightarrow> diyfp \<Rightarrow> diyfp \<Rightarrow> (string \<times> int) res" where
  "grisu2_digit_gen decimal_exponent M_minus w M_plus =
     asserting (kAlpha \<le> diy_e M_plus)
     (asserting (diy_e M_plus \<le> kGamma)
     (bind_res (diyfp_sub M_plus M_minus) (\<lambda>delta.
      bind_res (diyfp_sub M_plus w) (\<lambda>dist.
        let s = nat (- diy_e M_plus);
            one = push_bit s 1;
            p1 = ucast (drop_bit s (diy_f M_plus)) :: u32;
            p2 = diy_f M_plus AND (one - 1)
        in asserting (0 < p1)
           (let (k, pow10) = find_largest_pow10 p1
            in digit_gen_integral s p2 (diy_f delta) (diy_f dist) [] decimal_exponent p1 pow10 k)))))"

text \<open>
  The digits and the decimal exponent of a positive double: \<open>grisu2_scaled\<close> is the overload of
  \<open>grisu2\<close> on the three boundaries, \<open>grisu2\<close> the one on the value.
\<close>

definition grisu2_scaled :: "diyfp \<Rightarrow> diyfp \<Rightarrow> diyfp \<Rightarrow> (string \<times> int) res" where
  "grisu2_scaled m_minus v m_plus =
     asserting (diy_e m_plus = diy_e m_minus)
     (asserting (diy_e m_plus = diy_e v)
     (bind_res (get_cached_power_for_binary_exponent (diy_e m_plus)) (\<lambda>cached.
        let c_minus_k = Diyfp (cp_f cached) (cp_e cached);
            w = diyfp_mul v c_minus_k;
            w_minus = diyfp_mul m_minus c_minus_k;
            w_plus = diyfp_mul m_plus c_minus_k;
            M_minus = Diyfp (diy_f w_minus + 1) (diy_e w_minus);
            M_plus = Diyfp (diy_f w_plus - 1) (diy_e w_plus)
        in grisu2_digit_gen (- cp_k cached) M_minus w M_plus)))"

definition grisu2 :: "u64 \<Rightarrow> (string \<times> int) res" where
  "grisu2 value =
     asserting (isfinite value)
     (asserting (\<not> signbit value \<and> value \<noteq> 0)
     (bind_res (compute_boundaries value) (\<lambda>w. grisu2_scaled (bd_minus w) (bd_w w) (bd_plus w))))"

section \<open>The text\<close>

definition append_exponent :: "string \<Rightarrow> int \<Rightarrow> string res" where
  "append_exponent buf e =
     asserting (- 1000 < e)
     (asserting (e < 1000)
     (let buf = buf @ (if e < 0 then ''-'' else ''+'');
          k = nat (if e < 0 then - e else e)
      in if k < 10 then Inr (buf @ [CHR ''0'', digit_char k])
         else if k < 100 then Inr (buf @ [digit_char (k div 10), digit_char (k mod 10)])
         else Inr (buf @ [digit_char (k div 100), digit_char (k mod 100 div 10),
                          digit_char (k mod 100 mod 10)])))"

definition format_buffer :: "string \<Rightarrow> int \<Rightarrow> int \<Rightarrow> int \<Rightarrow> string res" where
  "format_buffer buf decimal_exponent min_exp max_exp =
     asserting (min_exp < 0)
     (asserting (0 < max_exp)
     (let k = int (length buf);
          n = k + decimal_exponent
      in if k \<le> n \<and> n \<le> max_exp
         then Inr (buf @ replicate (nat (n - k)) CHR ''0'' @ ''.0'')
         else if 0 < n \<and> n \<le> max_exp
         then asserting (n < k) (Inr (take (nat n) buf @ ''.'' @ drop (nat n) buf))
         else if min_exp < n \<and> n \<le> 0
         then Inr (''0.'' @ replicate (nat (- n)) CHR ''0'' @ buf)
         else append_exponent
                ((if k = 1 then buf else take 1 buf @ ''.'' @ drop 1 buf) @ ''e'') (n - 1)))"

text \<open>
  \<open>room\<close> is \<open>last - first\<close>; \<open>max_digits10\<close> is 17 and \<open>digits10\<close> 15.  Negation flips the sign bit, which
  is set there.
\<close>

definition to_chars :: "int \<Rightarrow> u64 \<Rightarrow> string res" where
  "to_chars room value =
     asserting (isfinite value)
     (let sign = (if signbit value then ''-'' else []);
          room = (if signbit value then room - 1 else room);
          value = (if signbit value then value XOR push_bit 63 1 else value)
      in if value = 0 then Inr (sign @ ''0.0'')
         else asserting (17 \<le> room)
              (bind_res (grisu2 value) (\<lambda>(buf, decimal_exponent).
               asserting (length buf \<le> 17)
               (asserting (15 + 2 \<le> room)
               (asserting (2 + (4 - 1) + 17 \<le> room)
               (asserting (17 + 6 \<le> room)
               (bind_res (format_buffer buf decimal_exponent (- 4) 15) (\<lambda>t. Inr (sign @ t)))))))))"

text \<open>\<open>number_buffer\<close> has 64 bytes.\<close>

definition dump_float :: "u64 \<Rightarrow> string res" where
  "dump_float x = (if \<not> isfinite x then Inr ''null'' else to_chars 64 x)"

end
