(* ===== verification/Json_Float_Digits.thy ===== *)
theory Json_Float_Digits
  imports Json_Float Complex_Main
begin

text \<open>
  What the digit generation of \<open>Json_Float\<close> computes: \<open>diyfp_mul\<close> is the rounded product, \<open>grisu2_round\<close>
  moves the last digit only downwards and within the allowed interval, and \<open>grisu2_digit_gen\<close> generates
  a decimal number in it, with a bound on its digits; no assertion on the way fails.
\<close>

unbundle bit_operations_syntax

section \<open>Multiplication\<close>

lemma unat_low_half: "unat (x AND 0xFFFFFFFF :: u64) = unat x mod 2 ^ 32"
proof -
  have "x AND mask 32 = take_bit 32 x" by (simp only: take_bit_eq_mask)
  then have "unat (x AND mask 32) = take_bit 32 (unat x)" by (simp only: unsigned_take_bit_eq)
  then show ?thesis by (simp add: mask_eq_exp_minus_1 take_bit_eq_mod)
qed

lemma unat_high_half: "unat (drop_bit 32 x :: u64) = unat x div 2 ^ 32"
proof -
  have "unat (drop_bit 32 x) = drop_bit 32 (take_bit 64 (unat x))" by (simp only: unsigned_drop_bit_eq len_num0 len_bit0 len_num1) simp
  then show ?thesis using unsigned_less [of x, where 'a = nat] by (simp add: take_bit_nat_eq_self drop_bit_eq_div)
qed

lemma unat_mult_small: "unat (a :: u64) * unat b < 2 ^ 64 \<Longrightarrow> unat (a * b) = unat a * unat b"
  by (simp add: unat_word_ariths)

lemma unat_add_small: "unat (a :: u64) + unat b < 2 ^ 64 \<Longrightarrow> unat (a + b) = unat a + unat b"
  by (simp add: unat_word_ariths)

lemma mult_halves: "a < 2 ^ 32 \<Longrightarrow> b < 2 ^ 32 \<Longrightarrow> a * b \<le> (2 ^ 32 - 1) * (2 ^ 32 - 1 :: nat)"
  using mult_mono [of a "2 ^ 32 - 1" b "2 ^ 32 - 1"] by simp

lemma collect_halves:
  fixes N :: nat
  assumes "p0 = N * a0 + b0" "p1 = N * a1 + b1" "p2 = N * a2 + b2"
  shows "N * N * p3 + N * p1 + N * p2 + p0 + N * R = N * N * (p3 + a2 + a1) + (N * (a0 + b1 + b2 + R) + b0)"
  unfolding assms by (simp add: algebra_simps)

lemma product_of_halves:
  fixes u v :: nat
  defines "ul \<equiv> u mod 2 ^ 32" and "uh \<equiv> u div 2 ^ 32" and "vl \<equiv> v mod 2 ^ 32" and "vh \<equiv> v div 2 ^ 32"
  defines "Q \<equiv> (ul * vl) div 2 ^ 32 + (ul * vh) mod 2 ^ 32 + (uh * vl) mod 2 ^ 32 + 2 ^ 31"
  shows "uh * vh + (uh * vl) div 2 ^ 32 + (ul * vh) div 2 ^ 32 + Q div 2 ^ 32 = (u * v + 2 ^ 63) div 2 ^ 64"
proof -
  define p0 p1 p2 where p: "p0 = ul * vl" "p1 = ul * vh" "p2 = uh * vl"
  have u: "u = 2 ^ 32 * uh + ul" and v: "v = 2 ^ 32 * vh + vl" by (simp_all add: assms(1-4))
  have uv: "u * v = 2 ^ 64 * (uh * vh) + 2 ^ 32 * p1 + 2 ^ 32 * p2 + p0"
    unfolding u v p by (simp add: algebra_simps)
  have "p0 = 2 ^ 32 * (p0 div 2 ^ 32) + p0 mod 2 ^ 32" "p1 = 2 ^ 32 * (p1 div 2 ^ 32) + p1 mod 2 ^ 32"
    "p2 = 2 ^ 32 * (p2 div 2 ^ 32) + p2 mod 2 ^ 32" by simp_all
  note split = collect_halves [OF this, of "uh * vh" "2 ^ 31", folded Q_def [folded p]]
  have "2 ^ 32 * 2 ^ 32 = (2 :: nat) ^ 64" "2 ^ 32 * 2 ^ 31 = (2 :: nat) ^ 63" by simp_all
  with split uv have "u * v + 2 ^ 63
      = 2 ^ 64 * (uh * vh + p2 div 2 ^ 32 + p1 div 2 ^ 32) + (2 ^ 32 * Q + p0 mod 2 ^ 32)"
    by (simp only:)
  then have "(u * v + 2 ^ 63) div 2 ^ 64
      = uh * vh + p2 div 2 ^ 32 + p1 div 2 ^ 32 + (2 ^ 32 * Q + p0 mod 2 ^ 32) div 2 ^ 64"
    by (metis div_mult_self4 power_not_zero zero_neq_numeral)
  also have "(2 ^ 32 * Q + p0 mod 2 ^ 32) div 2 ^ 64 = (2 ^ 32 * Q + p0 mod 2 ^ 32) div 2 ^ 32 div 2 ^ 32"
    by (simp add: div_mult2_eq [symmetric])
  also have "(2 ^ 32 * Q + p0 mod 2 ^ 32) div 2 ^ 32 = Q" by simp
  finally show ?thesis by (simp add: p)
qed

theorem diyfp_mul_rounds:
  "unat (diy_f (diyfp_mul x y)) = (unat (diy_f x) * unat (diy_f y) + 2 ^ 63) div 2 ^ 64
   \<and> diy_e (diyfp_mul x y) = diy_e x + diy_e y + 64"
proof -
  define u v where uv: "u = unat (diy_f x)" "v = unat (diy_f y)"
  define ul uh vl vh where h: "ul = u mod 2 ^ 32" "uh = u div 2 ^ 32" "vl = v mod 2 ^ 32" "vh = v div 2 ^ 32"
  have less: "u < 2 ^ 64" "v < 2 ^ 64" using unsigned_less [of "diy_f x", where 'a = nat] unsigned_less [of "diy_f y", where 'a = nat] by (simp_all add: uv)
  then have hs: "ul < 2 ^ 32" "uh < 2 ^ 32" "vl < 2 ^ 32" "vh < 2 ^ 32" unfolding h by auto
  note m = mult_halves [OF hs(1,3)] mult_halves [OF hs(1,4)] mult_halves [OF hs(2,3)] mult_halves [OF hs(2,4)]
  have w: "unat (diy_f x AND 0xFFFFFFFF) = ul" "unat (drop_bit 32 (diy_f x)) = uh"
    "unat (diy_f y AND 0xFFFFFFFF) = vl" "unat (drop_bit 32 (diy_f y)) = vh"
    unfolding h uv by (rule unat_low_half unat_high_half)+
  define p0 p1 p2 p3 where p: "p0 = (diy_f x AND 0xFFFFFFFF) * (diy_f y AND 0xFFFFFFFF)"
    "p1 = (diy_f x AND 0xFFFFFFFF) * drop_bit 32 (diy_f y)"
    "p2 = drop_bit 32 (diy_f x) * (diy_f y AND 0xFFFFFFFF)"
    "p3 = drop_bit 32 (diy_f x) * drop_bit 32 (diy_f y)"
  have pn: "unat p0 = ul * vl" "unat p1 = ul * vh" "unat p2 = uh * vl" "unat p3 = uh * vh"
    unfolding p using m by (simp_all add: unat_mult_small w)
  define Q where "Q = drop_bit 32 p0 + (p1 AND 0xFFFFFFFF) + (p2 AND 0xFFFFFFFF) + push_bit (64 - 32 - 1) 1"
  have "unat p0 div 2 ^ 32 + unat p1 mod 2 ^ 32 + unat p2 mod 2 ^ 32 + 2 ^ 31 < 2 ^ 64"
    using m(1) by (simp add: pn)
  have "unat Q = (ul * vl) div 2 ^ 32 + (ul * vh) mod 2 ^ 32 + (uh * vl) mod 2 ^ 32 + 2 ^ 31"
    using m(1) by (simp add: Q_def unat_add_small unat_low_half unat_high_half pn)
  then have sum: "unat p3 + unat (drop_bit 32 p2) + unat (drop_bit 32 p1) + unat (drop_bit 32 Q)
      = (u * v + 2 ^ 63) div 2 ^ 64"
    using product_of_halves [of u v, folded h] by (simp only: unat_high_half pn)
  have "u * v \<le> (2 ^ 64 - 1) * (2 ^ 64 - 1)" using less by (intro mult_le_mono) simp_all
  then have "(u * v + 2 ^ 63) div 2 ^ 64 < 2 ^ 64" by (simp add: div_less_iff_less_mult)
  with sum have "unat (p3 + drop_bit 32 p2 + drop_bit 32 p1 + drop_bit 32 Q) = (u * v + 2 ^ 63) div 2 ^ 64"
    by (simp add: unat_add_small)
  then show ?thesis by (simp add: diyfp_mul_def Let_def uv p Q_def)
qed

section \<open>Rounding the last digit\<close>

definition digits_num :: "string \<Rightarrow> nat" where
  "digits_num t = foldl (\<lambda>n c. n * 10 + (of_char c - 48)) 0 t"

lemma digits_num_snoc: "d < 10 \<Longrightarrow> digits_num (t @ [digit_char d]) = digits_num t * 10 + d"
  by (simp add: digits_num_def of_char_digit_char)

lemma digits_num_Nil [simp]: "digits_num [] = 0"
  by (simp add: digits_num_def)

lemma char_pred_digit: "d < 9 \<Longrightarrow> char_pred (digit_char (Suc d)) = digit_char d"
proof -
  assume "d < 9"
  then have "(of_char (digit_char (Suc d)) + 255 :: nat) = (48 + d) + 256" by (simp add: of_char_digit_char)
  then have "(of_char (digit_char (Suc d)) + 255 :: nat) mod 256 = of_char (digit_char d)"
    using \<open>d < 9\<close> by (simp only: mod_add_self2) (simp add: of_char_digit_char)
  then show ?thesis by (simp add: char_pred_def)
qed

lemma round_loop_result:
  assumes "d < 10" "rest \<le> delta" "dst \<le> delta" "0 < ten_k"
    "unat delta < unat rest + d * unat ten_k"
  shows "\<exists>j < d. round_loop (digit_char d) dst delta rest ten_k = Inr (digit_char (d - j))
     \<and> unat rest + j * unat ten_k \<le> unat delta"
  using assms
proof (induction d arbitrary: rest)
  case 0
  then show ?case by (simp add: word_le_nat_alt)
next
  case (Suc d)
  have d: "digit_char (Suc d) \<noteq> CHR ''0''"
    using Suc.prems(1) digit_char_inj [of "Suc d" 0] by auto
  show ?case
  proof (cases "rest < dst \<and> ten_k \<le> delta - rest
         \<and> (rest + ten_k < dst \<or> rest + ten_k - dst < dst - rest)")
    case True
    then have le: "unat ten_k \<le> unat delta - unat rest"
      using Suc.prems(2) by (simp add: word_le_nat_alt unat_sub)
    then have sum: "unat (rest + ten_k) = unat rest + unat ten_k"
      using Suc.prems(2) unsigned_less [of delta, where 'a = nat]
      by (intro unat_add_small) (simp add: word_le_nat_alt)
    have "rest + ten_k \<le> delta"
      using le Suc.prems(2) by (simp add: word_le_nat_alt sum)
    from Suc.IH [OF _ this Suc.prems(3,4)] Suc.prems(1,5)
    obtain j where j: "j < d" "round_loop (digit_char d) dst delta (rest + ten_k) ten_k = Inr (digit_char (d - j))"
      "unat (rest + ten_k) + j * unat ten_k \<le> unat delta"
      by (auto simp: sum)
    show ?thesis
      using j d True Suc.prems(1)
      by (intro exI [of _ "Suc j"]) (subst round_loop.simps, simp add: char_pred_digit sum)
  next
    case False
    then show ?thesis
      using Suc.prems by (intro exI [of _ 0]) (subst round_loop.simps, auto simp: word_le_nat_alt)
  qed
qed

lemma grisu2_round_result:
  assumes "d < 10" "rest \<le> delta" "dst \<le> delta" "0 < ten_k"
    "unat delta < unat rest + d * unat ten_k"
  shows "\<exists>j < d. grisu2_round (buf @ [digit_char d]) dst delta rest ten_k = Inr (buf @ [digit_char (d - j)])
     \<and> unat rest + j * unat ten_k \<le> unat delta"
  using round_loop_result [OF assms] assms(2-4)
  by (fastforce simp: grisu2_round_def)

section \<open>The fractional digits\<close>

lemma unat_drop_bit: "unat (drop_bit s x :: u64) = unat x div 2 ^ s"
proof -
  have "unat (drop_bit s x) = drop_bit s (take_bit 64 (unat x))"
    by (simp only: unsigned_drop_bit_eq len_num0 len_bit0 len_num1) simp
  then show ?thesis using unsigned_less [of x, where 'a = nat] by (simp add: take_bit_nat_eq_self drop_bit_eq_div)
qed

lemma unat_push_bit_one: "s < 64 \<Longrightarrow> unat (push_bit s 1 :: u64) = 2 ^ s"
proof -
  assume s: "s < 64"
  then have "(2 :: nat) ^ s < 2 ^ 64" by (rule power_strict_increasing) simp
  moreover have "unat (push_bit s 1 :: u64) = take_bit 64 (push_bit s 1)"
    by (simp only: unsigned_push_bit_eq len_num0 len_bit0 len_num1) simp
  ultimately show ?thesis using s by (simp add: take_bit_nat_eq_self push_bit_eq_mult)
qed

definition digits_text :: "string \<Rightarrow> bool" where
  "digits_text t \<longleftrightarrow> list_all is_digit t"

lemma digit_gen_fraction_result:
  assumes "s \<le> 60" "unat p2 < 2 ^ s" "delta < p2" "dst \<le> delta"
  shows "\<exists>t n rest. digit_gen_fraction s delta dst buffer de p2 m = Inr (buffer @ t, de - int (m + n))
    \<and> digits_text t \<and> t \<noteq> [] \<and> length t = n \<and> 10 ^ n * unat delta < 10 * 2 ^ s
    \<and> 10 ^ n * (digits_num buffer * 2 ^ s + unat p2) = digits_num (buffer @ t) * 2 ^ s + rest
    \<and> rest \<le> 10 ^ n * unat delta"
  using assms
proof (induction s delta dst buffer de p2 m rule: digit_gen_fraction.induct)
  case (1 s delta dst buffer de p2 m)
  have p60: "(2 :: nat) ^ s \<le> 2 ^ 60" using "1.prems"(1) by (intro power_increasing) simp_all
  have nat_less: "unat delta < unat p2" "unat dst \<le> unat delta"
    using "1.prems"(3,4) by (simp_all add: word_less_nat_alt word_le_nat_alt)
  have small: "unat p2 * 10 < 2 ^ 64" using "1.prems"(2) p60 by simp
  then have p2: "unat (p2 * 10) = unat p2 * 10" by (simp add: unat_mult_small)
  have dl: "unat (delta * 10) = unat delta * 10" "unat (dst * 10) = unat dst * 10"
    using small nat_less by (simp_all add: unat_mult_small)
  define d where "d = unat p2 * 10 div 2 ^ s"
  define r where "r = (p2 * 10) AND (push_bit s 1 - 1)"
  have d: "unat (drop_bit s (p2 * 10)) = d" by (simp add: unat_drop_bit p2 d_def)
  have r: "unat r = unat p2 * 10 mod 2 ^ s" 
    using "1.prems"(1) unfolding r_def unat_low_bits p2 by simp
  have split: "unat p2 * 10 = d * 2 ^ s + unat r" unfolding r d_def by (rule div_mult_mod_eq [symmetric])
  have "d < 10" using "1.prems"(2) unfolding d_def by (simp add: div_less_iff_less_mult)
  then have d9: "drop_bit s (p2 * 10) \<le> 9" by (simp add: word_le_nat_alt d)
  have max: "p2 \<le> 0xFFFFFFFFFFFFFFFF div 10"
    using small by (simp add: word_le_nat_alt unat_div_distrib)
  have num: "digits_num (buffer @ [digit_char d]) * 2 ^ s + unat r
      = 10 * (digits_num buffer * 2 ^ s + unat p2)"
    using \<open>d < 10\<close> split by (simp add: digits_num_snoc algebra_simps)
  show ?case
  proof (cases "r \<le> delta * 10")
    case True
    have "dst * 10 \<le> delta * 10" using nat_less by (simp add: word_le_nat_alt dl)
    moreover have "0 < (push_bit s 1 :: u64)"
      using "1.prems"(1) by (simp add: word_less_nat_alt unat_push_bit_one del: push_bit_of_1)
    moreover have "unat (delta * 10) < unat r + d * unat (push_bit s 1 :: u64)"
      using nat_less split "1.prems"(1) by (simp add: unat_push_bit_one dl del: push_bit_of_1)
    ultimately obtain j where j: "j < d"
      "grisu2_round (buffer @ [digit_char d]) (dst * 10) (delta * 10) r (push_bit s 1)
        = Inr (buffer @ [digit_char (d - j)])"
      "unat r + j * 2 ^ s \<le> 10 * unat delta"
      using grisu2_round_result [OF \<open>d < 10\<close> True] "1.prems"(1)
      by (force simp: dl unat_push_bit_one simp del: push_bit_of_1)
    have "digits_num (buffer @ [digit_char (d - j)]) + j = digits_num (buffer @ [digit_char d])"
      using j(1) \<open>d < 10\<close> by (simp add: digits_num_snoc)
    then have "10 * (digits_num buffer * 2 ^ s + unat p2)
        = digits_num (buffer @ [digit_char (d - j)]) * 2 ^ s + (unat r + j * 2 ^ s)"
      using num by (metis add.assoc add.commute distrib_right)
    moreover have "10 * unat delta < 10 * 2 ^ s" using nat_less "1.prems"(2) by simp
    moreover have "digit_gen_fraction s delta dst buffer de p2 m
        = Inr (buffer @ [digit_char (d - j)], de - int (m + 1))"
      using True j(2) max d9 unfolding digit_gen_fraction.simps [of s delta dst buffer de p2 m]
      by (simp add: Let_def d r_def)
    ultimately show ?thesis
      using j \<open>d < 10\<close>
      by (intro exI [of _ "[digit_char (d - j)]"] exI [of _ 1] exI [of _ "unat r + j * 2 ^ s"])
        (simp add: digits_text_def is_digit_digit_char)
  next
    case False
    have rl: "unat r < 2 ^ s" by (simp add: r)
    have "dst * 10 \<le> delta * 10" using nat_less by (simp add: word_le_nat_alt dl)
    from "1.IH" [OF refl refl refl refl refl refl refl, folded r_def, unfolded d, OF False "1.prems"(1) rl _ this] False
    have "\<exists>t n rest. digit_gen_fraction s (delta * 10) (dst * 10) (buffer @ [digit_char d]) de r (m + 1)
          = Inr ((buffer @ [digit_char d]) @ t, de - int (m + 1 + n))
      \<and> digits_text t \<and> t \<noteq> [] \<and> length t = n \<and> 10 ^ n * unat (delta * 10) < 10 * 2 ^ s
      \<and> 10 ^ n * (digits_num (buffer @ [digit_char d]) * 2 ^ s + unat r)
         = digits_num ((buffer @ [digit_char d]) @ t) * 2 ^ s + rest
      \<and> rest \<le> 10 ^ n * unat (delta * 10)" by simp
    then obtain t n rest where t: "digit_gen_fraction s (delta * 10) (dst * 10) (buffer @ [digit_char d]) de r (m + 1)
          = Inr ((buffer @ [digit_char d]) @ t, de - int (m + 1 + n))"
      "digits_text t" "t \<noteq> []" "length t = n" "10 ^ n * unat (delta * 10) < 10 * 2 ^ s"
      "10 ^ n * (digits_num (buffer @ [digit_char d]) * 2 ^ s + unat r)
         = digits_num ((buffer @ [digit_char d]) @ t) * 2 ^ s + rest"
      "rest \<le> 10 ^ n * unat (delta * 10)" by (elim exE conjE)
    have "digit_gen_fraction s delta dst buffer de p2 m
        = Inr (buffer @ digit_char d # t, de - int (m + Suc n))"
      using False t(1) max d9 unfolding digit_gen_fraction.simps [of s delta dst buffer de p2 m]
      by (simp add: Let_def d r_def)
    moreover have "10 ^ Suc n * (digits_num buffer * 2 ^ s + unat p2)
        = digits_num (buffer @ digit_char d # t) * 2 ^ s + rest"
      using t(6) unfolding num by (simp add: algebra_simps)
    moreover have "10 ^ Suc n * unat delta < 10 * 2 ^ s" "rest \<le> 10 ^ Suc n * unat delta"
      using t(5,7) by (simp_all add: dl)
    moreover have "digits_text (digit_char d # t)" "length (digit_char d # t) = Suc n"
      using t(2,4) \<open>d < 10\<close> by (simp_all add: digits_text_def is_digit_digit_char)
    ultimately show ?thesis by blast
  qed
qed

text \<open>The number a text of digits with a decimal exponent stands for.\<close>

definition decimal_value :: "string \<Rightarrow> int \<Rightarrow> rat" where
  "decimal_value t e = of_nat (digits_num t) * 10 powi e"

section \<open>All digits\<close>

definition generated :: "bool \<Rightarrow> nat \<Rightarrow> nat \<Rightarrow> nat \<Rightarrow> nat \<Rightarrow> string \<Rightarrow> int \<Rightarrow> (string \<times> int) res \<Rightarrow> bool" where
  "generated lead s n M delta buf de r \<longleftrightarrow>
     (\<exists>t e rest. r = Inr (buf @ t, de + e) \<and> digits_text t \<and> t \<noteq> [] \<and> (lead \<longrightarrow> hd t \<noteq> CHR ''0'')
        \<and> int (length t) = int n - e
        \<and> of_nat (digits_num (buf @ t)) * 10 powi e * 2 ^ s + rest = (of_nat M :: rat)
        \<and> 0 \<le> rest \<and> rest \<le> of_nat delta \<and> of_nat delta < 10 powi (e + 1) * (2 ^ s :: rat))"

lemma generated_fraction:
  assumes "s \<le> 60" "unat p2 < 2 ^ s" "delta < p2" "dst \<le> delta"
  shows "generated False s 0 (digits_num buf * 2 ^ s + unat p2) (unat delta) buf de
     (digit_gen_fraction s delta dst buf de p2 0)"
proof -
  obtain t n rest where t: "digit_gen_fraction s delta dst buf de p2 0 = Inr (buf @ t, de - int (0 + n))"
    "digits_text t" "t \<noteq> []" "length t = n" "10 ^ n * unat delta < 10 * 2 ^ s"
    "10 ^ n * (digits_num buf * 2 ^ s + unat p2) = digits_num (buf @ t) * 2 ^ s + rest"
    "rest \<le> 10 ^ n * unat delta"
    using digit_gen_fraction_result [OF assms] by blast
  have p1: "(10 :: rat) powi (- int n) = 1 / 10 ^ n" by (simp add: power_int_minus field_simps)
  have "(10 :: rat) powi (- int n + 1) = 10 powi (- int n) * 10 powi 1" by (rule power_int_add) simp
  with p1 have p: "(10 :: rat) powi (- int n) = 1 / 10 ^ n" "(10 :: rat) powi (- int n + 1) = 10 / 10 ^ n"
    by simp_all
  have "(10 :: rat) ^ n * of_nat (digits_num buf * 2 ^ s + unat p2)
      = of_nat (digits_num (buf @ t)) * 2 ^ s + of_nat rest"
    using arg_cong [OF t(6), of "of_nat :: nat \<Rightarrow> rat"] by simp
  then have "of_nat (digits_num (buf @ t)) * 10 powi (- int n) * 2 ^ s + of_nat rest / 10 ^ n
      = (of_nat (digits_num buf * 2 ^ s + unat p2) :: rat)"
    by (simp add: p field_simps)
  moreover have "(of_nat rest :: rat) \<le> of_nat (10 ^ n * unat delta)" using t(7) by (rule of_nat_mono)
  then have "of_nat rest / 10 ^ n \<le> (of_nat (unat delta) :: rat)" by (simp add: field_simps)
  moreover have "(of_nat (10 ^ n * unat delta) :: rat) < of_nat (10 * 2 ^ s)"
    using t(5) by (simp only: of_nat_less_iff)
  then have "of_nat (unat delta) < 10 powi (- int n + 1) * (2 ^ s :: rat)"
    unfolding p by (simp add: field_simps)
  ultimately show ?thesis
    unfolding generated_def
    using t by (intro exI [of _ t] exI [of _ "- int n"] exI [of _ "of_nat rest / 10 ^ n"]) simp
qed

lemma generated_snoc:
  assumes "generated any s n M delta (buf @ [c]) de r" "is_digit c" "lead \<longrightarrow> c \<noteq> CHR ''0''"
  shows "generated lead s (Suc n) M delta buf de r"
proof -
  obtain t e rest where "r = Inr ((buf @ [c]) @ t, de + e)" "digits_text t" "t \<noteq> []" "int (length t) = int n - e"
    "of_nat (digits_num ((buf @ [c]) @ t)) * 10 powi e * 2 ^ s + rest = (of_nat M :: rat)"
    "0 \<le> rest" "rest \<le> of_nat delta" "of_nat delta < 10 powi (e + 1) * (2 ^ s :: rat)"
    using assms(1) unfolding generated_def by blast
  then show ?thesis
    unfolding generated_def using assms(2,3)
    by (intro exI [of _ "c # t"] exI [of _ e] exI [of _ rest]) (simp add: digits_text_def)
qed

lemma push_bit_of_nat:
  assumes "unat (x :: u32) * 2 ^ s < 2 ^ 64" "s \<le> 60"
  shows "unat (push_bit s (ucast x) :: u64) = unat x * 2 ^ s"
proof -
  have x: "unat (ucast x :: u64) = unat x"
    using unsigned_less [of x, where 'a = nat] by (simp add: unsigned_ucast_eq take_bit_nat_eq_self)
  have "unat (push_bit s (ucast x) :: u64) = take_bit 64 (push_bit s (unat x))"
    by (simp only: unsigned_push_bit_eq x len_num0 len_bit0 len_num1) simp
  then show ?thesis using assms by (simp add: push_bit_eq_mult take_bit_nat_eq_self)
qed

lemma generated_integral:
  assumes "s \<le> 60" "unat p2 < 2 ^ s" "dst \<le> delta"
    "unat p1 < 10 ^ n" "n = 0 \<or> unat pow10 = 10 ^ (n - 1)"
    "unat delta < unat p1 * 2 ^ s + unat p2" "unat p1 * 2 ^ s + unat p2 < 2 ^ 64"
    "n = 0 \<or> 10 ^ (n - 1) * 2 ^ s < (2 :: nat) ^ 64"
  shows "generated (0 < n \<and> unat pow10 \<le> unat p1) s n (digits_num buf * 10 ^ n * 2 ^ s + unat p1 * 2 ^ s + unat p2) (unat delta) buf de
     (digit_gen_integral s p2 delta dst buf de p1 pow10 n)"
  using assms(4-)
proof (induction n arbitrary: buf p1 pow10)
  case 0
  then have "delta < p2" by (simp add: word_less_nat_alt)
  with 0 generated_fraction [OF assms(1,2) this assms(3)] show ?case
    by (simp add: asserting_holds)
next
  case (Suc n)
  define d where "d = unat p1 div 10 ^ n"
  define r where "r = p1 mod pow10"
  have pow: "unat pow10 = 10 ^ n" using Suc.prems by simp
  then have "pow10 \<noteq> 0" by auto
  have d: "unat (p1 div pow10) = d" by (simp add: d_def unat_div_distrib pow)
  have r: "unat r = unat p1 mod 10 ^ n" by (simp add: r_def unat_mod_distrib pow)
  have split: "unat p1 = d * 10 ^ n + unat r" unfolding d_def r by (rule div_mult_mod_eq [symmetric])
  have "d < 10" using Suc.prems(1) by (simp add: d_def div_less_iff_less_mult)
  then have d9: "p1 div pow10 \<le> 9" by (simp add: word_le_nat_alt d)
  have P: "unat p1 * 2 ^ s + unat p2 = d * (10 ^ n * 2 ^ s) + (unat r * 2 ^ s + unat p2)"
    by (simp add: split algebra_simps)
  have sr: "unat (push_bit s (ucast r) :: u64) = unat r * 2 ^ s"
    using P Suc.prems(4) assms(1) by (intro push_bit_of_nat) simp_all
  then have rest: "unat (push_bit s (ucast r) + p2) = unat r * 2 ^ s + unat p2"
    using P Suc.prems(3,4) by (subst unat_add_small) simp_all
  have ten: "unat (push_bit s (ucast pow10) :: u64) = 10 ^ n * 2 ^ s"
    using Suc.prems(5) assms(1) by (subst push_bit_of_nat) (simp_all add: pow)
  have lead: "unat pow10 \<le> unat p1 \<longrightarrow> digit_char (d - j) \<noteq> CHR ''0''" if "j < d" for j
  proof -
    have "d - j < 36" using \<open>d < 10\<close> by simp
    from digit_char_inj [OF this, of 0] that show ?thesis by auto
  qed
  have d0: "unat pow10 \<le> unat p1 \<longrightarrow> 0 < d" using pow by (simp add: d_def div_greater_zero_iff)
  show ?case
  proof (cases "push_bit s (ucast r) + p2 \<le> delta")
    case True
    have "0 < (push_bit s (ucast pow10) :: u64)" by (simp add: word_less_nat_alt ten)
    moreover have "unat delta < unat (push_bit s (ucast r) + p2) + d * unat (push_bit s (ucast pow10) :: u64)"
      using Suc.prems(3) unfolding rest ten P by simp
    ultimately obtain j where j: "j < d"
      "grisu2_round (buf @ [digit_char d]) dst delta (push_bit s (ucast r) + p2) (push_bit s (ucast pow10))
        = Inr (buf @ [digit_char (d - j)])"
      "unat r * 2 ^ s + unat p2 + j * (10 ^ n * 2 ^ s) \<le> unat delta"
      using grisu2_round_result [OF \<open>d < 10\<close> True assms(3), of "push_bit s (ucast pow10)" buf]
      unfolding rest ten by blast
    define rest' where "rest' = unat r * 2 ^ s + unat p2 + j * (10 ^ n * 2 ^ s)"
    have "digits_num (buf @ [digit_char (d - j)]) + j = digits_num buf * 10 + d"
      using j(1) \<open>d < 10\<close> by (simp add: digits_num_snoc)
    from arg_cong [OF this, of "\<lambda>x. x * (10 ^ n * 2 ^ s)"]
    have "digits_num (buf @ [digit_char (d - j)]) * 10 ^ n * 2 ^ s + rest'
        = digits_num buf * 10 ^ Suc n * 2 ^ s + unat p1 * 2 ^ s + unat p2"
      by (simp add: rest'_def split algebra_simps)
    from arg_cong [OF this, of "of_nat :: nat \<Rightarrow> rat"]
    have eq: "of_nat (digits_num (buf @ [digit_char (d - j)])) * 10 powi int n * 2 ^ s + of_nat rest'
        = (of_nat (digits_num buf * 10 ^ Suc n * 2 ^ s + unat p1 * 2 ^ s + unat p2) :: rat)"
      by (simp add: algebra_simps)
    have "unat p1 * 2 ^ s + unat p2 < (unat p1 + 1) * 2 ^ s" using assms(2) by simp
    also have "\<dots> \<le> 10 ^ Suc n * 2 ^ s" using Suc.prems(1) by (intro mult_le_mono1) simp
    finally have "unat delta < 10 ^ Suc n * 2 ^ s" using Suc.prems(3) by simp
    then have "(of_nat (unat delta) :: rat) < of_nat (10 ^ Suc n * 2 ^ s)" by (simp only: of_nat_less_iff)
    then have bound: "of_nat (unat delta) < 10 powi (int n + 1) * (2 ^ s :: rat)"
      by (simp add: power_int_add)
    have "digit_gen_integral s p2 delta dst buf de p1 pow10 (Suc n) = Inr (buf @ [digit_char (d - j)], de + int n)"
      using True j(2) d9 \<open>pow10 \<noteq> 0\<close> by (simp add: Let_def d r_def)
    moreover have "(of_nat rest' :: rat) \<le> of_nat (unat delta)" using j(3) unfolding rest'_def by (rule of_nat_mono)
    ultimately show ?thesis
      unfolding generated_def using j(1) \<open>d < 10\<close> eq bound lead [OF j(1)]
      by (intro exI [of _ "[digit_char (d - j)]"] exI [of _ "int n"] exI [of _ "of_nat rest'"])
        (simp add: digits_text_def is_digit_digit_char)
  next
    case False
    have "unat r < 10 ^ n" by (simp add: r)
    moreover have "n = 0 \<or> unat (pow10 div 10) = 10 ^ (n - 1)"
      by (cases n) (simp_all add: unat_div_distrib pow)
    moreover have "unat delta < unat r * 2 ^ s + unat p2"
      using False by (simp add: word_le_nat_alt rest)
    moreover have "unat r * 2 ^ s + unat p2 < 2 ^ 64" using P Suc.prems(4) by simp
    moreover have "n = 0 \<or> 10 ^ (n - 1) * 2 ^ s < (2 :: nat) ^ 64"
    proof (cases n)
      case (Suc k)
      then have "10 ^ (n - 1) * 2 ^ s \<le> 10 ^ n * (2 :: nat) ^ s" by simp
      also have "\<dots> < 2 ^ 64" using Suc.prems(5) by simp
      finally show ?thesis ..
    qed simp
    ultimately have "generated (0 < n \<and> unat (pow10 div 10) \<le> unat r) s n (digits_num (buf @ [digit_char d]) * 10 ^ n * 2 ^ s + unat r * 2 ^ s + unat p2)
        (unat delta) (buf @ [digit_char d]) de
        (digit_gen_integral s p2 delta dst (buf @ [digit_char d]) de r (pow10 div 10) n)"
      by (rule Suc.IH)
    moreover have "digits_num (buf @ [digit_char d]) * 10 ^ n * 2 ^ s + unat r * 2 ^ s + unat p2
        = digits_num buf * 10 ^ Suc n * 2 ^ s + unat p1 * 2 ^ s + unat p2"
      using \<open>d < 10\<close> by (simp add: digits_num_snoc split algebra_simps)
    moreover have "digit_gen_integral s p2 delta dst buf de p1 pow10 (Suc n)
        = digit_gen_integral s p2 delta dst (buf @ [digit_char d]) de r (pow10 div 10) n"
      using False d9 \<open>pow10 \<noteq> 0\<close> by (simp add: Let_def d r_def)
    moreover have "0 < Suc n \<and> unat pow10 \<le> unat p1 \<longrightarrow> digit_char d \<noteq> CHR ''0''"
      using lead [of 0] d0 by simp
    ultimately show ?thesis
      using generated_snoc is_digit_digit_char [OF \<open>d < 10\<close>] by metis
  qed
qed


lemma find_largest_pow10_result:
  assumes "0 < p1" "find_largest_pow10 p1 = (k, pow10)"
  shows "0 < k" "k \<le> 10" "unat pow10 = 10 ^ (k - 1)" "unat pow10 \<le> unat p1" "unat p1 < 10 ^ k"
proof -
  have "unat p1 < 2 ^ 32" using unsigned_less [of p1, where 'a = nat] by simp
  then have "0 < k \<and> k \<le> 10 \<and> unat pow10 = 10 ^ (k - 1) \<and> unat pow10 \<le> unat p1 \<and> unat p1 < 10 ^ k"
    using assms by (auto simp: find_largest_pow10_def word_le_nat_alt word_less_nat_alt split: if_splits)
  then show "0 < k" "k \<le> 10" "unat pow10 = 10 ^ (k - 1)" "unat pow10 \<le> unat p1" "unat p1 < 10 ^ k" by simp_all
qed

definition scaled_value :: "nat \<Rightarrow> string \<Rightarrow> int \<Rightarrow> rat" where
  "scaled_value s t e = of_nat (digits_num t) * 10 powi e * 2 ^ s"

lemma grisu2_digit_gen_result:
  assumes "- 60 \<le> E" "E \<le> - 32" "diy_e w = E" "diy_e M_minus = E" "diy_e M_plus = E"
    "0 < diy_f M_minus" "diy_f M_minus \<le> diy_f w" "diy_f w \<le> diy_f M_plus"
    "2 ^ nat (- E) \<le> unat (diy_f M_plus)"
  shows "\<exists>t e. grisu2_digit_gen de M_minus w M_plus = Inr (t, de + e)
    \<and> digits_text t \<and> t \<noteq> [] \<and> hd t \<noteq> CHR ''0'' \<and> 1 \<le> int (length t) + e \<and> int (length t) + e \<le> 10
    \<and> of_nat (unat (diy_f M_minus)) \<le> scaled_value (nat (- E)) t e
    \<and> scaled_value (nat (- E)) t e \<le> of_nat (unat (diy_f M_plus))
    \<and> (of_nat (unat (diy_f M_plus)) - of_nat (unat (diy_f M_minus))) * 10 powi (int (length t) - 2)
        < (of_nat (unat (diy_f M_plus)) :: rat)"
proof -
  define s where "s = nat (- E)"
  have s: "s \<le> 60" "32 \<le> s" using assms(1,2) by (simp_all add: s_def)
  define M Mm W where M: "M = unat (diy_f M_plus)" "Mm = unat (diy_f M_minus)" "W = unat (diy_f w)"
  have M64: "M < 2 ^ 64" using unsigned_less [of "diy_f M_plus", where 'a = nat] by (simp add: M)
  have le: "0 < Mm" "Mm \<le> W" "W \<le> M"
    using assms(6-8) by (simp_all add: M word_le_nat_alt word_less_nat_alt)
  define delta dst where d: "delta = diy_f M_plus - diy_f M_minus" "dst = diy_f M_plus - diy_f w"
  have dn: "unat delta = M - Mm" "unat dst = M - W"
    using assms(7,8) by (simp_all add: d M unat_sub)
  then have dd: "dst \<le> delta" using le by (simp add: word_le_nat_alt)
  define p1 where "p1 = (ucast (drop_bit s (diy_f M_plus)) :: u32)"
  define p2 where "p2 = diy_f M_plus AND (push_bit s 1 - 1)"
  have p2: "unat p2 = M mod 2 ^ s" using s unfolding p2_def unat_low_bits M by simp
  have "M div 2 ^ s \<le> M div 2 ^ 32" using s(2) by (intro div_le_mono2 power_increasing) simp_all
  also have "\<dots> < 2 ^ 32" using M64 by (simp add: div_less_iff_less_mult)
  finally have "M div 2 ^ s < 2 ^ 32" .
  moreover have "unat p1 = take_bit 32 (M div 2 ^ s)"
    unfolding p1_def by (simp only: unsigned_ucast_eq unat_drop_bit M len_num0 len_bit0 len_num1) simp
  ultimately have p1: "unat p1 = M div 2 ^ s" by (simp add: take_bit_nat_eq_self)
  have split: "unat p1 * 2 ^ s + unat p2 = M" unfolding p1 p2 by (rule div_mult_mod_eq)
  have "0 < unat p1" using assms(9) by (simp add: p1 M s_def div_greater_zero_iff)
  then have p1_pos: "0 < p1" by (simp add: word_less_nat_alt)
  obtain k pow10 where k: "find_largest_pow10 p1 = (k, pow10)" by fastforce
  note pow = find_largest_pow10_result [OF p1_pos k]
  have M10: "10 ^ (k - 1) * 2 ^ s \<le> M"
  proof -
    have "10 ^ (k - 1) * 2 ^ s \<le> unat p1 * 2 ^ s" using pow(3,4) by (intro mult_le_mono1) simp
    also have "\<dots> \<le> unat p1 * 2 ^ s + unat p2" by (rule le_add1)
    finally show ?thesis unfolding split .
  qed
  have "generated (0 < k \<and> unat pow10 \<le> unat p1) s k
      (digits_num [] * 10 ^ k * 2 ^ s + unat p1 * 2 ^ s + unat p2) (unat delta) [] de
      (digit_gen_integral s p2 delta dst [] de p1 pow10 k)"
    using s dd pow M10 M64 split le
    by (intro generated_integral) (simp_all add: p2 dn)
  then have "generated True s k M (M - Mm) [] de (digit_gen_integral s p2 delta dst [] de p1 pow10 k)"
    using pow split by (simp add: dn)
  then obtain t e rest where t: "digit_gen_integral s p2 delta dst [] de p1 pow10 k = Inr (t, de + e)"
    "digits_text t" "t \<noteq> []" "hd t \<noteq> CHR ''0''" "int (length t) = int k - e"
    "of_nat (digits_num t) * 10 powi e * 2 ^ s + rest = (of_nat M :: rat)"
    "0 \<le> rest" "rest \<le> of_nat (M - Mm)" "of_nat (M - Mm) < 10 powi (e + 1) * (2 ^ s :: rat)"
    unfolding generated_def by auto
  have gen: "grisu2_digit_gen de M_minus w M_plus = Inr (t, de + e)"
    using assms p1_pos k t(1)
    by (simp add: grisu2_digit_gen_def kAlpha_def kGamma_def diyfp_sub_def asserting_holds d p1_def p2_def s_def
        word_le_nat_alt Let_def)
  have "(of_nat (M - Mm) :: rat) * 10 powi (int (length t) - 2)
      < 10 powi (e + 1) * 2 ^ s * 10 powi (int (length t) - 2)"
    using t(9) by (intro mult_strict_right_mono) simp_all
  also have "\<dots> = 10 powi (e + 1 + (int (length t) - 2)) * 2 ^ s"
    by (subst power_int_add [of _ "e + 1"]) simp_all
  also have "e + 1 + (int (length t) - 2) = int (k - 1)" using t(5) pow(1) by simp
  also have "(10 :: rat) powi int (k - 1) * 2 ^ s = of_nat (10 ^ (k - 1) * 2 ^ s)" by simp
  also have "\<dots> \<le> of_nat M" using M10 by (rule of_nat_mono)
  finally have "(of_nat (M - Mm) :: rat) * 10 powi (int (length t) - 2) < of_nat M" .
  moreover have "(of_nat (M - Mm) :: rat) = of_nat M - of_nat Mm" using le by simp
  ultimately show ?thesis
    using gen t(2-8) pow(1,2) unfolding scaled_value_def s_def [symmetric] M [symmetric]
    by (intro exI [of _ t] exI [of _ e]) simp
qed

end
