(* ===== verification/Json_Float_Scaling.thy ===== *)
theory Json_Float_Scaling
  imports Json_Float_Digits
begin

text \<open>
  From a double to the scaled boundaries of Grisu2: every entry of \<open>kCachedPowers\<close> is the nearest 64-bit
  significand to its power of ten and the right one is chosen, \<open>compute_boundaries\<close> returns the midpoints to
  the neighbouring doubles, and \<open>grisu2\<close> passes all its assertions and generates at most 17 digits of a
  number strictly between the midpoints.
\<close>

unbundle bit_operations_syntax

section \<open>The table of powers of ten\<close>

fun table_steps :: "int \<Rightarrow> cached_power list \<Rightarrow> bool" where
  "table_steps k [] = True"
| "table_steps k (c # cs) =
     (cp_k c = k \<and> 78913 * (cp_e c + 34) < (k - 8) * 2 ^ 18 \<and> k * 2 ^ 18 < 78913 * (cp_e c + 64)
      \<and> 2 ^ 63 \<le> uint (cp_f c) \<and> table_steps (k + 8) cs)"

fun negative_powers :: "int \<Rightarrow> nat \<Rightarrow> cached_power list \<Rightarrow> bool" where
  "negative_powers p m [] = True"
| "negative_powers p m (c # cs) =
     (cp_k c = - int m \<and> m \<le> nat (- cp_e c) \<and> 2 * \<bar>uint (cp_f c) * p - 2 ^ (nat (- cp_e c) - m)\<bar> \<le> p
      \<and> negative_powers (p * 390625) (m + 8) cs)"

fun positive_powers :: "int \<Rightarrow> nat \<Rightarrow> cached_power list \<Rightarrow> bool" where
  "positive_powers p m [] = True"
| "positive_powers p m (c # cs) =
     (cp_k c = int m
      \<and> 2 * \<bar>uint (cp_f c) * 2 ^ nat (cp_e c - int m) - p * 2 ^ nat (int m - cp_e c)\<bar> \<le> 2 ^ nat (cp_e c - int m)
      \<and> positive_powers (p * 390625) (m + 8) cs)"

lemma table_steps_cached: "table_steps (- 300) kCachedPowers"
  unfolding kCachedPowers_def by code_simp

lemma length_cached: "length kCachedPowers = 79"
  unfolding kCachedPowers_def by simp

definition accurate :: "cached_power \<Rightarrow> bool" where
  "accurate c \<longleftrightarrow> 2 * \<bar>of_int (uint (cp_f c)) * 2 powi cp_e c - 10 powi cp_k c\<bar> \<le> (2 powi cp_e c :: rat)"

lemma scaled_abs_le:
  fixes a b c q :: rat
  assumes "2 * \<bar>a - b\<bar> \<le> c" "0 < q"
  shows "2 * \<bar>a * q - b * q\<bar> \<le> c * q"
proof -
  have "2 * \<bar>a * q - b * q\<bar> = 2 * \<bar>a - b\<bar> * q"
    using assms(2) by (simp add: abs_mult flip: left_diff_distrib)
  then show ?thesis using assms by (simp add: mult_right_mono)
qed

lemma negative_powers_accurate:
  "negative_powers p m cs \<Longrightarrow> p = 5 ^ m \<Longrightarrow> 0 < m \<Longrightarrow> c \<in> set cs \<Longrightarrow> accurate c"
proof (induction p m cs rule: negative_powers.induct)
  case (2 p m c' cs)
  show ?case
  proof (cases "c = c'")
    case True
    define n where "n = nat (- cp_e c)"
    have h: "cp_k c = - int m" "m \<le> n" "2 * \<bar>uint (cp_f c) * 5 ^ m - 2 ^ (n - m)\<bar> \<le> 5 ^ m"
      using 2 True by (simp_all add: n_def)
    have e: "cp_e c = - int n" using h(2) 2(4) by (simp add: n_def)
    have "2 * \<bar>of_int (uint (cp_f c)) * 5 ^ m - 2 ^ (n - m)\<bar> \<le> (5 ^ m :: rat)"
      using h(3) by (simp flip: of_int_le_iff [where 'a = rat])
    then have "2 * \<bar>of_int (uint (cp_f c)) * 5 ^ m * (1 / (2 ^ n * 5 ^ m)) - 2 ^ (n - m) * (1 / (2 ^ n * 5 ^ m))\<bar>
        \<le> (5 ^ m :: rat) * (1 / (2 ^ n * 5 ^ m))"
      by (rule scaled_abs_le) simp
    moreover have "of_int (uint (cp_f c)) * 5 ^ m * (1 / (2 ^ n * 5 ^ m)) = of_int (uint (cp_f c)) * (2 powi cp_e c :: rat)"
      by (simp add: e power_int_minus field_simps)
    moreover have "2 ^ (n - m) * (1 / (2 ^ n * 5 ^ m)) = (10 powi cp_k c :: rat)"
    proof -
      have "(2 :: rat) ^ n = 2 ^ (n - m) * 2 ^ m" using h(2) by (simp flip: power_add)
      moreover have "(10 :: rat) ^ m = 2 ^ m * 5 ^ m" by (simp flip: power_mult_distrib)
      ultimately show ?thesis by (simp add: h(1) power_int_minus field_simps)
    qed
    moreover have "5 ^ m * (1 / (2 ^ n * 5 ^ m)) = (2 powi cp_e c :: rat)"
      by (simp add: e power_int_minus field_simps)
    ultimately show ?thesis unfolding accurate_def by simp
  next
    case False
    with 2 show ?thesis by (simp add: power_add)
  qed
qed simp

lemma positive_powers_accurate:
  "positive_powers p m cs \<Longrightarrow> p = 5 ^ m \<Longrightarrow> c \<in> set cs \<Longrightarrow> accurate c"
proof (induction p m cs rule: positive_powers.induct)
  case (2 p m c' cs)
  show ?case
  proof (cases "c = c'")
    case True
    define a b where ab: "a = nat (cp_e c - int m)" "b = nat (int m - cp_e c)"
    have h: "cp_k c = int m" "2 * \<bar>uint (cp_f c) * 2 ^ a - 5 ^ m * 2 ^ b\<bar> \<le> 2 ^ a"
      using 2 True by (simp_all add: ab)
    have "cp_e c = int m + int a - int b" by (simp add: ab)
    then have e: "(2 :: rat) powi cp_e c = 2 ^ m * 2 ^ a / 2 ^ b" by (simp add: power_int_diff power_int_add)
    have "2 * \<bar>of_int (uint (cp_f c)) * 2 ^ a - 5 ^ m * 2 ^ b\<bar> \<le> (2 ^ a :: rat)"
      using h(2) by (simp flip: of_int_le_iff [where 'a = rat])
    then have "2 * \<bar>of_int (uint (cp_f c)) * 2 ^ a * (2 ^ m / 2 ^ b) - 5 ^ m * 2 ^ b * (2 ^ m / 2 ^ b)\<bar>
        \<le> (2 ^ a :: rat) * (2 ^ m / 2 ^ b)"
      by (rule scaled_abs_le) simp
    moreover have "(10 :: rat) ^ m = 2 ^ m * 5 ^ m" by (simp flip: power_mult_distrib)
    ultimately show ?thesis unfolding accurate_def e h(1) by (simp add: field_simps)
  next
    case False
    with 2 show ?thesis by (simp add: power_add)
  qed
qed simp

lemma negative_powers_cached: "negative_powers 625 4 (rev (take 38 kCachedPowers))"
  unfolding kCachedPowers_def by code_simp

lemma positive_powers_cached: "positive_powers 625 4 (drop 38 kCachedPowers)"
  unfolding kCachedPowers_def by code_simp

lemma cached_accurate: "c \<in> set kCachedPowers \<Longrightarrow> accurate c"
proof -
  assume c: "c \<in> set kCachedPowers"
  have "set kCachedPowers = set (take 38 kCachedPowers @ drop 38 kCachedPowers)" by simp
  then have "c \<in> set (rev (take 38 kCachedPowers)) \<or> c \<in> set (drop 38 kCachedPowers)"
    using c by (simp only: set_append set_rev Un_iff)
  then show ?thesis
    using negative_powers_accurate [OF negative_powers_cached] positive_powers_accurate [OF positive_powers_cached]
    by auto
qed

lemma table_steps_nth:
  "table_steps k cs \<Longrightarrow> i < length cs \<Longrightarrow>
     cp_k (cs ! i) = k + 8 * int i \<and> 78913 * (cp_e (cs ! i) + 34) < (k + 8 * int i - 8) * 2 ^ 18
     \<and> (k + 8 * int i) * 2 ^ 18 < 78913 * (cp_e (cs ! i) + 64) \<and> 2 ^ 63 \<le> uint (cp_f (cs ! i))"
proof (induction k cs arbitrary: i rule: table_steps.induct)
  case (2 k c cs)
  then show ?case by (cases i) (auto simp: algebra_simps)
qed simp

lemma sdiv_nonneg: "0 \<le> a \<Longrightarrow> 0 < b \<Longrightarrow> a sdiv b = a div (b :: int)"
  by (cases "a = 0") (simp_all add: signed_divide_int_def sgn_if)

lemma sdiv_neg: "a \<le> 0 \<Longrightarrow> 0 < b \<Longrightarrow> a sdiv b = - (- a div (b :: int))"
  by (cases "a = 0") (simp_all add: signed_divide_int_def sgn_if)

lemma scaled_log_bounds:
  fixes f :: int
  defines "k \<equiv> (f * 78913) sdiv 2 ^ 18 + (if 0 < f then 1 else 0)"
  shows "(k - 1) * 262144 \<le> f * 78913" "f * 78913 \<le> k * 262144"
proof -
  have q: "262144 * (x div 262144) \<le> x" "x < 262144 * (x div 262144) + 262144" for x :: int by linarith+
  have "(k - 1) * 262144 \<le> f * 78913 \<and> f * 78913 \<le> k * 262144"
  proof (cases "0 < f")
    case True
    then have "k - 1 = (f * 78913) div 262144" by (simp add: k_def sdiv_nonneg)
    then show ?thesis using q [of "f * 78913"] by (simp add: algebra_simps)
  next
    case False
    then have "k = - (- (f * 78913) div 262144)" by (simp add: k_def sdiv_neg)
    then show ?thesis using q [of "- (f * 78913)"] by (simp add: algebra_simps)
  qed
  then show "(k - 1) * 262144 \<le> f * 78913" "f * 78913 \<le> k * 262144" by simp_all
qed

lemma get_cached_power_result:
  assumes "- 1137 \<le> e" "e \<le> 960"
  shows "\<exists>c \<in> set kCachedPowers. get_cached_power_for_binary_exponent e = Inr c
    \<and> - 60 \<le> cp_e c + e + 64 \<and> cp_e c + e + 64 \<le> - 32 \<and> 2 ^ 63 \<le> uint (cp_f c)
    \<and> - 300 \<le> cp_k c \<and> cp_k c \<le> 324"
proof -
  define f where "f = kAlpha - e - 1"
  have f: "f = - 61 - e" by (simp add: f_def kAlpha_def)
  define k where "k = (f * 78913) sdiv 2 ^ 18 + (if 0 < f then 1 else 0)"
  have k: "(k - 1) * 262144 \<le> f * 78913" "f * 78913 \<le> k * 262144"
    unfolding k_def by (rule scaled_log_bounds)+
  then have k_range: "- 307 \<le> k" "k \<le> 324" using assms f by simp_all
  define i where "i = nat ((307 + k) div 8)"
  have index: "(300 + k + (8 - 1)) sdiv 8 = int i" using k_range by (simp add: i_def sdiv_nonneg)
  have i79: "i < 79" and i8: "8 * int i \<le> 307 + k" "307 + k < 8 * int i + 8" using k_range unfolding i_def by linarith+
  define c where "c = kCachedPowers ! i"
  have c: "78913 * (cp_e c + 34) < (- 300 + 8 * int i - 8) * 2 ^ 18"
    "(- 300 + 8 * int i) * 2 ^ 18 < 78913 * (cp_e c + 64)" "2 ^ 63 \<le> uint (cp_f c)"
    "cp_k c = - 300 + 8 * int i"
    using table_steps_nth [OF table_steps_cached, of i] i79 unfolding length_cached c_def by blast+
  have range: "- 60 \<le> cp_e c + e + 64" "cp_e c + e + 64 \<le> - 32"
    using c(1,2) k i8 f by simp_all
  have "get_cached_power_for_binary_exponent e = Inr c"
    using assms range i79 unfolding get_cached_power_for_binary_exponent_def Let_def f_def [symmetric] k_def [symmetric]
      index c_def by (simp add: asserting_holds kAlpha_def kGamma_def)
  moreover have "c \<in> set kCachedPowers" using i79 by (simp add: c_def length_cached)
  moreover have "- 300 \<le> cp_k c" "cp_k c \<le> 324" using c(4) i79 by simp_all
  ultimately show ?thesis using range c(3) by blast
qed

section \<open>Normalization\<close>

lemma normalize_loop_shift:
  "2 ^ 63 \<le> unat f * 2 ^ z \<Longrightarrow> unat f * 2 ^ z < 2 ^ 64
   \<Longrightarrow> normalize_loop f e = Some (Diyfp (of_nat (unat f * 2 ^ z)) (e - int z))"
proof (induction z arbitrary: f e)
  case 0
  then have "unat (drop_bit 63 f) \<noteq> 0" by (simp add: unat_drop_bit div_greater_zero_iff)
  then have "drop_bit 63 f \<noteq> 0" by auto
  with 0 show ?case by (subst normalize_loop.simps) simp
next
  case (Suc z)
  have "unat f * 2 * 2 ^ z < 2 ^ 64" using Suc.prems(2) by simp
  moreover have "unat f * 2 * 1 \<le> unat f * 2 * 2 ^ z" by (rule mult_le_mono2) simp
  ultimately have "unat f * 2 * 1 < 2 ^ 64" by (rule le_less_trans [rotated])
  then have "unat f * 2 < 2 ^ 64" by (simp only: mult_1_right)
  then have d: "unat (push_bit 1 f) = unat f * 2" "unat f < 2 ^ 63"
    by (simp_all add: push_bit_eq_mult unat_mult_small)
  then have "unat (drop_bit 63 f) = 0" by (simp add: unat_drop_bit)
  then have "drop_bit 63 f = 0" by (simp add: unat_eq_zero)
  moreover have "normalize_loop (push_bit 1 f) (e - 1)
      = Some (Diyfp (of_nat (unat (push_bit 1 f) * 2 ^ z)) (e - 1 - int z))"
    using Suc.prems by (intro Suc.IH) (simp_all only: d power_Suc mult.assoc)
  ultimately show ?case by (subst normalize_loop.simps) (simp add: d mult.assoc)
qed

lemma normalizing_shift:
  fixes n :: nat
  assumes "0 < n" "n < 2 ^ 64"
  shows "\<exists>z. 2 ^ 63 \<le> n * 2 ^ z \<and> n * 2 ^ z < 2 ^ 64 \<and> z \<le> 63"
proof -
  obtain b where b: "2 ^ b \<le> n" "n < 2 ^ (b + 1)" using ex_power_ivl1 [of 2 n] assms(1) by auto
  have "b \<le> 63"
  proof (rule ccontr)
    assume "\<not> b \<le> 63"
    then have "(2 :: nat) ^ 64 \<le> 2 ^ b" by (intro power_increasing) simp_all
    with b(1) assms(2) show False by simp
  qed
  then have "(2 :: nat) ^ 63 = 2 ^ b * 2 ^ (63 - b)" "(2 :: nat) ^ 64 = 2 ^ (b + 1) * 2 ^ (63 - b)"
    by (simp_all flip: power_add)
  then have "2 ^ 63 \<le> n * 2 ^ (63 - b)" "n * 2 ^ (63 - b) < 2 ^ 64"
    using b by (simp_all only: mult_le_mono1 mult_less_mono1 zero_less_power zero_less_numeral)
  then show ?thesis by (intro exI [of _ "63 - b"]) simp
qed

lemma diyfp_normalize_result:
  assumes "2 ^ 63 \<le> unat f * 2 ^ z" "unat f * 2 ^ z < 2 ^ 64"
  shows "diyfp_normalize (Diyfp f e) = Inr (Diyfp (of_nat (unat f * 2 ^ z)) (e - int z))"
proof -
  have "unat f \<noteq> 0" using assms(1) by (metis mult_0 not_less zero_less_numeral zero_less_power)
  then have "f \<noteq> 0" by auto
  then show ?thesis by (simp add: diyfp_normalize_def normalize_loop_shift [OF assms])
qed

lemma push_bit_small: "unat (f :: u64) * 2 ^ k < 2 ^ 64 \<Longrightarrow> unat (push_bit k f) = unat f * 2 ^ k"
  by (simp only: unsigned_push_bit_eq len_num0 len_bit0 len_num1) (simp add: push_bit_eq_mult take_bit_nat_eq_self)

lemma diyfp_normalize_to_result:
  assumes "k < 64" "unat f * 2 ^ k < 2 ^ 64"
  shows "diyfp_normalize_to (Diyfp f (t + int k)) t = Inr (Diyfp (of_nat (unat f * 2 ^ k)) t)"
proof -
  have "unat (drop_bit k (push_bit k f)) = unat f"
    by (simp add: unat_drop_bit push_bit_small [OF assms(2)])
  then have "drop_bit k (push_bit k f) = f" by (simp only: word_unat_eq_iff)
  moreover have "push_bit k f = of_nat (unat f * 2 ^ k)"
    using push_bit_small [OF assms(2)] by (metis of_nat_unat ucast_id)
  ultimately show ?thesis using assms(1) by (simp add: diyfp_normalize_to_def Let_def)
qed

section \<open>The value of a double\<close>

definition exponent_bits :: "u64 \<Rightarrow> nat" where
  "exponent_bits x = unat x div 2 ^ 52 mod 2 ^ 11"

definition fraction_bits :: "u64 \<Rightarrow> nat" where
  "fraction_bits x = unat x mod 2 ^ 52"

definition significand :: "u64 \<Rightarrow> nat" where
  "significand x = (if exponent_bits x = 0 then fraction_bits x else fraction_bits x + 2 ^ 52)"

definition binary_exponent :: "u64 \<Rightarrow> int" where
  "binary_exponent x = (if exponent_bits x = 0 then - 1074 else int (exponent_bits x) - 1075)"

definition double_value :: "u64 \<Rightarrow> rat" where
  "double_value x = (if signbit x then - 1 else 1) * of_nat (significand x) * 2 powi binary_exponent x"

lemma isfinite_iff: "isfinite x \<longleftrightarrow> exponent_bits x \<noteq> 2047"
proof -
  have "drop_bit 52 x AND mask 11 = take_bit 11 (drop_bit 52 x)" by (simp only: take_bit_eq_mask)
  then have "unat (drop_bit 52 x AND mask 11) = take_bit 11 (unat (drop_bit 52 x))"
    by (simp only: unsigned_take_bit_eq)
  then have "unat (drop_bit 52 x AND 0x7FF) = exponent_bits x"
    by (simp add: exponent_bits_def mask_eq_exp_minus_1 take_bit_eq_mod unat_drop_bit)
  then have "drop_bit 52 x AND 0x7FF = 0x7FF \<longleftrightarrow> exponent_bits x = 2047"
    by (simp add: word_unat_eq_iff)
  then show ?thesis by (simp add: isfinite_def)
qed

lemma signbit_iff: "signbit x \<longleftrightarrow> 2 ^ 63 \<le> unat x"
proof -
  have "unat x < 2 ^ 64" using unsigned_less [of x, where 'a = nat] by simp
  then have "unat x div 2 ^ 63 < 2" by (simp add: div_less_iff_less_mult)
  moreover have "signbit x \<longleftrightarrow> unat x div 2 ^ 63 = 1"
    by (simp add: signbit_def word_unat_eq_iff unat_drop_bit)
  moreover have "2 ^ 63 \<le> unat x \<longleftrightarrow> 0 < unat x div 2 ^ 63" by (simp only: div_greater_zero_iff) simp
  ultimately show ?thesis by linarith
qed

lemma fraction_bits_less: "fraction_bits x < 2 ^ 52"
  by (simp add: fraction_bits_def)

lemma exponent_bits_less: "exponent_bits x < 2048"
  by (simp add: exponent_bits_def)

lemma significand_less: "significand x < 2 ^ 53"
  using fraction_bits_less [of x] by (simp add: significand_def)

lemma significand_normal: "exponent_bits x \<noteq> 0 \<Longrightarrow> 2 ^ 52 \<le> significand x"
  by (simp add: significand_def)

lemma binary_exponent_range:
  "isfinite x \<Longrightarrow> - 1074 \<le> binary_exponent x \<and> binary_exponent x \<le> 971"
  using exponent_bits_less [of x] by (auto simp: binary_exponent_def isfinite_iff)

lemma significand_positive:
  assumes "\<not> signbit x" "x \<noteq> 0"
  shows "0 < significand x"
proof (rule ccontr)
  assume "\<not> 0 < significand x"
  then have z: "exponent_bits x = 0" "fraction_bits x = 0" by (auto simp: significand_def split: if_splits)
  have "unat x div 2 ^ 52 < 2 ^ 11" using assms(1) by (simp add: signbit_iff div_less_iff_less_mult)
  then have "unat x div 2 ^ 52 = 0" using z(1) by (simp add: exponent_bits_def)
  then have "unat x = 0" using z(2) by (simp add: fraction_bits_def)
  then show False using assms(2) by (simp add: word_unat_eq_iff)
qed

definition boundary_closer :: "u64 \<Rightarrow> bool" where
  "boundary_closer x \<longleftrightarrow> fraction_bits x = 0 \<and> 1 < exponent_bits x"

lemma power_split: "2 ^ z = 2 * (2 :: nat) ^ (z - 1)" "2 ^ z = 4 * (2 :: nat) ^ (z - 2)" if "2 \<le> z"
proof -
  have a: "(2 :: nat) ^ z = 2 ^ 1 * 2 ^ (z - 1)" and b: "(2 :: nat) ^ z = 2 ^ 2 * 2 ^ (z - 2)"
    using that by (metis le_add_diff_inverse power_add one_le_numeral order_trans)+
  show "2 ^ z = 2 * (2 :: nat) ^ (z - 1)" unfolding a by simp
  show "2 ^ z = 4 * (2 :: nat) ^ (z - 2)" unfolding b by simp
qed

lemma compute_boundaries_result:
  assumes "isfinite x" "\<not> signbit x" "x \<noteq> 0"
  shows "\<exists>z W Wm Wp. 11 \<le> z \<and> z \<le> 63
    \<and> compute_boundaries x = Inr \<lparr>bd_w = Diyfp W (binary_exponent x - int z),
        bd_minus = Diyfp Wm (binary_exponent x - int z), bd_plus = Diyfp Wp (binary_exponent x - int z)\<rparr>
    \<and> unat W = significand x * 2 ^ z \<and> 2 ^ 63 \<le> unat W \<and> unat Wp = unat W + 2 ^ (z - 1)
    \<and> unat Wm + (if boundary_closer x then 2 ^ (z - 2) else 2 ^ (z - 1)) = unat W"
proof -
  define f where "f = significand x"
  have f: "0 < f" "f < 2 ^ 53"
    using significand_positive [OF assms(2,3)] significand_less by (simp_all add: f_def)
  obtain z where z: "2 ^ 63 \<le> f * 2 ^ z" "f * 2 ^ z < 2 ^ 64" "z \<le> 63"
    using normalizing_shift [of f] f by auto
  have z11: "11 \<le> z"
  proof (rule ccontr)
    assume "\<not> 11 \<le> z"
    then have "(2 :: nat) ^ z \<le> 2 ^ 10" by (intro power_increasing) simp_all
    then have "f * 2 ^ z < 2 ^ 53 * 2 ^ 10" using f(2) by (intro mult_less_le_imp_less) simp_all
    with z(1) show False by simp
  qed
  have room: "f * 2 ^ z + 2 ^ z \<le> 2 ^ 64"
  proof -
    have p: "(2 :: nat) ^ 64 = 2 ^ (64 - z) * 2 ^ z" using z(3) by (simp flip: power_add)
    have "f < 2 ^ (64 - z)" using z(2) unfolding p by simp
    then have "(f + 1) * 2 ^ z \<le> 2 ^ (64 - z) * 2 ^ z" by (intro mult_le_mono1) simp
    then show ?thesis unfolding p by simp
  qed
  define E where "E = drop_bit (53 - 1) x"
  define F where "F = x AND (kHiddenBit - 1)"
  have "unat x div 2 ^ 52 < 2 ^ 11" using assms(2) by (simp add: signbit_iff div_less_iff_less_mult)
  then have E: "unat E = exponent_bits x" by (simp add: E_def exponent_bits_def unat_drop_bit)
  have F: "unat F = fraction_bits x"
    using unat_low_bits [of x 52] by (simp add: F_def kHiddenBit_def fraction_bits_def)
  define v where "v = (if E = 0 then Diyfp F kMinExp else Diyfp (F + kHiddenBit) (uint E - kBias))"
  have h: "unat kHiddenBit = 2 ^ 52" by (simp add: kHiddenBit_def)
  have E0: "E = 0 \<longleftrightarrow> exponent_bits x = 0" using E by (metis unat_eq_zero)
  have vf: "unat (diy_f v) = f"
    using fraction_bits_less [of x] by (simp add: v_def E0 F f_def significand_def unat_add_small h)
  have ve: "diy_e v = binary_exponent x"
    by (simp add: v_def E0 binary_exponent_def kMinExp_def kBias_def flip: E)
  define m_plus where "m_plus = 2 * diy_f v + 1"
  have mp: "unat m_plus = 2 * f + 1"
    using f(2) by (simp add: m_plus_def unat_add_small unat_mult_small vf)
  have wp: "unat m_plus * 2 ^ (z - 1) = f * 2 ^ z + 2 ^ (z - 1)"
    using power_split(1) [of z] z11 by (simp add: mp algebra_simps)
  have "(2 :: nat) ^ (z - 1) < 2 ^ z" using z11 by (intro power_strict_increasing) simp_all
  then have wp_less: "f * 2 ^ z + 2 ^ (z - 1) < 2 ^ 64" using room by linarith
  define t where "t = binary_exponent x - int z"
  have n_plus: "diyfp_normalize (Diyfp m_plus (diy_e v - 1)) = Inr (Diyfp (of_nat (f * 2 ^ z + 2 ^ (z - 1))) t)"
  proof -
    have "diy_e v - 1 - int (z - 1) = t" using z11 by (simp add: ve t_def)
    then show ?thesis
      using diyfp_normalize_result [of m_plus "z - 1" "diy_e v - 1"] wp_less z(1) unfolding wp by simp
  qed
  have v_eq: "Diyfp (diy_f v) (diy_e v) = v" by simp
  have n_w: "diyfp_normalize v = Inr (Diyfp (of_nat (f * 2 ^ z)) t)"
    using diyfp_normalize_result [of "diy_f v" z "diy_e v"] z
    unfolding v_eq unfolding vf ve t_def by simp
  define m_minus where "m_minus = (if F = 0 \<and> E > 1 then Diyfp (4 * diy_f v - 1) (diy_e v - 2)
                     else Diyfp (2 * diy_f v - 1) (diy_e v - 1))"
  have closer: "F = 0 \<and> E > 1 \<longleftrightarrow> boundary_closer x"
    using F E by (simp add: boundary_closer_def word_less_nat_alt unat_eq_zero [symmetric])
  define g where "g = (if boundary_closer x then 2 ^ (z - 2) else 2 ^ (z - 1) :: nat)"
  have "diyfp_normalize_to m_minus t = Inr (Diyfp (of_nat (f * 2 ^ z - g)) t)"
  proof (cases "boundary_closer x")
    case True
    have "unat (4 * diy_f v - 1) = 4 * f - 1"
      using f by (subst unat_sub) (simp_all add: unat_mult_small vf word_le_nat_alt)
    moreover have "(4 * f - 1) * 2 ^ (z - 2) = f * 2 ^ z - g"
      using True power_split(2) [of z] z11 by (simp add: g_def diff_mult_distrib algebra_simps)
    ultimately have u: "unat (4 * diy_f v - 1) * 2 ^ (z - 2) = f * 2 ^ z - g" by simp
    have "m_minus = Diyfp (4 * diy_f v - 1) (t + int (z - 2))"
      using True z11 unfolding m_minus_def closer by (simp add: ve t_def)
    then show ?thesis
      using diyfp_normalize_to_result [of "z - 2" "4 * diy_f v - 1" t] z(2,3) unfolding u by simp
  next
    case False
    have "unat (2 * diy_f v - 1) = 2 * f - 1"
      using f by (subst unat_sub) (simp_all add: unat_mult_small vf word_le_nat_alt)
    moreover have "(2 * f - 1) * 2 ^ (z - 1) = f * 2 ^ z - g"
      using False power_split(1) [of z] z11 by (simp add: g_def diff_mult_distrib algebra_simps)
    ultimately have u: "unat (2 * diy_f v - 1) * 2 ^ (z - 1) = f * 2 ^ z - g" by simp
    have "m_minus = Diyfp (2 * diy_f v - 1) (t + int (z - 1))"
      using False z11 unfolding m_minus_def closer by (simp add: ve t_def)
    then show ?thesis
      using diyfp_normalize_to_result [of "z - 1" "2 * diy_f v - 1" t] z(2,3) unfolding u by simp
  qed
  then have "compute_boundaries x = Inr \<lparr>bd_w = Diyfp (of_nat (f * 2 ^ z)) t,
      bd_minus = Diyfp (of_nat (f * 2 ^ z - g)) t, bd_plus = Diyfp (of_nat (f * 2 ^ z + 2 ^ (z - 1))) t\<rparr>"
    unfolding compute_boundaries_def Let_def E_def [symmetric] F_def [symmetric] v_def [symmetric]
      m_plus_def [symmetric] m_minus_def [symmetric]
    using assms n_plus n_w by (simp add: asserting_holds)
  moreover have "g \<le> f * 2 ^ z"
  proof -
    have "g \<le> 2 ^ z" using power_split [of z] z11 by (simp add: g_def)
    also have "\<dots> \<le> f * 2 ^ z" using f(1) by simp
    finally show ?thesis .
  qed
  moreover define W Wm Wp where W: "W = (of_nat (f * 2 ^ z) :: u64)"
    "Wm = (of_nat (f * 2 ^ z - g) :: u64)" "Wp = (of_nat (f * 2 ^ z + 2 ^ (z - 1)) :: u64)"
  ultimately have "compute_boundaries x = Inr \<lparr>bd_w = Diyfp W t, bd_minus = Diyfp Wm t, bd_plus = Diyfp Wp t\<rparr>"
    "g \<le> f * 2 ^ z" by blast+
  moreover have "unat W = f * 2 ^ z" "unat Wm = f * 2 ^ z - g" "unat Wp = f * 2 ^ z + 2 ^ (z - 1)"
    unfolding W using z wp_less by (intro unat_of_nat_size, linarith)+
  ultimately show ?thesis
    using z(1,3) z11 unfolding t_def g_def f_def by (intro exI [of _ z] exI [of _ W] exI [of _ Wm] exI [of _ Wp]) simp
qed

section \<open>The scaled boundaries\<close>

definition rounded :: "nat \<Rightarrow> nat" where
  "rounded a = (a + 2 ^ 63) div 2 ^ 64"

lemma rounded_bounds:
  "(of_nat a :: rat) / 2 ^ 64 - 1 / 2 < of_nat (rounded a)" "of_nat (rounded a) \<le> (of_nat a :: rat) / 2 ^ 64 + 1 / 2"
proof -
  have "rounded a * 2 ^ 64 \<le> a + 2 ^ 63" "a + 2 ^ 63 < (rounded a + 1) * 2 ^ 64"
    unfolding rounded_def using dividend_less_times_div [of "2 ^ 64" "a + 2 ^ 63"] by (simp_all add: algebra_simps)
  then have "(of_nat (rounded a * 2 ^ 64) :: rat) \<le> of_nat (a + 2 ^ 63)"
    "(of_nat (a + 2 ^ 63) :: rat) < of_nat ((rounded a + 1) * 2 ^ 64)"
    by (simp_all only: of_nat_le_iff of_nat_less_iff)
  then show "(of_nat a :: rat) / 2 ^ 64 - 1 / 2 < of_nat (rounded a)"
    "of_nat (rounded a) \<le> (of_nat a :: rat) / 2 ^ 64 + 1 / 2"
    by (simp_all add: field_simps)
qed

lemma rounded_near:
  fixes y :: rat
  assumes "a < 2 ^ 64" "\<bar>of_nat C - y\<bar> \<le> 1 / 2"
  shows "\<bar>of_nat (rounded (a * C)) - of_nat a * y / 2 ^ 64\<bar> < 1"
proof -
  have a: "(of_nat a :: rat) < 2 ^ 64"
    using assms(1) by (metis of_nat_less_iff of_nat_numeral of_nat_power)
  have "\<bar>of_nat a * (of_nat C - y)\<bar> \<le> of_nat a * (1 / 2 :: rat)"
    unfolding abs_mult using assms(2) by (intro mult_mono) simp_all
  also have "\<dots> < 2 ^ 64 * (1 / 2)" using a by simp
  finally have "\<bar>of_nat a * of_nat C - of_nat a * y\<bar> < (2 ^ 63 :: rat)" by (simp add: right_diff_distrib)
  with rounded_bounds [of "a * C"] show ?thesis by (simp add: abs_less_iff field_simps)
qed

lemma rounded_gap:
  assumes "a + g \<le> b" "2 ^ 9 \<le> g" "2 ^ 63 \<le> C"
  shows "rounded (a * C) + 1 \<le> rounded (b * C)"
proof -
  have "a * C + g * C \<le> b * C" using assms(1) by (metis distrib_right mult_le_mono1)
  moreover have "2 ^ 9 * 2 ^ 63 \<le> g * C" using assms(2,3) by (rule mult_le_mono)
  ultimately have "a * C + 2 ^ 72 \<le> b * C" by simp
  then have "a * C + 2 ^ 63 + 2 ^ 64 \<le> b * C + 2 ^ 63" by simp
  then have "(a * C + 2 ^ 63 + 2 ^ 64) div 2 ^ 64 \<le> (b * C + 2 ^ 63) div 2 ^ 64" by (rule div_le_mono)
  then show ?thesis by (simp add: rounded_def)
qed

lemma rounded_large:
  assumes "2 ^ 63 \<le> a" "2 ^ 63 \<le> C"
  shows "2 ^ 62 \<le> rounded (a * C)"
proof -
  have "2 ^ 63 * 2 ^ 63 \<le> a * C" using assms by (rule mult_le_mono)
  then have "2 ^ 126 div 2 ^ 64 \<le> (a * C + 2 ^ 63) div 2 ^ 64" by (intro div_le_mono) simp
  then show ?thesis by (simp add: rounded_def)
qed

text \<open>The digits needed: 17, because the interval is wide enough.\<close>

lemma enough_digits_linear:
  fixes mp mm wp wm c :: rat
  assumes "mm \<le> wm + 3 / 2" "wp - 3 / 2 < mp" "mp \<le> wp - 1 / 2" "1 / 2 \<le> c" "wm + 2048 * c \<le> wp"
    "wp \<le> 18446744073709551616 * c"
  shows "mp \<le> (mp - mm) * 10000000000000000"
  using assms by (simp add: algebra_simps)

lemma enough_digits_closer:
  fixes mp mm wp wm c :: rat
  assumes "mm \<le> wm + 3 / 2" "wp - 3 / 2 < mp" "mp \<le> wp - 1 / 2" "1 / 2 \<le> c" "wm + 1536 * c \<le> wp"
    "wp \<le> 9223372036854776832 * c"
  shows "mp \<le> (mp - mm) * 10000000000000000"
  using assms by (simp add: algebra_simps)

lemma enough_digits:
  fixes c :: rat
  assumes "of_nat Mm \<le> of_nat Wm * c + 3 / 2" "of_nat Wp * c - 3 / 2 < of_nat Mp" "of_nat Mp \<le> of_nat Wp * c - 1 / 2"
    "1 / 2 \<le> c" "Wp < 2 ^ 64 \<and> Wm + 2048 \<le> Wp \<or> Wp = 2 ^ 63 + 1024 \<and> Wm + 1536 = Wp"
  shows "of_nat Mp \<le> (of_nat Mp - of_nat Mm) * (10000000000000000 :: rat)"
proof -
  have mult: "(of_nat a :: rat) * c + of_nat b * c \<le> of_nat d * c" if "a + b \<le> d" for a b d
  proof -
    have "(of_nat (a + b) :: rat) \<le> of_nat d" using that by (rule of_nat_mono)
    then have "(of_nat (a + b) :: rat) * c \<le> of_nat d * c" using assms(4) by (intro mult_right_mono) simp_all
    then show ?thesis by (simp add: distrib_right)
  qed
  from assms(5) show ?thesis
  proof
    assume w: "Wp < 2 ^ 64 \<and> Wm + 2048 \<le> Wp"
    then have "of_nat Wm * c + of_nat 2048 * c \<le> of_nat Wp * c"
      "of_nat Wp * c + of_nat 0 * c \<le> of_nat 18446744073709551616 * c"
      by (intro mult; simp)+
    then have "of_nat Wm * c + 2048 * c \<le> of_nat Wp * c" "of_nat Wp * c \<le> 18446744073709551616 * c"
      by (simp_all only: of_nat_numeral of_nat_0 mult_zero_left add_0_right)
    with assms(1-4) show ?thesis by (intro enough_digits_linear) assumption+
  next
    assume w: "Wp = 2 ^ 63 + 1024 \<and> Wm + 1536 = Wp"
    then have "of_nat Wm * c + of_nat 1536 * c \<le> of_nat Wp * c"
      "of_nat Wp * c + of_nat 0 * c \<le> of_nat 9223372036854776832 * c"
      by (intro mult; simp)+
    then have "of_nat Wm * c + 1536 * c \<le> of_nat Wp * c" "of_nat Wp * c \<le> 9223372036854776832 * c"
      by (simp_all only: of_nat_numeral of_nat_0 mult_zero_left add_0_right)
    with assms(1-4) show ?thesis by (intro enough_digits_closer) assumption+
  qed
qed

section \<open>The digits of a double\<close>

definition lower_boundary :: "u64 \<Rightarrow> rat" where
  "lower_boundary x = (of_nat (significand x) - (if boundary_closer x then 1 / 4 else 1 / 2)) * 2 powi binary_exponent x"

definition upper_boundary :: "u64 \<Rightarrow> rat" where
  "upper_boundary x = (of_nat (significand x) + 1 / 2) * 2 powi binary_exponent x"

lemma boundary_powers:
  "11 \<le> z \<Longrightarrow> (of_nat (2 ^ (z - 1)) :: rat) = 2 ^ z / 2"
  "11 \<le> z \<Longrightarrow> (of_nat (2 ^ (z - 2)) :: rat) = 2 ^ z / 4"
proof -
  assume "11 \<le> z"
  then have "2 ^ z = 2 * (2 :: nat) ^ (z - 1)" "2 ^ z = 4 * (2 :: nat) ^ (z - 2)"
    using power_split [of z] by simp_all
  from this [THEN arg_cong, of "of_nat :: nat \<Rightarrow> rat"]
  show "(of_nat (2 ^ (z - 1)) :: rat) = 2 ^ z / 2" "(of_nat (2 ^ (z - 2)) :: rat) = 2 ^ z / 4" by simp_all
qed

lemma mul_rounded:
  "unat (diy_f (diyfp_mul (Diyfp a e) (Diyfp b e'))) = rounded (unat a * unat b)"
  "diy_e (diyfp_mul (Diyfp a e) (Diyfp b e')) = e + e' + 64"
  using diyfp_mul_rounds [of "Diyfp a e" "Diyfp b e'"] by (simp_all only: rounded_def diyfp.select_convs)

text \<open>The exact value of the scaled boundary with significand \<open>a\<close>, over which \<open>rounded\<close> is off by less than one.\<close>

lemma accurate_scaled:
  assumes "accurate c"
  shows "\<bar>of_nat (unat (cp_f c)) - 10 powi cp_k c / 2 powi cp_e c\<bar> \<le> (1 / 2 :: rat)"
proof -
  have "2 * \<bar>of_int (uint (cp_f c)) * 2 powi cp_e c * (1 / 2 powi cp_e c) - 10 powi cp_k c * (1 / 2 powi cp_e c)\<bar>
      \<le> (2 powi cp_e c * (1 / 2 powi cp_e c) :: rat)"
    using assms unfolding accurate_def by (rule scaled_abs_le) simp
  then show ?thesis by simp
qed

lemma unscale:
  fixes v a :: rat
  assumes "int s = - (e_c + E + 64)"
  shows "v * 10 powi e * 2 ^ s < a * (10 powi k / 2 powi e_c) / 2 ^ 64 \<longleftrightarrow> v * 10 powi (- k + e) < a * 2 powi E"
    "a * (10 powi k / 2 powi e_c) / 2 ^ 64 < v * 10 powi e * 2 ^ s \<longleftrightarrow> a * 2 powi E < v * 10 powi (- k + e)"
proof -
  define q where "q = 10 powi k / (2 powi e_c * 2 ^ 64 * 2 powi E :: rat)"
  have "(2 :: rat) ^ s = 2 powi (- (e_c + E + 64))" by (simp only: assms(1) [symmetric] power_int_of_nat)
  also have "\<dots> = inverse (2 powi (e_c + E + 64))" by (rule power_int_minus)
  also have "(2 :: rat) powi (e_c + E + 64) = 2 powi e_c * 2 powi E * 2 ^ 64" by (simp add: power_int_add)
  also have "inverse (2 powi e_c * 2 powi E * 2 ^ 64) = 1 / (2 powi e_c * 2 powi E * (2 ^ 64 :: rat))"
    by (rule inverse_eq_divide)
  finally have s: "(2 :: rat) ^ s = 1 / (2 powi e_c * 2 powi E * 2 ^ 64)" .
  have "0 < q" by (simp add: q_def)
  moreover have "v * 10 powi e * 2 ^ s = v * 10 powi (- k + e) * q"
    by (simp add: s q_def power_int_diff field_simps)
  moreover have "a * (10 powi k / 2 powi e_c) / 2 ^ 64 = a * 2 powi E * q"
    by (simp add: q_def field_simps)
  ultimately show "v * 10 powi e * 2 ^ s < a * (10 powi k / 2 powi e_c) / 2 ^ 64 \<longleftrightarrow> v * 10 powi (- k + e) < a * 2 powi E"
    "a * (10 powi k / 2 powi e_c) / 2 ^ 64 < v * 10 powi e * 2 ^ s \<longleftrightarrow> a * 2 powi E < v * 10 powi (- k + e)"
    by (simp_all only: mult_less_cancel_right_pos)
qed

lemma grisu2_result:
  assumes "isfinite x" "\<not> signbit x" "x \<noteq> 0"
  shows "\<exists>t e. grisu2 x = Inr (t, e) \<and> digits_text t \<and> t \<noteq> [] \<and> hd t \<noteq> CHR ''0'' \<and> length t \<le> 17
    \<and> - 323 \<le> int (length t) + e \<and> int (length t) + e \<le> 310
    \<and> lower_boundary x < decimal_value t e \<and> decimal_value t e < upper_boundary x"
proof -
  obtain z W Wm Wp where b: "11 \<le> z" "z \<le> 63"
    "compute_boundaries x = Inr \<lparr>bd_w = Diyfp W (binary_exponent x - int z),
        bd_minus = Diyfp Wm (binary_exponent x - int z), bd_plus = Diyfp Wp (binary_exponent x - int z)\<rparr>"
    "unat W = significand x * 2 ^ z" "2 ^ 63 \<le> unat W" "unat Wp = unat W + 2 ^ (z - 1)"
    "unat Wm + (if boundary_closer x then 2 ^ (z - 2) else 2 ^ (z - 1)) = unat W"
    using compute_boundaries_result [OF assms] by blast
  define E where "E = binary_exponent x - int z"
  have "- 1137 \<le> E" "E \<le> 960" using binary_exponent_range [OF assms(1)] b(1,2) by (simp_all add: E_def)
  then obtain c where c: "c \<in> set kCachedPowers" "get_cached_power_for_binary_exponent E = Inr c"
    "- 60 \<le> cp_e c + E + 64" "cp_e c + E + 64 \<le> - 32" "2 ^ 63 \<le> uint (cp_f c)"
    "- 300 \<le> cp_k c" "cp_k c \<le> 324"
    using get_cached_power_result [of E] by blast
  define C where "C = unat (cp_f c)"
  have Cu: "int C = uint (cp_f c)" by (simp add: C_def)
  then have "int (2 ^ 63) \<le> int C" using c(5) by simp
  then have C63: "2 ^ 63 \<le> C" by (simp only: of_nat_le_iff)
  define cc where "cc = Diyfp (cp_f c) (cp_e c)"
  define w w_minus w_plus where w: "w = diyfp_mul (Diyfp W E) cc" "w_minus = diyfp_mul (Diyfp Wm E) cc"
    "w_plus = diyfp_mul (Diyfp Wp E) cc"
  have wf: "unat (diy_f w) = rounded (unat W * C)" "unat (diy_f w_minus) = rounded (unat Wm * C)"
    "unat (diy_f w_plus) = rounded (unat Wp * C)"
    and we: "diy_e w = E + cp_e c + 64" "diy_e w_minus = E + cp_e c + 64" "diy_e w_plus = E + cp_e c + 64"
    unfolding w cc_def C_def mul_rounded by simp_all
  define g where "g = (if boundary_closer x then 2 ^ (z - 2) else 2 ^ (z - 1) :: nat)"
  have p9: "(2 :: nat) ^ 9 \<le> 2 ^ (z - 2)" "(2 :: nat) ^ 9 \<le> 2 ^ (z - 1)"
    using b(1) by (intro power_increasing; linarith)+
  then have "2 ^ 9 \<le> g" unfolding g_def by (simp only: if_split) blast
  then have gap: "rounded (unat Wm * C) + 1 \<le> rounded (unat W * C)"
    by (rule rounded_gap [OF eq_refl [OF b(7) [folded g_def]] _ C63])
  have gap2: "rounded (unat W * C) + 1 \<le> rounded (unat Wp * C)"
    by (rule rounded_gap [OF _ p9(2) C63]) (simp only: b(6) order_refl)
  have large: "2 ^ 62 \<le> rounded (unat W * C)" using b(5) C63 by (rule rounded_large)
  define M_minus M_plus where M: "M_minus = Diyfp (diy_f w_minus + 1) (diy_e w_minus)"
    "M_plus = Diyfp (diy_f w_plus - 1) (diy_e w_plus)"
  have "rounded (unat W * C) < 2 ^ 64" using unsigned_less [of "diy_f w", where 'a = nat] by (simp add: wf)
  then have Mf: "unat (diy_f M_minus) = rounded (unat Wm * C) + 1" "unat (diy_f M_plus) = rounded (unat Wp * C) - 1"
    using gap gap2 by (simp_all add: M unat_add_small unat_sub wf word_le_nat_alt)
  define s where "s = nat (- (cp_e c + E + 64))"
  have s: "int s = - (cp_e c + E + 64)" using c(4) by (simp add: s_def)
  have "(2 :: nat) ^ s \<le> 2 ^ 60" using c(3) by (intro power_increasing) (simp_all add: s_def)
  then have p1: "2 ^ s \<le> unat (diy_f M_plus)" using large gap2 unfolding Mf by simp
  have g2: "grisu2 x = grisu2_digit_gen (- cp_k c) M_minus w M_plus"
    using assms b(3) c(2) unfolding grisu2_def grisu2_scaled_def E_def [symmetric]
    by (simp add: asserting_holds Let_def M w cc_def)
  have exps: "diy_e w = cp_e c + E + 64" "diy_e M_minus = cp_e c + E + 64" "diy_e M_plus = cp_e c + E + 64"
    by (simp_all add: M we)
  have pre: "0 < diy_f M_minus" "diy_f M_minus \<le> diy_f w" "diy_f w \<le> diy_f M_plus"
    unfolding word_le_nat_alt word_less_nat_alt Mf wf using gap gap2 by simp_all
  obtain t e where t: "grisu2_digit_gen (- cp_k c) M_minus w M_plus = Inr (t, - cp_k c + e)"
    "digits_text t" "t \<noteq> []" "hd t \<noteq> CHR ''0''" "1 \<le> int (length t) + e" "int (length t) + e \<le> 10"
    "of_nat (unat (diy_f M_minus)) \<le> scaled_value s t e" "scaled_value s t e \<le> of_nat (unat (diy_f M_plus))"
    "(of_nat (unat (diy_f M_plus)) - of_nat (unat (diy_f M_minus))) * 10 powi (int (length t) - 2)
        < (of_nat (unat (diy_f M_plus)) :: rat)"
    using grisu2_digit_gen_result [OF c(3,4) exps pre p1 [unfolded s_def], of "- cp_k c", folded s_def] by blast
  define y where "y = 10 powi cp_k c / (2 powi cp_e c :: rat)"
  have Cy: "\<bar>of_nat C - y\<bar> \<le> 1 / 2" using accurate_scaled [OF cached_accurate [OF c(1)]] by (simp add: C_def y_def)
  have u64: "unat Wm < 2 ^ 64" "unat Wp < 2 ^ 64"
    using unsigned_less [of Wm, where 'a = nat] unsigned_less [of Wp, where 'a = nat] by simp_all
  note near = rounded_near [OF u64(1) Cy] rounded_near [OF u64(2) Cy]
  have Mr: "(of_nat (unat (diy_f M_plus)) :: rat) = of_nat (rounded (unat Wp * C)) - 1"
    "(of_nat (unat (diy_f M_minus)) :: rat) = of_nat (rounded (unat Wm * C)) + 1"
    using gap2 unfolding Mf by (simp_all add: of_nat_diff)
  have "scaled_value s t e < of_nat (unat Wp) * y / 2 ^ 64" "of_nat (unat Wm) * y / 2 ^ 64 < scaled_value s t e"
    using t(7,8) near unfolding Mr by (simp_all add: abs_less_iff)
  then have V: "of_nat (digits_num t) * 10 powi (- cp_k c + e) < of_nat (unat Wp) * (2 powi E :: rat)"
    "of_nat (unat Wm) * (2 powi E :: rat) < of_nat (digits_num t) * 10 powi (- cp_k c + e)"
    unfolding scaled_value_def y_def unscale [OF s] by simp_all
  have E: "(2 :: rat) powi binary_exponent x = 2 ^ z * 2 powi E"
    by (simp add: E_def power_int_diff)
  have Wr: "(of_nat (unat W) :: rat) = of_nat (significand x) * 2 ^ z" unfolding b(4) by simp
  have up: "of_nat (unat Wp) * (2 powi E :: rat) = upper_boundary x"
    using boundary_powers [OF b(1)] unfolding upper_boundary_def E b(6) of_nat_add Wr by (simp add: field_simps)
  have "(of_nat g :: rat) = (if boundary_closer x then 1 / 4 else 1 / 2) * 2 ^ z"
    using boundary_powers [OF b(1)] by (simp add: g_def)
  then have "(of_nat (unat Wm) :: rat) = (of_nat (significand x) - (if boundary_closer x then 1 / 4 else 1 / 2)) * 2 ^ z"
    using arg_cong [OF b(7) [folded g_def], of "of_nat :: nat \<Rightarrow> rat"] Wr by (simp add: algebra_simps)
  then have low: "of_nat (unat Wm) * (2 powi E :: rat) = lower_boundary x"
    unfolding lower_boundary_def E by (simp only: mult.assoc)
  have wide: "unat Wp < 2 ^ 64 \<and> unat Wm + 2048 \<le> unat Wp \<or> unat Wp = 2 ^ 63 + 1024 \<and> unat Wm + 1536 = unat Wp"
  proof (cases "boundary_closer x")
    case True
    then have "significand x = 2 ^ 52" by (simp add: boundary_closer_def significand_def)
    then have W: "unat W = 2 ^ (52 + z)" using b(4) by (simp add: power_add)
    have "z = 11"
    proof (rule ccontr)
      assume "z \<noteq> 11"
      then have "(2 :: nat) ^ 64 \<le> 2 ^ (52 + z)" using b(1) by (intro power_increasing) simp_all
      then show False using W unsigned_less [of W, where 'a = nat] by simp
    qed
    then show ?thesis using W b(6,7) True by simp
  next
    case False
    have "(2 :: nat) ^ 11 \<le> 2 ^ z" using b(1) by (intro power_increasing) simp_all
    moreover have "2 ^ z = 2 * (2 :: nat) ^ (z - 1)" using power_split [of z] b(1) by simp
    moreover have "unat Wm + 2 ^ (z - 1) = unat W" using b(7) False by simp
    ultimately have "unat Wm + 2048 \<le> unat Wp" unfolding b(6) by simp
    then show ?thesis using u64(2) by blast
  qed
  have "(of_nat (2 ^ 63) :: rat) \<le> of_nat C" using C63 by (rule of_nat_mono)
  then have half: "(1 / 2 :: rat) \<le> of_nat C / 2 ^ 64" by simp
  note rb = rounded_bounds [of "unat Wp * C"] rounded_bounds [of "unat Wm * C"]
  have enough: "(of_nat (unat (diy_f M_plus)) :: rat)
      \<le> (of_nat (unat (diy_f M_plus)) - of_nat (unat (diy_f M_minus))) * 10000000000000000"
    using rb by (intro enough_digits [OF _ _ _ half wide]) (simp_all only: Mr of_nat_mult, simp_all)
  have "length t \<le> 17"
  proof (rule ccontr)
    assume "\<not> length t \<le> 17"
    then have "(10 :: rat) powi 16 \<le> 10 powi (int (length t) - 2)" by (intro power_int_increasing) simp_all
    moreover have "(0 :: rat) \<le> of_nat (unat (diy_f M_plus)) - of_nat (unat (diy_f M_minus))"
      using pre unfolding word_le_nat_alt by (simp only: diff_ge_0_iff_ge of_nat_le_iff)
    ultimately have "(of_nat (unat (diy_f M_plus)) - of_nat (unat (diy_f M_minus))) * 10 powi 16
        \<le> (of_nat (unat (diy_f M_plus)) - of_nat (unat (diy_f M_minus))) * (10 :: rat) powi (int (length t) - 2)"
      by (rule mult_left_mono)
    with enough t(9) show False by simp
  qed
  moreover have "- 323 \<le> int (length t) + (- cp_k c + e)" "int (length t) + (- cp_k c + e) \<le> 310"
    using t(5,6) c(6,7) by simp_all
  ultimately show ?thesis
    using g2 t(1-4) V unfolding up low decimal_value_def
    by (intro exI [of _ t] exI [of _ "- cp_k c + e"]) simp
qed

end
