(* ===== verification/Json_Float_Text.thy ===== *)
theory Json_Float_Text
  imports Json_Float_Digits
begin

text \<open>
  What \<open>format_buffer\<close> and \<open>append_exponent\<close> print is a JSON number whose value is that of the digits and the
  exponent they are given, in at most 24 characters.
\<close>

section \<open>Reading a decimal text\<close>

text \<open>
  The value of a JSON number (RFC 8259): sign, integer part, fraction, exponent.  \<open>json_number\<close> is its
  grammar.
\<close>

definition number_parts :: "string \<Rightarrow> string \<times> string \<times> string" where
  "number_parts t =
     (let ip = takeWhile is_digit t; r = dropWhile is_digit t
      in if r \<noteq> [] \<and> hd r = CHR ''.''
         then (ip, takeWhile is_digit (tl r), dropWhile is_digit (tl r)) else (ip, [], r))"

definition exponent_value :: "string \<Rightarrow> int" where
  "exponent_value t =
     (if t = [] then 0 else if hd t = CHR ''-'' then - int (digits_num (tl t)) else int (digits_num (tl t)))"

definition unsigned_value :: "string \<Rightarrow> rat" where
  "unsigned_value t =
     (case number_parts t of (ip, fp, ex) \<Rightarrow>
        decimal_value (ip @ fp) (exponent_value (tl ex) - int (length fp)))"

definition text_value :: "string \<Rightarrow> rat" where
  "text_value t = (if t \<noteq> [] \<and> hd t = CHR ''-'' then - unsigned_value (tl t) else unsigned_value t)"

definition exponent_part :: "string \<Rightarrow> bool" where
  "exponent_part t \<longleftrightarrow> t = [] \<or>
     (case t of e # s # ds \<Rightarrow> e \<in> {CHR ''e'', CHR ''E''} \<and> s \<in> {CHR ''+'', CHR ''-''} \<and> ds \<noteq> [] \<and> digits_text ds
      | _ \<Rightarrow> False)"

definition unsigned_number :: "string \<Rightarrow> bool" where
  "unsigned_number t =
     (case number_parts t of (ip, fp, ex) \<Rightarrow>
        ip \<noteq> [] \<and> (hd ip = CHR ''0'' \<longrightarrow> ip = ''0'') \<and> exponent_part ex
        \<and> (fp = [] \<longrightarrow> CHR ''.'' \<notin> set t))"

lemma digits_num_append: "digits_num (a @ b) = digits_num a * 10 ^ length b + digits_num b"
proof -
  have "foldl (\<lambda>n c. n * 10 + (of_char c - 48 :: nat)) m b = m * 10 ^ length b + digits_num b" for m
  proof (induction b arbitrary: m)
    case (Cons c b)
    define x where "x = (of_char c - 48 :: nat)"
    have "foldl (\<lambda>n c. n * 10 + (of_char c - 48 :: nat)) m (c # b) = (m * 10 + x) * 10 ^ length b + digits_num b"
      unfolding foldl_Cons x_def [symmetric] by (rule Cons.IH)
    moreover have "digits_num (c # b) = foldl (\<lambda>n c. n * 10 + (of_char c - 48 :: nat)) (0 * 10 + x) b"
      unfolding digits_num_def foldl_Cons x_def ..
    then have "digits_num (c # b) = x * 10 ^ length b + digits_num b" unfolding Cons.IH by simp
    ultimately show ?case by (simp add: distrib_right)
  qed (simp add: digits_num_def)
  moreover have "digits_num (a @ b) = foldl (\<lambda>n c. n * 10 + (of_char c - 48 :: nat)) (digits_num a) b"
    unfolding digits_num_def foldl_append ..
  ultimately show ?thesis by (simp only:)
qed

lemma digits_num_zeros: "digits_num (replicate m CHR ''0'') = 0"
  by (induction m) (simp_all add: digits_num_def)

lemma digits_num_digit: "d < 10 \<Longrightarrow> digits_num [digit_char d] = d"
  using digits_num_snoc [of d "[]"] by simp

lemma digits_text_simps [simp]:
  "digits_text []" "digits_text (c # t) \<longleftrightarrow> is_digit c \<and> digits_text t"
  "digits_text (a @ b) \<longleftrightarrow> digits_text a \<and> digits_text b"
  by (simp_all add: digits_text_def)

lemma digits_text_zeros [simp]: "digits_text (replicate m CHR ''0'')"
  by (induction m) (simp_all add: is_digit_def)

lemma digits_text_take: "digits_text t \<Longrightarrow> digits_text (take n t) \<and> digits_text (drop n t)"
  by (metis append_take_drop_id digits_text_simps(3))

lemma span_digits:
  "digits_text a \<Longrightarrow> r = [] \<or> \<not> is_digit (hd r) \<Longrightarrow> takeWhile is_digit (a @ r) = a \<and> dropWhile is_digit (a @ r) = r"
  by (induction a) (cases r, auto)

lemma number_parts_fraction:
  assumes "digits_text a" "digits_text b" "r = [] \<or> \<not> is_digit (hd r)"
  shows "number_parts (a @ ''.'' @ b @ r) = (a, b, r)"
  using span_digits [OF assms(1), of "''.'' @ b @ r"] span_digits [OF assms(2,3)]
  by (simp add: number_parts_def is_digit_def)

lemma number_parts_plain:
  assumes "digits_text a" "r = [] \<or> \<not> is_digit (hd r) \<and> hd r \<noteq> CHR ''.''"
  shows "number_parts (a @ r) = (a, [], r)"
  using span_digits [OF assms(1), of r] assms(2) by (auto simp: number_parts_def)

section \<open>The formats\<close>

lemma append_exponent_result:
  assumes "- 1000 < e" "e < 1000"
  shows "\<exists>s ds. append_exponent buf e = Inr (buf @ s # ds) \<and> s \<in> {CHR ''+'', CHR ''-''} \<and> ds \<noteq> []
    \<and> digits_text ds \<and> length ds \<le> 3 \<and> exponent_value (s # ds) = e"
proof -
  define k where "k = nat (if e < 0 then - e else e)"
  have k: "k < 1000" using assms unfolding k_def by auto
  define ds where "ds = (if k < 10 then [CHR ''0'', digit_char k]
    else if k < 100 then [digit_char (k div 10), digit_char (k mod 10)]
    else [digit_char (k div 100), digit_char (k mod 100 div 10), digit_char (k mod 100 mod 10)])"
  have app: "append_exponent buf e = Inr (buf @ (if e < 0 then CHR ''-'' else CHR ''+'') # ds)"
    using assms unfolding append_exponent_def Let_def k_def [symmetric] ds_def by (simp add: asserting_holds)
  have b: "k mod 100 div 10 < 10" by (simp add: div_less_iff_less_mult)
  have b': "k div 100 < 10" using k by (simp add: div_less_iff_less_mult)
  have "CHR ''0'' = digit_char 0" by simp
  then have "digits_text ds" using b b' unfolding ds_def
    by (auto simp: is_digit_digit_char simp del: digit_char_eval)
  moreover have "digits_num ds = k"
  proof -
    have two: "digits_num [a, b] = digits_num [a] * 10 + digits_num [b]"
      and three: "digits_num [a, b, c] = digits_num [a] * 100 + digits_num [b] * 10 + digits_num [c]" for a b c
      using digits_num_append [of "[a]" "[b]"] digits_num_append [of "[a]" "[b, c]"] digits_num_append [of "[b]" "[c]"]
      by simp_all
    have m: "k mod 100 mod 10 < 10" "k mod 10 < 10" by simp_all
    have sum: "k div 100 * 100 + k mod 100 div 10 * 10 + k mod 100 mod 10 = k"
      using div_mult_mod_eq [of k 100] div_mult_mod_eq [of "k mod 100" 10] by linarith
    consider "k < 10" | "10 \<le> k" "k < 100" | "100 \<le> k" by linarith
    then show ?thesis
    proof cases
      case 1
      then have "ds = [digit_char 0, digit_char k]" by (simp add: ds_def)
      then show ?thesis using 1 by (simp only: two digits_num_digit)
    next
      case 2
      then have "ds = [digit_char (k div 10), digit_char (k mod 10)]" "k div 10 < 10"
        by (simp_all add: ds_def div_less_iff_less_mult)
      then show ?thesis using m(2) by (simp only: two digits_num_digit div_mult_mod_eq)
    next
      case 3
      then have "ds = [digit_char (k div 100), digit_char (k mod 100 div 10), digit_char (k mod 100 mod 10)]"
        by (simp add: ds_def)
      then show ?thesis using b b' m(1) sum by (simp only: three digits_num_digit)
    qed
  qed
  moreover have "ds \<noteq> []" "length ds \<le> 3" by (simp_all add: ds_def)
  moreover have "int k = (if e < 0 then - e else e)" by (simp add: k_def)
  ultimately have "exponent_value ((if e < 0 then CHR ''-'' else CHR ''+'') # ds) = e"
    by (simp add: exponent_value_def)
  with app \<open>digits_text ds\<close> \<open>ds \<noteq> []\<close> \<open>length ds \<le> 3\<close> show ?thesis
    by (intro exI [of _ "if e < 0 then CHR ''-'' else CHR ''+''"] exI [of _ ds]) simp
qed

lemma unsigned_value_fraction:
  assumes "digits_text a" "digits_text b" "r = [] \<or> \<not> is_digit (hd r)"
  shows "unsigned_value (a @ ''.'' @ b @ r) = decimal_value (a @ b) (exponent_value (tl r) - int (length b))"
  unfolding unsigned_value_def number_parts_fraction [OF assms] by simp

lemma unsigned_number_fraction:
  assumes "digits_text a" "digits_text b" "exponent_part r" "a \<noteq> []" "b \<noteq> []" "hd a = CHR ''0'' \<longrightarrow> a = ''0''"
  shows "unsigned_number (a @ ''.'' @ b @ r)"
proof -
  have "r = [] \<or> \<not> is_digit (hd r)"
    using assms(3) by (cases r) (auto simp: exponent_part_def is_digit_def split: list.splits)
  with assms show ?thesis unfolding unsigned_number_def by (simp only: number_parts_fraction) simp
qed

lemma exponent_partI:
  "s \<in> {CHR ''+'', CHR ''-''} \<Longrightarrow> ds \<noteq> [] \<Longrightarrow> digits_text ds \<Longrightarrow> exponent_part (CHR ''e'' # s # ds)"
  by (simp add: exponent_part_def)

lemma decimal_value_zeros:
  "decimal_value (t @ replicate m CHR ''0'') (e - int m) = decimal_value t e"
proof -
  have "(10 :: rat) powi (int m + (e - int m)) = 10 powi int m * 10 powi (e - int m)"
    by (rule power_int_add) simp
  then show ?thesis by (simp add: decimal_value_def digits_num_append digits_num_zeros)
qed

lemma decimal_value_leading: "decimal_value (replicate m CHR ''0'' @ t) e = decimal_value t e"
  by (simp add: decimal_value_def digits_num_append digits_num_zeros)

lemma format_buffer_result:
  assumes buf: "digits_text buf" "buf \<noteq> []" "hd buf \<noteq> CHR ''0''" and len: "length buf \<le> 17"
    and n: "- 323 \<le> int (length buf) + de" "int (length buf) + de \<le> 310"
  shows "\<exists>t. format_buffer buf de (- 4) 15 = Inr t \<and> unsigned_value t = decimal_value buf de
    \<and> unsigned_number t \<and> length t \<le> 24 \<and> is_digit (hd t) \<and> t \<noteq> []"
proof -
  define n where "n = int (length buf) + de"
  have hd: "is_digit (hd buf)" using buf(1,2) by (cases buf) simp_all
  consider (zeros) "int (length buf) \<le> n" "n \<le> 15" | (point) "0 < n" "n < int (length buf)" "n \<le> 15"
    | (small) "- 4 < n" "n \<le> 0" | (exponent) "15 < n \<or> n \<le> - 4"
    by linarith
  then show ?thesis
  proof cases
    case zeros
    define m where "m = nat (n - int (length buf))"
    have m: "int m = de" "length buf + m \<le> 15" using zeros by (simp_all add: m_def n_def)
    define a where "a = buf @ replicate m CHR ''0''"
    have a: "digits_text a" "a \<noteq> []" "hd a \<noteq> CHR ''0''" "is_digit (hd a)" using buf hd by (simp_all add: a_def)
    have "format_buffer buf de (- 4) 15 = Inr (a @ ''.'' @ ''0'' @ [])"
      using zeros unfolding format_buffer_def Let_def n_def [symmetric] by (simp add: asserting_holds a_def m_def)
    moreover have "unsigned_value (a @ ''.'' @ ''0'' @ []) = decimal_value (a @ ''0'') (exponent_value (tl []) - int (length ''0''))"
      using a(1) by (intro unsigned_value_fraction) (simp_all add: is_digit_def)
    moreover have "decimal_value (buf @ replicate (Suc m) CHR ''0'') (de - int (Suc m)) = decimal_value buf de"
      by (rule decimal_value_zeros)
    moreover have "a @ ''0'' = buf @ replicate (Suc m) CHR ''0''" by (simp add: a_def replicate_append_same)
    moreover have "unsigned_number (a @ ''.'' @ ''0'' @ [])"
      using a by (intro unsigned_number_fraction) (simp_all add: is_digit_def exponent_part_def)
    ultimately show ?thesis using m a hd buf(2) by (simp add: exponent_value_def a_def)
  next
    case point
    define i where "i = nat n"
    have i: "0 < i" "i < length buf" "int i = n" using point by (simp_all add: i_def)
    have p: "digits_text (take i buf)" "digits_text (drop i buf)" "take i buf \<noteq> []" "drop i buf \<noteq> []"
      "hd (take i buf) = hd buf"
      using digits_text_take [OF buf(1), of i] i buf(2) by simp_all
    have "format_buffer buf de (- 4) 15 = Inr (take i buf @ ''.'' @ drop i buf @ [])"
      using point unfolding format_buffer_def Let_def n_def [symmetric] by (simp add: asserting_holds i_def)
    moreover have "unsigned_value (take i buf @ ''.'' @ drop i buf @ [])
        = decimal_value (take i buf @ drop i buf) (exponent_value (tl []) - int (length (drop i buf)))"
      using p by (intro unsigned_value_fraction) simp_all
    moreover have "exponent_value (tl []) - int (length (drop i buf)) = de"
      using i by (simp add: exponent_value_def n_def)
    moreover have "unsigned_number (take i buf @ ''.'' @ drop i buf @ [])"
      using p buf(3) by (intro unsigned_number_fraction) (simp_all add: exponent_part_def)
    ultimately show ?thesis using p hd len by simp
  next
    case small
    define m where "m = nat (- n)"
    have m: "int m = - n" "m \<le> 3" using small by (simp_all add: m_def)
    define b where "b = replicate m CHR ''0'' @ buf"
    have b: "digits_text b" "b \<noteq> []" using buf by (simp_all add: b_def)
    have large: "\<not> int (length buf) \<le> n" using small(2) buf(2) by (cases buf) simp_all
    have "format_buffer buf de (- 4) 15 = Inr (''0'' @ ''.'' @ b @ [])"
      using small large unfolding format_buffer_def Let_def n_def [symmetric] by (simp add: asserting_holds b_def m_def)
    moreover have "unsigned_value (''0'' @ ''.'' @ b @ [])
        = decimal_value (''0'' @ b) (exponent_value (tl []) - int (length b))"
      using b by (intro unsigned_value_fraction) (simp_all add: is_digit_def)
    moreover have "decimal_value (''0'' @ b) de = decimal_value buf de"
      using decimal_value_leading [of "Suc m" buf de] by (simp add: b_def)
    moreover have "exponent_value (tl []) - int (length b) = de"
      using m by (simp add: exponent_value_def n_def b_def)
    moreover have "unsigned_number (''0'' @ ''.'' @ b @ [])"
      using b by (intro unsigned_number_fraction) (simp_all add: is_digit_def exponent_part_def)
    ultimately show ?thesis using m len by (simp add: b_def is_digit_def)
  next
    case exponent
    define head where "head = (if length buf = 1 then buf else take 1 buf @ ''.'' @ drop 1 buf)"
    have "- 1000 < n - 1" "n - 1 < 1000" using assms(5,6) by (simp_all add: n_def)
    from append_exponent_result [OF this, of "head @ ''e''"] obtain s ds where
      x: "append_exponent (head @ ''e'') (n - 1) = Inr ((head @ ''e'') @ s # ds)" "s \<in> {CHR ''+'', CHR ''-''}"
      "ds \<noteq> []" "digits_text ds" "length ds \<le> 3" "exponent_value (s # ds) = n - 1" by blast
    have e: "exponent_part (CHR ''e'' # s # ds)" by (rule exponent_partI [OF x(2-4)])
    have "format_buffer buf de (- 4) 15 = Inr (head @ CHR ''e'' # s # ds)"
      using exponent x(1) buf(2) unfolding format_buffer_def Let_def n_def [symmetric]
      by (auto simp: asserting_holds head_def)
    moreover have "unsigned_value (head @ CHR ''e'' # s # ds) = decimal_value buf de
        \<and> unsigned_number (head @ CHR ''e'' # s # ds) \<and> is_digit (hd head) \<and> head \<noteq> []"
    proof (cases "length buf = 1")
      case True
      have np: "number_parts (buf @ CHR ''e'' # s # ds) = (buf, [], CHR ''e'' # s # ds)"
        using buf(1) by (intro number_parts_plain) (simp_all add: is_digit_def)
      have "CHR ''.'' \<notin> set (buf @ CHR ''e'' # s # ds)"
        using buf(1) x(2,4) by (auto simp: digits_text_def list_all_iff is_digit_def)
      then show ?thesis
        using True x(6) buf hd e by (simp add: head_def unsigned_value_def unsigned_number_def np n_def)
    next
      case False
      then have p: "digits_text (take 1 buf)" "digits_text (drop 1 buf)" "take 1 buf \<noteq> []" "drop 1 buf \<noteq> []"
        "hd (take 1 buf) = hd buf"
        using digits_text_take [OF buf(1), of 1] buf(2) by (cases buf; simp)+
      have "unsigned_value (take 1 buf @ ''.'' @ drop 1 buf @ CHR ''e'' # s # ds)
          = decimal_value (take 1 buf @ drop 1 buf) (exponent_value (tl (CHR ''e'' # s # ds)) - int (length (drop 1 buf)))"
        using p by (intro unsigned_value_fraction) (simp_all add: is_digit_def)
      moreover have "exponent_value (tl (CHR ''e'' # s # ds)) - int (length (drop 1 buf)) = de"
        using x(6) buf(2) by (cases buf) (simp_all add: n_def)
      moreover have "unsigned_number (take 1 buf @ ''.'' @ drop 1 buf @ CHR ''e'' # s # ds)"
        using p buf(3) e by (intro unsigned_number_fraction) simp_all
      ultimately show ?thesis using False p hd by (simp add: head_def)
    qed
    moreover have "length (head @ CHR ''e'' # s # ds) \<le> 24" using len x(5) by (auto simp: head_def min_def)
    ultimately show ?thesis by auto
  qed
qed

end
