(* ===== verification/Json_Float_Roundtrip.thy ===== *)
theory Json_Float_Roundtrip
  imports Json_Float_Scaling Json_Float_Text
begin

text \<open>
  \<open>to_chars\<close> as a whole: it passes its assertions for every finite double, prints a JSON number of at most
  25 characters that fits \<open>number_buffer\<close>, and the printed number is closer to the double than to every
  other finite double, so that a correctly rounding reader gets the double back.
\<close>

unbundle bit_operations_syntax

section \<open>The nearest double\<close>

lemma power_2_split: "(2 :: rat) powi e' = 2 powi e * 2 powi (e' - e)"
proof -
  have "(2 :: rat) powi (e + (e' - e)) = 2 powi e * 2 powi (e' - e)" by (rule power_int_add) simp
  then show ?thesis by simp
qed

lemma of_nat_less_rat: "a < b \<Longrightarrow> (of_nat a + 1 :: rat) \<le> of_nat b"
  by (metis Suc_leI add.commute of_nat_Suc of_nat_le_iff)

text \<open>The distance from a positive double to the next ones.\<close>

lemma neighbours:
  fixes x y :: u64
  defines "u \<equiv> (2 :: rat) powi binary_exponent x"
  assumes x: "\<not> signbit x" "x \<noteq> 0" and y: "double_value y \<noteq> double_value x"
  shows "(of_nat (significand x) + 1) * u \<le> double_value y
    \<or> double_value y \<le> (of_nat (significand x) - (if boundary_closer x then 1 / 2 else 1)) * u"
proof -
  define f where "f = significand x"
  define g where "g = significand y"
  have u: "0 < u" by (simp add: u_def)
  have f1: "1 \<le> (of_nat f :: rat)" using significand_positive [OF x] by (simp add: f_def)
  have gap: "(if boundary_closer x then 1 / 2 else 1) \<le> (1 :: rat)" by simp
  show ?thesis
  proof (cases "signbit y")
    case True
    then have "double_value y \<le> 0" by (simp add: double_value_def)
    also have "0 \<le> (of_nat f - 1) * u" using f1 u by simp
    also have "\<dots> \<le> (of_nat f - (if boundary_closer x then 1 / 2 else 1)) * u"
      using u by (intro mult_right_mono) simp_all
    finally show ?thesis by (simp add: f_def)
  next
    case False
    define d where "d = binary_exponent y - binary_exponent x"
    have vy: "double_value y = of_nat g * 2 powi d * u"
      using False power_2_split [of "binary_exponent y" "binary_exponent x"]
      by (simp add: double_value_def g_def d_def u_def)
    have vx: "double_value x = of_nat f * u" using x(1) by (simp add: double_value_def f_def u_def)
    consider "d = 0" | "0 < d" | "d < 0" by linarith
    then show ?thesis
    proof cases
      case 1
      then have "g \<noteq> f" using y vx vy by auto
      then consider "(of_nat f + 1 :: rat) \<le> of_nat g" | "(of_nat g + 1 :: rat) \<le> of_nat f"
        using of_nat_less_rat by (metis linorder_neqE_nat)
      then show ?thesis
      proof cases
        case 1
        then show ?thesis using u \<open>d = 0\<close> by (simp add: vy flip: f_def)
      next
        case 2
        then have "(of_nat g :: rat) \<le> of_nat f - (if boundary_closer x then 1 / 2 else 1)" using gap by linarith
        then show ?thesis using u \<open>d = 0\<close> by (simp add: vy flip: f_def)
      qed
    next
      case 2
      then have "exponent_bits y \<noteq> 0" by (auto simp: d_def binary_exponent_def split: if_splits)
      then have "2 ^ 52 \<le> g" unfolding g_def by (rule significand_normal)
      then have "(of_nat (2 ^ 52) :: rat) \<le> of_nat g" by (rule of_nat_mono)
      moreover have "(2 :: rat) powi 1 \<le> 2 powi d" using 2 by (intro power_int_increasing) simp_all
      ultimately have "of_nat (2 ^ 52) * 2 powi 1 \<le> of_nat g * (2 powi d :: rat)" by (intro mult_mono) simp_all
      moreover have "(of_nat f + 1 :: rat) \<le> of_nat (2 ^ 53)"
        using significand_less [of x] unfolding f_def by (rule of_nat_less_rat)
      ultimately have "of_nat f + 1 \<le> of_nat g * (2 powi d :: rat)" by simp
      then show ?thesis using u by (simp add: vy flip: f_def)
    next
      case 3
      then have E: "1 < exponent_bits x" by (auto simp: d_def binary_exponent_def split: if_splits)
      have "(of_nat g + 1 :: rat) \<le> of_nat (2 ^ 53)"
        using significand_less [of y] unfolding g_def by (rule of_nat_less_rat)
      then have g: "(of_nat g :: rat) \<le> 2 ^ 53 - 1" by simp
      have "(2 :: rat) powi d \<le> 2 powi (- 1)" using 3 by (intro power_int_increasing) simp_all
      then have "of_nat g * (2 powi d :: rat) \<le> (2 ^ 53 - 1) * 2 powi (- 1)" using g by (intro mult_mono) simp_all
      then have le: "of_nat g * (2 powi d :: rat) \<le> 2 ^ 52 - 1 / 2" by simp
      have "of_nat g * (2 powi d :: rat) \<le> of_nat f - (if boundary_closer x then 1 / 2 else 1)"
      proof (cases "boundary_closer x")
        case True
        then have "f = 2 ^ 52" by (simp add: f_def boundary_closer_def significand_def)
        with le True show ?thesis by simp
      next
        case False
        with E have "2 ^ 52 < f" by (simp add: f_def boundary_closer_def significand_def)
        then have "(of_nat (2 ^ 52) + 1 :: rat) \<le> of_nat f" by (rule of_nat_less_rat)
        with le False show ?thesis by simp
      qed
      then have "of_nat g * 2 powi d * u \<le> (of_nat f - (if boundary_closer x then 1 / 2 else 1)) * u"
        using u by (intro mult_right_mono) simp_all
      then show ?thesis by (simp add: vy flip: f_def)
    qed
  qed
qed

lemma nearest_of_interval:
  assumes "\<not> signbit x" "x \<noteq> 0" "lower_boundary x < v" "v < upper_boundary x" "double_value y \<noteq> double_value x"
  shows "\<bar>v - double_value x\<bar> < \<bar>v - double_value y\<bar>"
proof -
  have vx: "double_value x = of_nat (significand x) * 2 powi binary_exponent x"
    using assms(1) by (simp add: double_value_def)
  have "2 * upper_boundary x - double_value x \<le> double_value y \<or> double_value y \<le> 2 * lower_boundary x - double_value x"
    using neighbours [OF assms(1,2,5)] unfolding upper_boundary_def lower_boundary_def vx
    by (auto simp: algebra_simps)
  moreover have "lower_boundary x < double_value x" "double_value x < upper_boundary x"
    by (simp_all add: lower_boundary_def upper_boundary_def vx)
  ultimately show ?thesis using assms(3,4) by linarith
qed

section \<open>Signs and zeros\<close>

definition flip_sign :: "u64 \<Rightarrow> u64" where
  "flip_sign x = x XOR push_bit 63 1"

lemma bit_flip_sign: "bit (flip_sign x) n \<longleftrightarrow> n < 64 \<and> (bit x n \<longleftrightarrow> n \<noteq> 63)"
  unfolding flip_sign_def
  by (cases "n < 64") (auto simp only: bit_xor_iff bit_push_bit_iff bit_1_iff impossible_bit possible_bit_word len_num0 len_bit0 len_num1
      dest: bit_imp_le_length)

lemma signbit_bit: "signbit x \<longleftrightarrow> bit x 63"
proof -
  have "unat (drop_bit 63 x) < 2"
    using unsigned_less [of x, where 'a = nat] by (simp add: unat_drop_bit div_less_iff_less_mult)
  moreover have "n = 1 \<longleftrightarrow> odd n" if "n < 2" for n :: nat using that by presburger
  ultimately have "unat (drop_bit 63 x) = 1 \<longleftrightarrow> odd (unat (drop_bit 63 x))" by blast
  moreover have "bit (unat x) 63 \<longleftrightarrow> bit x 63" by (simp add: bit_unsigned_iff)
  then have "bit x 63 \<longleftrightarrow> odd (unat (drop_bit 63 x))" unfolding unat_drop_bit bit_iff_odd [of "unat x"] by simp
  moreover have "signbit x \<longleftrightarrow> unat (drop_bit 63 x) = 1" unfolding signbit_def word_unat_eq_iff by simp
  ultimately show ?thesis by blast
qed

lemma flip_sign_flip: "flip_sign (flip_sign x) = x"
proof (rule bit_word_eqI)
  show "bit (flip_sign (flip_sign x)) n = bit x n" if "n < LENGTH(64)" for n
    using that by (cases "n = 63") (simp_all add: bit_flip_sign)
qed

lemma signbit_flip: "signbit (flip_sign x) \<longleftrightarrow> \<not> signbit x"
  by (simp add: signbit_bit bit_flip_sign)

lemma unat_flip_sign:
  assumes "signbit x"
  shows "unat x = unat (flip_sign x) + 2048 * 2 ^ 52"
proof -
  have "flip_sign x = take_bit 63 x"
    using assms by (intro bit_word_eqI) (auto simp: bit_flip_sign bit_take_bit_iff signbit_bit less_Suc_eq)
  then have "unat (flip_sign x) = take_bit 63 (unat x)" by (simp only: unsigned_take_bit_eq)
  then have m: "unat (flip_sign x) = unat x mod 2 ^ 63" by (simp only: take_bit_eq_mod)
  have "2 ^ 63 \<le> unat x" "unat x < 2 ^ 63 + 2 ^ 63"
    using assms(1) unsigned_less [of x, where 'a = nat] by (simp_all add: signbit_iff)
  then have "unat x mod 2 ^ 63 = unat x - 2 ^ 63" by (simp add: le_mod_geq)
  with m \<open>2 ^ 63 \<le> unat x\<close> show ?thesis by simp
qed

lemma flip_negative:
  assumes "signbit x"
  shows "isfinite (flip_sign x) = isfinite x" "double_value x = - double_value (flip_sign x)"
proof -
  have "(unat (flip_sign x) + 2048 * 2 ^ 52) div 2 ^ 52 = 2048 + unat (flip_sign x) div 2 ^ 52"
    by (rule div_mult_self1) simp
  then have e: "exponent_bits x = exponent_bits (flip_sign x)"
    unfolding exponent_bits_def unat_flip_sign [OF assms] by simp
  have "fraction_bits x = fraction_bits (flip_sign x)"
    unfolding fraction_bits_def unat_flip_sign [OF assms] by (rule mod_mult_self1)
  with e assms show "isfinite (flip_sign x) = isfinite x" "double_value x = - double_value (flip_sign x)"
    by (simp_all add: isfinite_iff double_value_def significand_def binary_exponent_def signbit_flip)
qed

lemma double_value_flip: "double_value (flip_sign y) = - double_value y"
  using flip_negative(2) [of y] flip_negative(2) [of "flip_sign y"]
  by (cases "signbit y") (simp_all add: signbit_flip flip_sign_flip)

lemma double_value_zero_iff: "\<not> signbit x \<Longrightarrow> double_value x = 0 \<longleftrightarrow> x = 0"
  using significand_positive [of x]
  by (cases "x = 0") (auto simp: double_value_def significand_def exponent_bits_def fraction_bits_def)

section \<open>The text of a double\<close>

definition json_number :: "string \<Rightarrow> bool" where
  "json_number t \<longleftrightarrow> unsigned_number (if t \<noteq> [] \<and> hd t = CHR ''-'' then tl t else t)"

lemma unsigned_text:
  assumes "isfinite x" "\<not> signbit x" "x \<noteq> 0" "double_value y \<noteq> double_value x"
  shows "\<exists>buf e t. grisu2 x = Inr (buf, e) \<and> length buf \<le> 17 \<and> format_buffer buf e (- 4) 15 = Inr t
    \<and> unsigned_number t \<and> length t \<le> 24 \<and> is_digit (hd t) \<and> t \<noteq> []
    \<and> lower_boundary x < unsigned_value t \<and> unsigned_value t < upper_boundary x
    \<and> \<bar>unsigned_value t - double_value x\<bar> < \<bar>unsigned_value t - double_value y\<bar>"
proof -
  obtain buf e where g: "grisu2 x = Inr (buf, e)" "digits_text buf" "buf \<noteq> []" "hd buf \<noteq> CHR ''0''"
    "length buf \<le> 17" "- 323 \<le> int (length buf) + e" "int (length buf) + e \<le> 310"
    "lower_boundary x < decimal_value buf e" "decimal_value buf e < upper_boundary x"
    using grisu2_result [OF assms(1-3)] by blast
  obtain t where t: "format_buffer buf e (- 4) 15 = Inr t" "unsigned_value t = decimal_value buf e"
    "unsigned_number t" "length t \<le> 24" "is_digit (hd t)" "t \<noteq> []"
    using format_buffer_result [OF g(2-7)] by blast
  with g nearest_of_interval [OF assms(2,3) g(8,9) assms(4)] show ?thesis by auto
qed

lemma zero_text: "unsigned_number ''0.0''" "unsigned_value ''0.0'' = 0"
  by (simp_all add: unsigned_number_def unsigned_value_def number_parts_def is_digit_def exponent_part_def
      decimal_value_def digits_num_def)

lemma to_chars_result:
  assumes "isfinite x" "double_value y \<noteq> double_value x"
  shows "\<exists>t. to_chars 64 x = Inr t \<and> json_number t \<and> length t \<le> 25 \<and> t \<noteq> [] \<and> (hd t = CHR ''-'' \<longleftrightarrow> signbit x)
    \<and> \<bar>text_value t - double_value x\<bar> < \<bar>text_value t - double_value y\<bar>"
proof (cases "signbit x")
  case False
  show ?thesis
  proof (cases "x = 0")
    case True
    then have "double_value x = 0" using False by (simp add: double_value_zero_iff)
    then show ?thesis using assms True False zero_text
      by (simp add: to_chars_def asserting_holds json_number_def text_value_def)
  next
    case nz: False
    obtain buf e t where t: "grisu2 x = Inr (buf, e)" "length buf \<le> 17" "format_buffer buf e (- 4) 15 = Inr t"
      "unsigned_number t" "length t \<le> 24" "is_digit (hd t)" "t \<noteq> []"
      "\<bar>unsigned_value t - double_value x\<bar> < \<bar>unsigned_value t - double_value y\<bar>"
      using unsigned_text [OF assms(1) False nz assms(2)] by blast
    have "to_chars 64 x = Inr t" using assms(1) False nz t(1-3) by (simp add: to_chars_def asserting_holds)
    moreover have "hd t \<noteq> CHR ''-''" using t(6) by (auto simp: is_digit_def)
    ultimately show ?thesis using t False by (simp add: json_number_def text_value_def)
  qed
next
  case True
  define x' where "x' = flip_sign x"
  have neg: "\<not> signbit x'" "isfinite x'" "double_value x = - double_value x'"
    using True assms(1) by (simp_all add: x'_def signbit_flip flip_negative)
  show ?thesis
  proof (cases "x' = 0")
    case zero: True
    then have "double_value x' = 0" using neg(1) by (simp add: double_value_zero_iff)
    moreover have "to_chars 64 x = Inr (''-'' @ ''0.0'')"
      using assms(1) True zero by (simp add: to_chars_def asserting_holds x'_def flip_sign_def)
    ultimately show ?thesis using assms True zero_text neg(3)
      by (simp add: json_number_def text_value_def)
  next
    case nz: False
    have "double_value (flip_sign y) \<noteq> double_value x'" using assms(2) neg(3) by (simp add: double_value_flip)
    from unsigned_text [OF neg(2,1) nz this] obtain buf e t where t: "grisu2 x' = Inr (buf, e)" "length buf \<le> 17"
      "format_buffer buf e (- 4) 15 = Inr t" "unsigned_number t" "length t \<le> 24" "is_digit (hd t)" "t \<noteq> []"
      "\<bar>unsigned_value t - double_value x'\<bar> < \<bar>unsigned_value t - double_value (flip_sign y)\<bar>" by blast
    have "to_chars 64 x = Inr (''-'' @ t)"
      using assms(1) True nz t(1-3) by (simp add: to_chars_def asserting_holds x'_def flip_sign_def)
    moreover have "\<bar>- unsigned_value t - double_value x\<bar> < \<bar>- unsigned_value t - double_value y\<bar>"
      using t(8) abs_minus_cancel [of "unsigned_value t - double_value x'"]
        abs_minus_cancel [of "unsigned_value t - double_value (flip_sign y)"]
      by (simp add: double_value_flip neg(3))
    ultimately show ?thesis using t True by (simp add: json_number_def text_value_def)
  qed
qed

lemma some_other_value: "\<exists>y. double_value y \<noteq> double_value x"
proof -
  have "double_value 0 = 0" "double_value 1 \<noteq> 0"
    by (simp_all add: double_value_zero_iff signbit_iff)
  then show ?thesis by metis
qed

text \<open>The text \<open>dump\<close> prints for a double: \<open>null\<close> for a NaN or an infinity.\<close>

definition float_text :: "u64 \<Rightarrow> string" where
  "float_text x = (case dump_float x of Inr t \<Rightarrow> t | Inl _ \<Rightarrow> [])"

lemma dump_float_text: "dump_float x = Inr (float_text x)"
proof -
  obtain y where "double_value y \<noteq> double_value x" using some_other_value by blast
  from to_chars_result [OF _ this] show ?thesis
    by (cases "isfinite x") (auto simp: float_text_def dump_float_def)
qed

text \<open>Property C4: every finite double is printed, no assertion of the algorithm fails on the way, and the
  printed decimal number is nearer to the double than to any double of another value, so that reading it
  back with correct rounding gives the double again.\<close>

theorem to_chars_nearest:
  assumes "isfinite x" "double_value y \<noteq> double_value x"
  shows "\<exists>t. to_chars 64 x = Inr t
    \<and> \<bar>text_value t - double_value x\<bar> < \<bar>text_value t - double_value y\<bar>"
  using to_chars_result [OF assms] by blast

theorem to_chars_nearest_witness:
  "\<exists>t. to_chars 64 0x3FB999999999999A = Inr t
    \<and> \<bar>text_value t - double_value 0x3FB999999999999A\<bar> < \<bar>text_value t - double_value 0x3FB999999999999B\<bar>"
proof (rule to_chars_nearest)
  show "isfinite 0x3FB999999999999A" by (simp add: isfinite_def)
  show "double_value 0x3FB999999999999B \<noteq> double_value 0x3FB999999999999A"
    by (simp add: double_value_def signbit_def significand_def binary_exponent_def exponent_bits_def
        fraction_bits_def)
qed

text \<open>Property C24: what \<open>dump\<close> writes for a double is \<open>null\<close> when it is not finite, and otherwise a number of
  the JSON grammar with the sign of the double, of at most 25 characters, well within the 64 bytes of
  \<open>number_buffer\<close>.\<close>

theorem dump_float_json_number:
  "\<exists>t. dump_float x = Inr t \<and> length t \<le> 25
     \<and> (if isfinite x then json_number t \<and> (hd t = CHR ''-'' \<longleftrightarrow> signbit x) else t = ''null'')"
proof -
  obtain y where "double_value y \<noteq> double_value x" using some_other_value by blast
  from to_chars_result [OF _ this] show ?thesis
    by (cases "isfinite x") (auto simp: dump_float_def)
qed

end
