(* ===== verification/Json_Dump.thy ===== *)
theory Json_Dump
  imports Json_Value Utf8 Json_Float_Roundtrip
begin

text \<open>
  The serializer of \<open>externals/json-3.1.2/json.h\<close>, which makes the body of every request:
  \<open>basic_json::dump\<close> and \<open>serializer::dump\<close>, \<open>dump_escaped\<close>, \<open>dump_integer\<close>, \<open>dump_float\<close>.  What the
  output adapter has received is the returned string.  Doubles are printed by \<open>Json_Float\<close>.
\<close>

section \<open>Strings\<close>

text \<open>
  \<open>string_buffer\<close> has 512 bytes.  \<open>snprintf\<close> writes a NUL behind the text; a write past the end of
  the buffer is undefined.
\<close>

definition string_buffer_size :: nat where
  "string_buffer_size = 512"

definition buffer_put :: "string \<Rightarrow> string \<Rightarrow> string res" where
  "buffer_put buf s =
     (if length buf + length s \<le> string_buffer_size then Inr (buf @ s)
      else Inl (Undefined_behaviour ''write past the end of string_buffer''))"

definition buffer_snprintf :: "string \<Rightarrow> string \<Rightarrow> string res" where
  "buffer_snprintf buf s =
     (if length buf + length s + 1 \<le> string_buffer_size then Inr (buf @ s)
      else Inl (Undefined_behaviour ''write past the end of string_buffer''))"

text \<open>\<open>\u%04x\<close> of a 16-bit value, and an escape of one letter.\<close>

definition u_escape :: "u16 \<Rightarrow> string" where
  "u_escape x = [CHR 0x5C, CHR ''u''] @ pad_left 4 CHR ''0'' (show_hex (unat x))"

definition short_escape :: "char \<Rightarrow> string" where
  "short_escape c = [CHR 0x5C, c]"

definition escape_codepoint :: "bool \<Rightarrow> u32 \<Rightarrow> char \<Rightarrow> string \<Rightarrow> string res" where
  "escape_codepoint ensure_ascii codepoint c buf =
     (if codepoint = 0x08 then buffer_put buf (short_escape CHR ''b'')
      else if codepoint = 0x09 then buffer_put buf (short_escape CHR ''t'')
      else if codepoint = 0x0A then buffer_put buf (short_escape CHR ''n'')
      else if codepoint = 0x0C then buffer_put buf (short_escape CHR ''f'')
      else if codepoint = 0x0D then buffer_put buf (short_escape CHR ''r'')
      else if codepoint = 0x22 then buffer_put buf (short_escape CHR 0x22)
      else if codepoint = 0x5C then buffer_put buf (short_escape CHR 0x5C)
      else if codepoint \<le> 0x1F \<or> ensure_ascii \<and> 0x7F \<le> codepoint
      then if codepoint \<le> 0xFFFF then buffer_snprintf buf (u_escape (ucast codepoint))
           else buffer_snprintf buf (u_escape (ucast (0xD7C0 + drop_bit 10 codepoint))
                  @ u_escape (ucast (0xDC00 + (codepoint AND 0x3FF))))
      else buffer_put buf [c])"

definition toupper :: "char \<Rightarrow> char" where
  "toupper c = (let n = (of_char c :: nat) in if 97 \<le> n \<and> n \<le> 122 then char_of (n - 32) else c)"

definition hex_byte :: "nat \<Rightarrow> string" where
  "hex_byte n = map toupper (pad_left 2 CHR ''0'' (show_hex n))"

text \<open>
  The loop over the bytes: \<open>i\<close> is the index, \<open>buf\<close> the first \<open>bytes\<close> bytes of the buffer, \<open>out\<close> what
  has been written.
\<close>

fun dump_escaped_loop ::
    "bool \<Rightarrow> string \<Rightarrow> nat \<Rightarrow> string \<Rightarrow> nat \<Rightarrow> u32 \<Rightarrow> string \<Rightarrow> string \<Rightarrow> string res" where
  "dump_escaped_loop ensure_ascii s i [] state codepoint buf out =
     (if state = UTF8_ACCEPT then Inr (out @ buf)
      else Inl (Type_error 316 (''incomplete UTF-8 string; last byte: 0x'' @ hex_byte (byte (last s)))))"
| "dump_escaped_loop ensure_ascii s i (c # cs) state codepoint buf out =
     (let (state', codepoint') = utf8_decode state codepoint (byte c)
      in if state' = UTF8_ACCEPT
         then bind_res (escape_codepoint ensure_ascii codepoint' c buf) (\<lambda>buf'.
              if string_buffer_size - length buf' < 13
              then dump_escaped_loop ensure_ascii s (i + 1) cs state' codepoint' [] (out @ buf')
              else dump_escaped_loop ensure_ascii s (i + 1) cs state' codepoint' buf' out)
         else if state' = UTF8_REJECT
         then Inl (Type_error 316 (''invalid UTF-8 byte at index '' @ show_nat i @ '': 0x'' @ hex_byte (byte c)))
         else if \<not> ensure_ascii
         then bind_res (buffer_put buf [c]) (\<lambda>buf'.
              dump_escaped_loop ensure_ascii s (i + 1) cs state' codepoint' buf' out)
         else dump_escaped_loop ensure_ascii s (i + 1) cs state' codepoint' buf out)"

definition dump_escaped :: "bool \<Rightarrow> string \<Rightarrow> string res" where
  "dump_escaped ensure_ascii s = dump_escaped_loop ensure_ascii s 0 s UTF8_ACCEPT 0 [] []"

section \<open>Numbers\<close>

text \<open>C++ division truncates towards zero.  The buffer of the digits has 64 bytes.\<close>

function integer_digits :: "int \<Rightarrow> string" where
  "integer_digits x =
     (if x = 0 then [] else digit_char (nat \<bar>x smod 10\<bar>) # integer_digits (x sdiv 10))"
  by pat_completeness auto
termination
proof (relation "measure (\<lambda>x. nat \<bar>x\<bar>)")
  fix x :: int
  assume "x \<noteq> 0"
  then have "\<bar>x sdiv 10\<bar> < \<bar>x\<bar>" by (simp add: signed_divide_int_def abs_mult)
  then show "(x sdiv 10, x) \<in> measure (\<lambda>x. nat \<bar>x\<bar>)" by simp
qed simp

declare integer_digits.simps [simp del]

definition dump_integer :: "int \<Rightarrow> string" where
  "dump_integer x =
     (if x = 0 then ''0''
      else (let is_negative = x \<le> 0 \<and> x \<noteq> 0;
                digits = integer_digits x
            in rev (if is_negative then digits @ ''-'' else digits)))"

section \<open>Values\<close>

record dump_options =
  opt_pretty_print :: bool
  opt_ensure_ascii :: bool
  opt_indent_step :: u32
  opt_indent_char :: char

text \<open>
  The state of the serializer is the size of \<open>indent_string\<close>, which starts with 512 indentation
  characters and is doubled once, with spaces, when it is too short.  \<open>write_indent\<close> reads \<open>n\<close> bytes of its \<open>c_str()\<close>: one more than the size is its NUL, beyond
  that the read is undefined.
\<close>

definition grow_indent :: "u32 \<Rightarrow> nat \<Rightarrow> nat" where
  "grow_indent new_indent isz = (if isz < unat new_indent then isz * 2 else isz)"

definition indent_string :: "dump_options \<Rightarrow> nat \<Rightarrow> string" where
  "indent_string opt isz = replicate 512 (opt_indent_char opt) @ replicate (isz - 512) CHR '' ''"

definition write_indent :: "dump_options \<Rightarrow> nat \<Rightarrow> u32 \<Rightarrow> string res" where
  "write_indent opt isz n =
     (if \<not> opt_pretty_print opt then Inr []
      else if unat n \<le> isz then Inr (take (unat n) (indent_string opt isz))
      else if unat n = isz + 1 then Inr (indent_string opt isz @ [CHR 0x00])
      else Inl (Undefined_behaviour ''read past the end of indent_string''))"

definition newline :: "dump_options \<Rightarrow> string" where
  "newline opt = (if opt_pretty_print opt then [CHR 0x0A] else [])"

definition inner_indent :: "dump_options \<Rightarrow> u32 \<Rightarrow> u32" where
  "inner_indent opt current_indent =
     (if opt_pretty_print opt then current_indent + opt_indent_step opt else current_indent)"

definition inner_size :: "dump_options \<Rightarrow> u32 \<Rightarrow> nat \<Rightarrow> nat" where
  "inner_size opt new_indent isz =
     (if opt_pretty_print opt then grow_indent new_indent isz else isz)"

fun json_weight :: "json \<Rightarrow> nat"
and members_weight :: "(string \<times> json) list \<Rightarrow> nat"
and elements_weight :: "json list \<Rightarrow> nat" where
  "json_weight (JObject kvs) = Suc (members_weight kvs)"
| "json_weight (JArray xs) = Suc (elements_weight xs)"
| "json_weight _ = 0"
| "members_weight [] = 0"
| "members_weight ((k, v) # kvs) = Suc (json_weight v + members_weight kvs)"
| "elements_weight [] = 0"
| "elements_weight (x # xs) = Suc (json_weight x + elements_weight xs)"

function dump :: "dump_options \<Rightarrow> u32 \<Rightarrow> json \<Rightarrow> nat \<Rightarrow> (string \<times> nat) res"
and dump_members :: "dump_options \<Rightarrow> u32 \<Rightarrow> (string \<times> json) list \<Rightarrow> nat
      \<Rightarrow> (string \<times> nat) res"
and dump_elements :: "dump_options \<Rightarrow> u32 \<Rightarrow> json list \<Rightarrow> nat
      \<Rightarrow> (string \<times> nat) res" where
  "dump opt current_indent (JObject kvs) isz =
     (if kvs = [] then Inr (''{}'', isz)
      else let new_indent = inner_indent opt current_indent
           in bind_res (dump_members opt new_indent kvs (inner_size opt new_indent isz)) (\<lambda>(body, isz).
              bind_res (write_indent opt isz current_indent) (\<lambda>ind.
              Inr (''{'' @ newline opt @ body @ newline opt @ ind @ ''}'', isz))))"
| "dump opt current_indent (JArray xs) isz =
     (if xs = [] then Inr (''[]'', isz)
      else let new_indent = inner_indent opt current_indent
           in bind_res (dump_elements opt new_indent xs (inner_size opt new_indent isz)) (\<lambda>(body, isz).
              bind_res (write_indent opt isz current_indent) (\<lambda>ind.
              Inr (''['' @ newline opt @ body @ newline opt @ ind @ '']'', isz))))"
| "dump opt current_indent (JString s) isz =
     bind_res (dump_escaped (opt_ensure_ascii opt) s) (\<lambda>t. Inr ([CHR 0x22] @ t @ [CHR 0x22], isz))"
| "dump opt current_indent (JBoolean b) isz = Inr (if b then ''true'' else ''false'', isz)"
| "dump opt current_indent (JInteger n) isz = Inr (dump_integer (sint n), isz)"
| "dump opt current_indent (JUnsigned n) isz = Inr (dump_integer (uint n), isz)"
| "dump opt current_indent (JFloat x) isz = bind_res (dump_float x) (\<lambda>t. Inr (t, isz))"
| "dump opt current_indent JDiscarded isz = Inr (''<discarded>'', isz)"
| "dump opt current_indent JNull isz = Inr (''null'', isz)"
| "dump_members opt new_indent [] isz = Inr ([], isz)"
| "dump_members opt new_indent ((k, v) # kvs) isz =
     bind_res (write_indent opt isz new_indent) (\<lambda>ind.
     bind_res (dump_escaped (opt_ensure_ascii opt) k) (\<lambda>key.
     bind_res (dump opt new_indent v isz) (\<lambda>(val, isz).
       let member = ind @ [CHR 0x22] @ key @ [CHR 0x22] @ (if opt_pretty_print opt then '': '' else '':'') @ val
       in if kvs = [] then Inr (member, isz)
          else bind_res (dump_members opt new_indent kvs isz) (\<lambda>(rest, isz).
               Inr (member @ '','' @ newline opt @ rest, isz)))))"
| "dump_elements opt new_indent [] isz = Inr ([], isz)"
| "dump_elements opt new_indent (x # xs) isz =
     bind_res (write_indent opt isz new_indent) (\<lambda>ind.
     bind_res (dump opt new_indent x isz) (\<lambda>(val, isz).
       if xs = [] then Inr (ind @ val, isz)
       else bind_res (dump_elements opt new_indent xs isz) (\<lambda>(rest, isz).
            Inr (ind @ val @ '','' @ newline opt @ rest, isz))))"
  by pat_completeness auto
termination
  by (relation "measure (\<lambda>x. case x of
        Inl (_, _, v, _) \<Rightarrow> json_weight v
      | Inr (Inl (_, _, kvs, _)) \<Rightarrow> members_weight kvs
      | Inr (Inr (_, _, xs, _)) \<Rightarrow> elements_weight xs)") auto

text \<open>The public member function: a negative \<open>indent\<close> means the compact form.\<close>

definition json_dump :: "int \<Rightarrow> char \<Rightarrow> bool \<Rightarrow> json \<Rightarrow> string res" where
  "json_dump indent indent_char ensure_ascii v =
     (let opt = \<lparr>opt_pretty_print = (0 \<le> indent), opt_ensure_ascii = ensure_ascii,
                 opt_indent_step = (if 0 \<le> indent then word_of_int indent else 0),
                 opt_indent_char = indent_char\<rparr>
      in bind_res (dump opt 0 v 512) (\<lambda>(t, _). Inr t))"

section \<open>What the text of a string is\<close>

text \<open>
  The abstract text of a JSON string: the two-character escapes, \<open>\u00XX\<close> for the other control
  characters, every other byte as it is.
\<close>

definition escape_char :: "char \<Rightarrow> string" where
  "escape_char c =
     (let n = byte c
      in if n = 0x08 then short_escape CHR ''b''
         else if n = 0x09 then short_escape CHR ''t''
         else if n = 0x0A then short_escape CHR ''n''
         else if n = 0x0C then short_escape CHR ''f''
         else if n = 0x0D then short_escape CHR ''r''
         else if n = 0x22 then short_escape CHR 0x22
         else if n = 0x5C then short_escape CHR 0x5C
         else if n \<le> 0x1F then u_escape (of_nat n)
         else [c])"

lemma length_u_escape: "length (u_escape x) = 6"
proof -
  have "unat x < 16 ^ 4" using unsigned_less [where w = x and 'a = nat] by simp
  then have "length (show_hex (unat x)) \<le> 4" by (intro show_base_length) simp_all
  then show ?thesis by (simp add: u_escape_def length_pad_left)
qed

lemma length_short_escape: "length (short_escape c) = 2"
  by (simp add: short_escape_def)

lemmas buffer_simps = buffer_put_def buffer_snprintf_def string_buffer_size_def length_u_escape
  length_short_escape

text \<open>An escape fits into the 13 bytes that are free before it, and takes at most 12.\<close>

lemma escape_codepoint_fits:
  assumes "length buf \<le> 499"
  shows "\<exists>t. escape_codepoint ensure_ascii cp c buf = Inr (buf @ t) \<and> length t \<le> 12"
  unfolding escape_codepoint_def using assms by (auto simp: buffer_simps)

lemma escape_codepoint_plain:
  assumes "\<not> ensure_ascii" "0x80 \<le> unat cp" "length buf < 512"
  shows "escape_codepoint ensure_ascii cp c buf = Inr (buf @ [c])"
  using assms by (auto simp: escape_codepoint_def buffer_simps word_le_nat_alt word_unat_eq_iff)

lemma escape_codepoint_ascii:
  assumes "\<not> ensure_ascii" "unat cp = byte c" "byte c < 0x80" "length buf \<le> 499"
  shows "escape_codepoint ensure_ascii cp c buf = Inr (buf @ escape_char c)"
proof -
  have "(ucast cp :: u16) = of_nat (byte c)" by (metis assms(2) of_nat_unat)
  then have "u_escape (ucast cp) = u_escape (of_nat (byte c))" by (rule arg_cong)
  with assms show ?thesis
    by (simp add: escape_codepoint_def escape_char_def word_unat_eq_iff word_le_nat_alt buffer_simps Let_def)
qed

text \<open>
  The loop, from a state that has read part of a character.  \<open>room\<close> bounds the bytes in the buffer:
  13 are free between characters, and without \<open>ensure_ascii\<close> a character's bytes are copied one by one.
\<close>

definition room :: "bool \<Rightarrow> nat \<Rightarrow> nat" where
  "room ensure_ascii st = (if st = 0 \<or> ensure_ascii then 499 else 503 - length (expects st))"

definition loop_result :: "bool \<Rightarrow> (nat \<times> nat) list \<Rightarrow> string \<Rightarrow> string \<Rightarrow> string res \<Rightarrow> bool" where
  "loop_result ensure_ascii rs pre cs r =
     (case r of
        Inr t \<Rightarrow> utf8_run rs (map byte cs) \<and> (\<not> ensure_ascii \<longrightarrow> t = pre @ concat (map escape_char cs))
      | Inl e \<Rightarrow> \<not> utf8_run rs (map byte cs) \<and> (\<exists>m. e = Type_error 316 m))"

lemma escape_char_high: "0x80 \<le> byte c \<Longrightarrow> escape_char c = [c]"
  by (simp add: escape_char_def)

lemma expects_0 [simp]: "expects 0 = []"
  by (simp add: expects_def)

lemma expects_live: "live s \<Longrightarrow> expects s = [] \<longleftrightarrow> s = 0"
  and expects_length: "length (expects s) \<le> 3"
  by (auto simp: live_def expects_def)

lemma utf8_decode_state: "utf8_decode st cp (byte c) = (next_state st (class_of (byte c)), snd (utf8_decode st cp (byte c)))"
  using fst_utf8_decode [OF byte_less] by (metis prod.collapse)

lemma expects_range: "live s \<Longrightarrow> expects s = (lo, hi) # rs \<Longrightarrow> 0x80 \<le> lo"
  by (auto simp: live_def expects_def utf8_tail_def)

text \<open>One byte: reject, continue, or finish a character.\<close>

lemma utf8_run_step:
  assumes "live st"
  shows "next_state st (class_of (byte c)) = 1 \<Longrightarrow> \<not> utf8_run (expects st) (map byte (c # cs))"
    and "next_state st (class_of (byte c)) \<noteq> 1 \<Longrightarrow>
      live (next_state st (class_of (byte c)))
      \<and> utf8_run (expects st) (map byte (c # cs))
        = utf8_run (expects (next_state st (class_of (byte c)))) (map byte cs)
      \<and> (st = 0 \<or> length (expects st) = Suc (length (expects (next_state st (class_of (byte c)))))
           \<and> 0x80 \<le> byte c)"
proof -
  have e0: "expects 0 = []" by (simp add: expects_def)
  have "next_state st (class_of (byte c)) = 1 \<and> \<not> utf8_run (expects st) (map byte (c # cs))
    \<or> next_state st (class_of (byte c)) \<noteq> 1 \<and> live (next_state st (class_of (byte c)))
      \<and> utf8_run (expects st) (map byte (c # cs))
        = utf8_run (expects (next_state st (class_of (byte c)))) (map byte cs)
      \<and> (st = 0 \<or> length (expects st) = Suc (length (expects (next_state st (class_of (byte c)))))
           \<and> 0x80 \<le> byte c)"
  proof (cases "st = 0")
    case True
    then show ?thesis
      using utf8_step_first [OF byte_less [of c]] by (auto simp: e0)
  next
    case False
    obtain lo hi where "expects st = (lo, hi) # tl (expects st)"
      "next_state st (class_of (byte c)) \<noteq> 1 \<longleftrightarrow> lo \<le> byte c \<and> byte c \<le> hi"
      "lo \<le> byte c \<and> byte c \<le> hi \<longrightarrow> live (next_state st (class_of (byte c)))
         \<and> expects (next_state st (class_of (byte c))) = tl (expects st)"
      using utf8_step_next [OF byte_less assms False] by blast
    moreover from this(1) obtain rs where "expects st = (lo, hi) # rs" by blast
    ultimately show ?thesis using expects_range [OF assms] by fastforce
  qed
  then show "next_state st (class_of (byte c)) = 1 \<Longrightarrow> \<not> utf8_run (expects st) (map byte (c # cs))"
    "next_state st (class_of (byte c)) \<noteq> 1 \<Longrightarrow>
      live (next_state st (class_of (byte c)))
      \<and> utf8_run (expects st) (map byte (c # cs))
        = utf8_run (expects (next_state st (class_of (byte c)))) (map byte cs)
      \<and> (st = 0 \<or> length (expects st) = Suc (length (expects (next_state st (class_of (byte c)))))
           \<and> 0x80 \<le> byte c)"
    by blast+
qed

lemma dump_escaped_loop_result:
  assumes "live st" "codepoint_ok st (unat cp)" "length buf \<le> room ensure_ascii st"
  shows "loop_result ensure_ascii (expects st) (out @ buf) cs
    (dump_escaped_loop ensure_ascii s i cs st cp buf out)"
  using assms
proof (induction cs arbitrary: i st cp buf out)
  case Nil
  then show ?case by (auto simp: loop_result_def UTF8_ACCEPT_def expects_live)
next
  case (Cons c cs)
  define st' where "st' = next_state st (class_of (byte c))"
  define cp' where "cp' = snd (utf8_decode st cp (byte c))"
  have dec: "utf8_decode st cp (byte c) = (st', cp')"
    unfolding st'_def cp'_def by (rule utf8_decode_state)
  note step = utf8_run_step [OF Cons.prems(1), of c cs, folded st'_def]
  show ?case
  proof (cases "st' = 1")
    case True
    with step(1) show ?thesis
      by (simp add: dec loop_result_def UTF8_ACCEPT_def UTF8_REJECT_def del: utf8_run.simps)
  next
    case False
    note step = step(2) [OF False]
    have cpok: "codepoint_ok st' (unat cp')"
      unfolding st'_def cp'_def
      using Cons.prems False first_codepoint(2) [OF byte_less] next_codepoint_ok(1) [OF byte_less]
      by (cases "st = 0") (auto simp: st'_def)
    show ?thesis
    proof (cases "st' = 0")
      case accept: True
      have "\<exists>t. escape_codepoint ensure_ascii cp' c buf = Inr (buf @ t)
        \<and> length (buf @ t) \<le> 512 \<and> (\<not> ensure_ascii \<longrightarrow> t = escape_char c)"
      proof (cases "ensure_ascii \<or> st = 0")
        case True
        then have l: "length buf \<le> 499" using Cons.prems(3) by (auto simp: room_def)
        obtain t where t: "escape_codepoint ensure_ascii cp' c buf = Inr (buf @ t)" "length t \<le> 12"
          using escape_codepoint_fits [OF l] by blast
        moreover have "t = escape_char c" if "\<not> ensure_ascii"
        proof -
          have "st = 0" using that True by simp
          then have "byte c < 0x80" using accept utf8_step_first(3) [OF byte_less] by (simp add: st'_def)
          then have "unat cp' = byte c"
            using first_codepoint(1) [OF byte_less] \<open>st = 0\<close> by (simp add: cp'_def)
          then show ?thesis
            using escape_codepoint_ascii [OF that _ \<open>byte c < 0x80\<close> l] t(1) by simp
        qed
        ultimately show ?thesis using l by auto
      next
        case False
        then have h: "\<not> ensure_ascii" "st \<noteq> 0" by simp_all
        then have l: "length buf < 512" using Cons.prems(3) expects_length [of st] by (simp add: room_def)
        have "0x80 \<le> unat cp'"
          unfolding cp'_def
          using next_codepoint_ok(2) [OF byte_less Cons.prems(1) h(2) Cons.prems(2)] accept
          by (simp add: st'_def)
        with h l step show ?thesis by (auto simp: escape_codepoint_plain escape_char_high)
      qed
      then obtain t where t: "escape_codepoint ensure_ascii cp' c buf = Inr (buf @ t)"
        "length (buf @ t) \<le> 512" "\<not> ensure_ascii \<longrightarrow> t = escape_char c" by blast
      have IH: "loop_result ensure_ascii (expects st') (out' @ buf') cs
          (dump_escaped_loop ensure_ascii s (i + 1) cs st' cp' buf' out')"
        if "length buf' \<le> 499" for buf' out'
        using Cons.IH [of st' cp' buf' out' "i + 1"] step cpok that accept by (simp add: room_def)
      have "loop_result ensure_ascii (expects st') (out @ buf @ t) cs
        (dump_escaped_loop ensure_ascii s i (c # cs) st cp buf out)"
        using IH [of "[]" "out @ buf @ t"] IH [of "buf @ t" out] t
        by (auto simp: dec t(1) accept UTF8_ACCEPT_def string_buffer_size_def)
      with step t(3) show ?thesis
        by (auto simp: loop_result_def split: sum.splits simp del: utf8_run.simps dump_escaped_loop.simps)
    next
      case more: False
      have IH: "loop_result ensure_ascii (expects st') (out @ buf') cs
          (dump_escaped_loop ensure_ascii s (i + 1) cs st' cp' buf' out)"
        if "length buf' \<le> room ensure_ascii st'" for buf'
        using Cons.IH [of st' cp' buf' out "i + 1"] step cpok that by simp
      show ?thesis
      proof (cases ensure_ascii)
        case True
        with IH [of buf] Cons.prems(3) more False step show ?thesis
          by (auto simp: dec loop_result_def room_def UTF8_ACCEPT_def UTF8_REJECT_def split: sum.splits
              simp del: utf8_run.simps)
      next
        case ea: False
        have high: "0x80 \<le> byte c"
          using step more utf8_step_first(3) [OF byte_less, of c] by (cases "st = 0") (auto simp: st'_def)
        have room: "length (buf @ [c]) \<le> room ensure_ascii st'" "length buf < 512"
          using Cons.prems(3) step more ea expects_length [of st'] by (auto simp: room_def split: if_splits)
        from IH [OF room(1)] room(2) ea more False step high show ?thesis
          by (auto simp: dec loop_result_def buffer_simps escape_char_high UTF8_ACCEPT_def UTF8_REJECT_def
              split: sum.splits simp del: utf8_run.simps)
      qed
    qed
  qed
qed

lemma dump_escaped_result:
  "case dump_escaped ensure_ascii s of
     Inr t \<Rightarrow> utf8_valid s \<and> (\<not> ensure_ascii \<longrightarrow> t = concat (map escape_char s))
   | Inl e \<Rightarrow> \<not> utf8_valid s \<and> (\<exists>m. e = Type_error 316 m)"
  using dump_escaped_loop_result [of 0 0 "[]" ensure_ascii "[]" s s 0]
  by (simp add: dump_escaped_def loop_result_def utf8_valid_def UTF8_ACCEPT_def live_def codepoint_ok_def
      room_def split: sum.splits)

text \<open>Property C26: \<open>dump_escaped\<close> succeeds exactly on well-formed UTF-8 (RFC 3629: no overlong form, no
  surrogate, nothing above U+10FFFF) and otherwise throws \<open>type_error\<close> 316; with and without
  \<open>ensure_ascii\<close> there is no other outcome, so it never writes past the end of its 512-byte buffer,
  which the model would report as undefined behaviour.\<close>

theorem dump_escaped_utf8_safe:
  "case dump_escaped ensure_ascii s of
     Inr t \<Rightarrow> utf8_valid s
   | Inl e \<Rightarrow> \<not> utf8_valid s \<and> (\<exists>m. e = Type_error 316 m)"
  using dump_escaped_result [of s ensure_ascii] by (auto split: sum.splits)

section \<open>Integers\<close>

lemma integer_digits_nat: "0 < n \<Longrightarrow> rev (integer_digits (int n)) = show_nat n"
  and integer_digits_neg: "0 < n \<Longrightarrow> rev (integer_digits (- int n)) = show_nat n"
proof -
  have q: "int n sdiv 10 = int (n div 10)" "int n smod 10 = int (n mod 10)"
    "(- int n) sdiv 10 = - int (n div 10)" "(- int n) smod 10 = - int (n mod 10)" for n :: nat
    by (auto simp: signed_divide_int_def signed_modulo_int_def sgn_if abs_if minus_div_mult_eq_mod
        zdiv_int zmod_int minus_mult_div_eq_mod)
  show "0 < n \<Longrightarrow> rev (integer_digits (int n)) = show_nat n"
  proof (induction n rule: less_induct)
    case (less n)
    then show ?case
      by (cases "n < 10") (auto simp: integer_digits.simps [of "int n"] integer_digits.simps [of 0] q
          show_base_small show_base_step)
  qed
  show "0 < n \<Longrightarrow> rev (integer_digits (- int n)) = show_nat n"
  proof (induction n rule: less_induct)
    case (less n)
    then show ?case
      by (cases "n < 10") (auto simp: integer_digits.simps [of "- int n"] integer_digits.simps [of 0] q
          show_base_small show_base_step)
  qed
qed

lemma dump_integer_eq: "dump_integer x = show_int x"
proof (cases "0 \<le> x")
  case True
  then show ?thesis
    using integer_digits_nat [of "nat x"] by (auto simp: dump_integer_def show_int_def show_base_small)
next
  case False
  then show ?thesis
    using integer_digits_neg [of "nat (- x)"] by (auto simp: dump_integer_def show_int_def)
qed

text \<open>\<open>dump_integer\<close>, whose loop divides with truncation and takes absolute remainders,
  prints the decimal representation of every number, and for 64-bit values (the smallest negative one
  included) needs at most 20 of the 64 bytes of its buffer.\<close>

theorem dump_integer_prints:
  "dump_integer x = (if x < 0 then ''-'' @ show_nat (nat (- x)) else show_nat (nat x))
   \<and> length (dump_integer (sint (n :: u64))) \<le> 20 \<and> length (dump_integer (uint n)) \<le> 20"
proof -
  have "nat (- sint n) < 10 ^ 19" "nat (sint n) < 10 ^ 19"
    using sint_range_size [of n] by (auto simp: word_size)
  then have s: "length (show_nat (nat (- sint n))) \<le> 19" "length (show_nat (nat (sint n))) \<le> 19"
    by (simp_all add: show_base_length)
  have "nat (uint n) < 10 ^ 20" using unsigned_less [where w = n and 'a = nat] by simp
  then have "length (show_nat (nat (uint n))) \<le> 20" by (intro show_base_length) simp_all
  with s show ?thesis by (simp add: dump_integer_eq show_int_def)
qed

section \<open>The text of a value\<close>

text \<open>The compact JSON text of a value, and the values whose strings and keys are well-formed UTF-8.\<close>

definition string_text :: "string \<Rightarrow> string" where
  "string_text s = [CHR 0x22] @ concat (map escape_char s) @ [CHR 0x22]"

fun json_text :: "json \<Rightarrow> string"
and members_text :: "(string \<times> json) list \<Rightarrow> string"
and elements_text :: "json list \<Rightarrow> string" where
  "json_text (JObject kvs) = ''{'' @ members_text kvs @ ''}''"
| "json_text (JArray xs) = ''['' @ elements_text xs @ '']''"
| "json_text (JString s) = string_text s"
| "json_text (JBoolean b) = (if b then ''true'' else ''false'')"
| "json_text (JInteger n) = show_int (sint n)"
| "json_text (JUnsigned n) = show_nat (unat n)"
| "json_text (JFloat x) = float_text x"
| "json_text JDiscarded = ''<discarded>''"
| "json_text JNull = ''null''"
| "members_text [] = []"
| "members_text ((k, v) # kvs) =
     string_text k @ '':'' @ json_text v @ (if kvs = [] then [] else '','' @ members_text kvs)"
| "elements_text [] = []"
| "elements_text (x # xs) =
     json_text x @ (if xs = [] then [] else '','' @ elements_text xs)"

fun json_utf8 :: "json \<Rightarrow> bool"
and members_utf8 :: "(string \<times> json) list \<Rightarrow> bool"
and elements_utf8 :: "json list \<Rightarrow> bool" where
  "json_utf8 (JObject kvs) = members_utf8 kvs"
| "json_utf8 (JArray xs) = elements_utf8 xs"
| "json_utf8 (JString s) = utf8_valid s"
| "json_utf8 _ = True"
| "members_utf8 [] = True"
| "members_utf8 ((k, v) # kvs) = (utf8_valid k \<and> json_utf8 v \<and> members_utf8 kvs)"
| "elements_utf8 [] = True"
| "elements_utf8 (x # xs) = (json_utf8 x \<and> elements_utf8 xs)"

lemma members_utf8_iff: "members_utf8 kvs \<longleftrightarrow> (\<forall>kv\<in>set kvs. utf8_valid (fst kv) \<and> json_utf8 (snd kv))"
  by (induction kvs) auto

lemma elements_utf8_iff: "elements_utf8 xs \<longleftrightarrow> (\<forall>x\<in>set xs. json_utf8 x)"
  by (induction xs) auto

definition compact :: "dump_options \<Rightarrow> bool" where
  "compact opt \<longleftrightarrow> \<not> opt_pretty_print opt \<and> \<not> opt_ensure_ascii opt"

definition text_or_316 :: "bool \<Rightarrow> string \<Rightarrow> nat \<Rightarrow> (string \<times> nat) res \<Rightarrow> bool" where
  "text_or_316 ok t isz r =
     (if ok then r = Inr (t, isz) else \<exists>m. r = Inl (Type_error 316 m))"

lemma dump_escaped_compact:
  "compact opt \<Longrightarrow> (if utf8_valid s then dump_escaped (opt_ensure_ascii opt) s = Inr (concat (map escape_char s))
     else \<exists>m. dump_escaped (opt_ensure_ascii opt) s = Inl (Type_error 316 m))"
  using dump_escaped_result [of s "opt_ensure_ascii opt"]
  by (auto simp: compact_def split: sum.splits)

lemma dump_compact:
  "compact opt \<Longrightarrow> text_or_316 (json_utf8 v) (json_text v) isz (dump opt ind v isz)"
  "compact opt \<Longrightarrow> text_or_316 (members_utf8 kvs) (members_text kvs) isz
     (dump_members opt ind kvs isz)"
  "compact opt \<Longrightarrow> text_or_316 (elements_utf8 xs) (elements_text xs) isz
     (dump_elements opt ind xs isz)"
proof (induction opt ind v isz and opt ind kvs isz and opt ind xs isz
    rule: dump_dump_members_dump_elements.induct)
  case (1 opt ind kvs isz)
  then show ?case
    by (cases kvs)
      (auto simp: text_or_316_def compact_def write_indent_def newline_def inner_indent_def inner_size_def
        Let_def split: if_splits)
next
  case (2 opt ind xs isz)
  then show ?case
    by (cases xs)
      (auto simp: text_or_316_def compact_def write_indent_def newline_def inner_indent_def inner_size_def
        Let_def split: if_splits)
next
  case (3 opt ind s isz)
  then show ?case
    using dump_escaped_compact [of opt s] by (auto simp: text_or_316_def string_text_def split: if_splits)
next
  case (11 opt ind k v kvs isz)
  have w: "write_indent opt isz ind = Inr []" "opt_pretty_print opt = False" "newline opt = []"
    using 11(3) by (simp_all add: write_indent_def compact_def newline_def)
  show ?case
  proof (cases "utf8_valid k")
    case True
    then have k: "dump_escaped (opt_ensure_ascii opt) k = Inr (concat (map escape_char k))"
      using dump_escaped_compact [OF 11(3), of k] by simp
    show ?thesis
    proof (cases "json_utf8 v")
      case v: True
      with 11(1) [OF 11(3)] have d: "dump opt ind v isz = Inr (json_text v, isz)"
        by (simp add: text_or_316_def)
      show ?thesis
        using 11(2) [OF refl _ 11(3), of isz] True v
        by (cases "kvs = []") (auto simp: text_or_316_def w k d string_text_def split: if_splits)
    next
      case False
      with 11(1) [OF 11(3)] show ?thesis by (auto simp: text_or_316_def w k)
    qed
  next
    case False
    then show ?thesis
      using dump_escaped_compact [OF 11(3), of k] by (auto simp: text_or_316_def w)
  qed
next
  case (13 opt ind x xs isz)
  have w: "write_indent opt isz ind = Inr []" "newline opt = []"
    using 13(3) by (simp_all add: write_indent_def compact_def newline_def)
  show ?case
  proof (cases "json_utf8 x")
    case True
    with 13(1) [OF 13(3)] have d: "dump opt ind x isz = Inr (json_text x, isz)"
      by (simp add: text_or_316_def)
    show ?thesis
      using 13(2) [OF _ 13(3), of isz] True
      by (cases "xs = []") (auto simp: text_or_316_def w d split: if_splits)
  next
    case False
    with 13(1) [OF 13(3)] show ?thesis by (auto simp: text_or_316_def w)
  qed
qed (simp_all add: text_or_316_def dump_integer_eq show_int_def dump_float_text)

text \<open>Property C6: the compact \<open>dump()\<close> the library sends is the JSON text of the value (members in
  key order, strings escaped, no white space) exactly when all strings and keys are well-formed
  UTF-8; otherwise it throws \<open>type_error\<close> 316 and never does anything else.\<close>

theorem dump_is_json_text:
  "case json_dump (- 1) indent_char False v of
     Inr t \<Rightarrow> json_utf8 v \<and> t = json_text v
   | Inl e \<Rightarrow> \<not> json_utf8 v \<and> (\<exists>m. e = Type_error 316 m)"
proof -
  define opt where "opt = \<lparr>opt_pretty_print = False, opt_ensure_ascii = False, opt_indent_step = 0,
    opt_indent_char = indent_char\<rparr>"
  have "compact opt" by (simp add: opt_def compact_def)
  from dump_compact(1) [OF this, of v 512 0] show ?thesis
    by (cases "json_utf8 v") (auto simp: json_dump_def text_or_316_def opt_def [symmetric])
qed

text \<open>Pretty printing with an indentation that doubling the 512-byte \<open>indent_string\<close> once
  does not reach reads past the string's end.\<close>

theorem dump_large_indent_undefined:
  assumes "1025 < n" "n < 2 ^ 31"
  shows "json_dump n indent_char ensure_ascii (JArray (v # vs))
    = Inl (Undefined_behaviour ''read past the end of indent_string'')"
proof -
  have "unat (word_of_int n :: u32) = nat n"
    using assms by (simp add: unsigned_of_int take_bit_int_eq_self)
  moreover have "512 < nat n" "\<not> nat n \<le> 1024" "nat n \<noteq> 1025" "nat n \<noteq> Suc 1024" "0 \<le> n"
    using assms by linarith+
  ultimately show ?thesis
    by (simp add: json_dump_def write_indent_def inner_indent_def inner_size_def grow_indent_def Let_def)
qed

theorem dump_large_indent_undefined_witness:
  "json_dump 2000 CHR '' '' False (JArray [JNull])
    = Inl (Undefined_behaviour ''read past the end of indent_string'')"
  by (rule dump_large_indent_undefined) simp_all

end
