(* ===== verification/Hub.thy ===== *)
theory Hub
  imports Scope Transport Time_Stamp Json_Dump
begin

text \<open>
  Class \<open>Hub\<close> of \<open>src/hub.h\<close> and \<open>src/hub.cpp\<close>: one scope, one transport, the rate limit on repeated
  messages and the handlers for signals and uncaught exceptions.  The record has the members of the
  class (the two limits are constants, since nothing changes them); \<open>installed_handler\<close> says whether
  the static pointer \<open>m_hub_that_installed_termination_handler\<close> is this hub, and \<open>handled_signals\<close>
  are the signals whose handler is \<open>signalsHandler\<close>.  An operation that may throw returns its result
  together with the hub it leaves.  Everything an operation reads from outside is in \<open>environ\<close>.
\<close>

record environ =
  env_zone :: "tm \<Rightarrow> int"
  env_rand :: "u32 \<Rightarrow> nat"
  env_uuid :: "u8 list"
  now_event :: nat
  now_check :: nat
  now_sample :: nat
  now_breadcrumb :: nat

record hub =
  m_initialised :: bool
  m_sampleRate :: int
  default_termination_handler :: bool
  installed_handler :: bool
  handled_signals :: "nat list"
  m_lastEventId :: string
  m_listOfLastUniqueEventsWithTimestamps :: "(string \<times> string) list"
  hub_pHttpClient :: "transport option"
  m_scope :: scope
  m_isSourceAvailable :: bool

definition m_maxEventsPerInterval :: nat where
  "m_maxEventsPerInterval = 3"

definition m_maxEventsRepetitionIntervalInSeconds :: int where
  "m_maxEventsRepetitionIntervalInSeconds = 3600"

definition Hub_new :: "scope \<Rightarrow> hub" where
  "Hub_new s =
     \<lparr>m_initialised = False, m_sampleRate = 100, default_termination_handler = False,
      installed_handler = False, handled_signals = [], m_lastEventId = [],
      m_listOfLastUniqueEventsWithTimestamps = [], hub_pHttpClient = None, m_scope = s,
      m_isSourceAvailable = False\<rparr>"

section \<open>Set up and tear down\<close>

definition handled_signal_numbers :: "nat list" where
  "handled_signal_numbers = [2, 15, 11, 6, 7, 8, 4]"

definition installHandler :: "hub \<Rightarrow> hub" where
  "installHandler h =
     (let h = (if \<not> default_termination_handler h
               then h\<lparr>default_termination_handler := True, installed_handler := True\<rparr> else h)
      in h\<lparr>handled_signals := remdups (handled_signal_numbers @ handled_signals h)\<rparr>)"

text \<open>
  Assigning the new transport destroys the old one first.  \<open>-1\<close> stands for the default number of
  breadcrumbs; any other number is cast to 16 bits.
\<close>

definition Hub_init :: "string \<Rightarrow> int \<Rightarrow> bool \<Rightarrow> int \<Rightarrow> hub \<Rightarrow> EErrorCode res \<times> hub" where
  "Hub_init dsn maxBreadcrumbs sourceAvailable sampleRate h =
     (let h = (if maxBreadcrumbs \<noteq> -1
               then h\<lparr>m_scope := Scope_setMaxBreadcrumbs (word_of_int maxBreadcrumbs) (m_scope h)\<rparr> else h);
          h = h\<lparr>m_isSourceAvailable := sourceAvailable, m_sampleRate := sampleRate\<rparr>;
          (errorCode, newDSNStruct) = parseDSN dsn empty_dsn
      in if errorCode \<noteq> NO_ERROR then (Inr errorCode, h)
         else case (case hub_pHttpClient h of Some old \<Rightarrow> Transport_destroy old | None \<Rightarrow> Inr ()) of
                Inl e \<Rightarrow> (Inl e, h)
              | Inr _ \<Rightarrow>
                  (let t = Transport_start Transport_new;
                       (r, t) = setupClient newDSNStruct t;
                       h = h\<lparr>hub_pHttpClient := Some t\<rparr>
                   in case r of
                        Inl e \<Rightarrow> (Inl e, h)
                      | Inr errorCode \<Rightarrow>
                          (Inr errorCode,
                           if errorCode = NO_ERROR then installHandler (h\<lparr>m_initialised := True\<rparr>) else h)))"

definition isInitialised :: "hub \<Rightarrow> bool" where
  "isInitialised h = m_initialised h"

definition closeHttpConnection ::
    "bool \<Rightarrow> (nat \<Rightarrow> tick) \<Rightarrow> hub \<Rightarrow> (unit res \<times> hub) option" where
  "closeHttpConnection on_worker ticks h =
     (case hub_pHttpClient h of
        None \<Rightarrow> Some (Inr (), h)
      | Some t \<Rightarrow> (case Transport_stop on_worker ticks t of
            None \<Rightarrow> None
          | Some (r, t') \<Rightarrow> Some (r, h\<lparr>hub_pHttpClient := Some t'\<rparr>)))"

text \<open>The destructor: an exception that leaves it ends the process, and so may the transport's.\<close>

definition Hub_destroy :: "(nat \<Rightarrow> tick) \<Rightarrow> hub \<Rightarrow> unit res option" where
  "Hub_destroy ticks h =
     (case closeHttpConnection False ticks h of
        None \<Rightarrow> None
      | Some (Inl (Terminate m), _) \<Rightarrow> Some (Inl (Terminate m))
      | Some (Inl _, _) \<Rightarrow> Some (Inl (Terminate ''exception in a noexcept function''))
      | Some (Inr _, h') \<Rightarrow>
          Some (case hub_pHttpClient h' of Some t \<Rightarrow> Transport_destroy t | None \<Rightarrow> Inr ()))"

section \<open>Tags, extras and breadcrumbs\<close>

definition Hub_setTag :: "string \<Rightarrow> string \<Rightarrow> hub \<Rightarrow> unit res \<times> hub" where
  "Hub_setTag key val h =
     (if key = ''release'' then (Inr (), h\<lparr>m_scope := Scope_setRelease val (m_scope h)\<rparr>)
      else case Scope_setTag key val (m_scope h) of
             Inl e \<Rightarrow> (Inl e, h)
           | Inr s \<Rightarrow> (Inr (), h\<lparr>m_scope := s\<rparr>))"

definition Hub_setExtra :: "string \<Rightarrow> string \<Rightarrow> hub \<Rightarrow> unit res \<times> hub" where
  "Hub_setExtra key val h =
     (case Scope_setExtra key val (m_scope h) of
        Inl e \<Rightarrow> (Inl e, h)
      | Inr s \<Rightarrow> (Inr (), h\<lparr>m_scope := s\<rparr>))"

definition copy_attribute :: "json \<Rightarrow> string \<Rightarrow> json \<Rightarrow> json res" where
  "copy_attribute attributes key breadcrumb =
     (case json_find key attributes of
        Some v \<Rightarrow> json_set key v breadcrumb
      | None \<Rightarrow> Inr breadcrumb)"

definition make_breadcrumb :: "string \<Rightarrow> json \<Rightarrow> json res" where
  "make_breadcrumb timestamp attributes =
     (let breadcrumb = json_braces
            [json_braces [JString ''timestamp'', JString timestamp],
             json_braces [JString ''type'', JString ''default''],
             json_braces [JString ''level'', JString ''info'']]
      in bind_res
           (if is_object attributes
            then bind_res (copy_attribute attributes ''type'' breadcrumb) (\<lambda>breadcrumb.
                 bind_res (copy_attribute attributes ''level'' breadcrumb) (\<lambda>breadcrumb.
                 bind_res (copy_attribute attributes ''category'' breadcrumb) (\<lambda>breadcrumb.
                 bind_res (copy_attribute attributes ''data'' breadcrumb) (\<lambda>breadcrumb.
                 copy_attribute attributes ''message'' breadcrumb))))
            else Inr breadcrumb) (\<lambda>breadcrumb.
         bind_res (json_at ''level'' breadcrumb) (\<lambda>level.
         json_set ''category'' level breadcrumb)))"

definition Hub_addBreadcrumb :: "environ \<Rightarrow> json \<Rightarrow> hub \<Rightarrow> unit res \<times> hub" where
  "Hub_addBreadcrumb env attributes h =
     (case bind_res (ISO8601_timestamp (now_breadcrumb env)) (\<lambda>timestamp. make_breadcrumb timestamp attributes) of
        Inl e \<Rightarrow> (Inl e, h)
      | Inr breadcrumb \<Rightarrow> (Inr (), h\<lparr>m_scope := Scope_addBreadcrumb breadcrumb (m_scope h)\<rparr>))"

section \<open>The rate limit\<close>

text \<open>
  The range-based \<open>for\<close> erases from the container it iterates over: \<open>erase(entry.first)\<close> takes away every
  entry with the key of the old entry, the one of the loop's iterator among them, and the increment
  that follows is then undefined.  The run ends there, with the list as the \<open>erase\<close> has left it.
\<close>

fun removeOldEvents_loop ::
    "(tm \<Rightarrow> int) \<Rightarrow> string \<Rightarrow> (string \<times> string) list \<Rightarrow> (string \<times> string) list
      \<Rightarrow> unit res \<times> (string \<times> string) list" where
  "removeOldEvents_loop zone currTime [] es = (Inr (), es)"
| "removeOldEvents_loop zone currTime (entry # rest) es =
     (case isTimeDiffGreaterThan zone (snd entry) currTime m_maxEventsRepetitionIntervalInSeconds of
        Inl e \<Rightarrow> (Inl e, es)
      | Inr oldEnoughToRemove \<Rightarrow>
          if oldEnoughToRemove
          then (let es = om_erase (fst entry) es
                in (Inl (Undefined_behaviour ''increment of an invalidated iterator''), es))
          else removeOldEvents_loop zone currTime rest es)"

definition removeOldEventsFromList :: "environ \<Rightarrow> hub \<Rightarrow> unit res \<times> hub" where
  "removeOldEventsFromList env h =
     (case ISO8601_timestamp (now_check env) of
        Inl e \<Rightarrow> (Inl e, h)
      | Inr currTime \<Rightarrow>
          (let (r, es) = removeOldEvents_loop (env_zone env) currTime
                 (m_listOfLastUniqueEventsWithTimestamps h) (m_listOfLastUniqueEventsWithTimestamps h)
           in (r, h\<lparr>m_listOfLastUniqueEventsWithTimestamps := es\<rparr>)))"

definition checkIfEventTooOften :: "environ \<Rightarrow> json \<Rightarrow> string \<Rightarrow> hub \<Rightarrow> bool res \<times> hub" where
  "checkIfEventTooOften env event timestamp h =
     (case removeOldEventsFromList env h of
        (Inl e, h) \<Rightarrow> (Inl e, h)
      | (Inr _, h) \<Rightarrow>
          (case bind_res (json_at ''message'' event) json_get_string of
             Inl e \<Rightarrow> (Inl e, h)
           | Inr message \<Rightarrow>
               if m_maxEventsPerInterval \<le> mm_count message (m_listOfLastUniqueEventsWithTimestamps h)
               then (Inr True, h)
               else (Inr False,
                     h\<lparr>m_listOfLastUniqueEventsWithTimestamps :=
                         mm_emplace message timestamp (m_listOfLastUniqueEventsWithTimestamps h)\<rparr>)))"

section \<open>Capturing\<close>

text \<open>The payload: the event with id, time stamp and platform set, then the scope applied to it.\<close>

definition make_payload :: "string \<Rightarrow> string \<Rightarrow> json \<Rightarrow> scope \<Rightarrow> json res" where
  "make_payload eventId timestamp event s =
     bind_res (json_set ''event_id'' (JString eventId) event) (\<lambda>payload.
     bind_res (json_set ''timestamp'' (JString timestamp) payload) (\<lambda>payload.
     bind_res (json_set ''platform'' (JString ''other'') payload) (\<lambda>payload.
     Scope_applyToEvent s payload)))"

text \<open>\<open>std::srand\<close> with the time, then one \<open>std::rand\<close>.\<close>

definition sampled :: "environ \<Rightarrow> hub \<Rightarrow> bool" where
  "sampled env h \<longleftrightarrow> int (env_rand env (of_nat (now_sample env)) mod 100) < m_sampleRate h"

definition send_payload :: "environ \<Rightarrow> string \<Rightarrow> hub \<Rightarrow> unit res \<times> hub" where
  "send_payload env contentsToSend h =
     (if sampled env h
      then (case hub_pHttpClient h of
              None \<Rightarrow> (Inl (Undefined_behaviour ''null pointer''), h)
            | Some t \<Rightarrow> (Inr (), h\<lparr>hub_pHttpClient := Some (sendEvent contentsToSend t)\<rparr>))
      else (Inr (), h))"

definition captureEvent_unlimited :: "environ \<Rightarrow> json \<Rightarrow> string \<Rightarrow> string \<Rightarrow> hub \<Rightarrow> string res \<times> hub" where
  "captureEvent_unlimited env event eventId timestamp h =
     (case bind_res (make_payload eventId timestamp event (m_scope h)) (json_dump (- 1) CHR '' '' False) of
        Inl e \<Rightarrow> (Inl e, h)
      | Inr contentsToSend \<Rightarrow>
          (case send_payload env contentsToSend h of
             (Inl e, h) \<Rightarrow> (Inl e, h)
           | (Inr _, h) \<Rightarrow>
               (case Hub_addBreadcrumb env event h of
                  (Inl e, h) \<Rightarrow> (Inl e, h)
                | (Inr _, h) \<Rightarrow> (Inr eventId, h))))"

definition Hub_captureEvent :: "environ \<Rightarrow> json \<Rightarrow> hub \<Rightarrow> string res \<times> hub" where
  "Hub_captureEvent env event h =
     (let eventId = generateUuid (env_uuid env);
          h = h\<lparr>m_lastEventId := eventId\<rparr>
      in case ISO8601_timestamp (now_event env) of
           Inl e \<Rightarrow> (Inl e, h)
         | Inr timestamp \<Rightarrow>
             if json_find ''message'' event \<noteq> None
             then (case checkIfEventTooOften env event timestamp h of
                     (Inl e, h) \<Rightarrow> (Inl e, h)
                   | (Inr True, h) \<Rightarrow> (Inr [], h)
                   | (Inr False, h) \<Rightarrow> captureEvent_unlimited env event eventId timestamp h)
             else captureEvent_unlimited env event eventId timestamp h)"

definition Hub_lastEventId :: "hub \<Rightarrow> string" where
  "Hub_lastEventId h = m_lastEventId h"

text \<open>The stack trace is the value (or the failure) of \<open>backtraceHandler::getStacktraceJSON\<close>.\<close>

definition exception_attributes :: "(string \<times> json) list \<Rightarrow> json \<Rightarrow> json res" where
  "exception_attributes attributes frames =
     bind_res (foldl (\<lambda>r (k, v). bind_res r (json_set k v)) (Inr JNull) attributes) (\<lambda>j.
     bind_res (json_at ''stacktrace'' j) (\<lambda>st.
     bind_res (json_set ''frames'' frames st) (\<lambda>st.
     json_set ''stacktrace'' st j)))"

definition Hub_captureException ::
    "environ \<Rightarrow> json res \<Rightarrow> string \<Rightarrow> string \<Rightarrow> json \<Rightarrow> bool \<Rightarrow> hub \<Rightarrow> string res \<times> hub" where
  "Hub_captureException env stacktrace type what context handled h =
     (case bind_res stacktrace (\<lambda>frames.
           bind_res (exception_attributes
             [(''type'', JString type), (''value'', JString what), (''handled'', JBoolean handled)] frames)
             (\<lambda>currentAttributes.
           json_set ''exception'' currentAttributes (if json_is_null context then JNull else context))) of
        Inl e \<Rightarrow> (Inl e, h)
      | Inr exceptionInterface \<Rightarrow> Hub_captureEvent env exceptionInterface h)"

section \<open>Handlers\<close>

datatype current_exception =
    No_exception
  | Std_exception string string
  | Other_exception

text \<open>
  \<open>signalsHandler\<close> up to the final \<open>raise(sig)\<close>, which the default action then handles: \<open>Some\<close> of
  \<open>Inr\<close> when it is reached, \<open>None\<close> when the join in \<open>closeHttpConnection\<close> never returns.
\<close>

definition signalsHandler ::
    "environ \<Rightarrow> json res \<Rightarrow> (nat \<Rightarrow> string) \<Rightarrow> bool \<Rightarrow> (nat \<Rightarrow> tick) \<Rightarrow> nat \<Rightarrow> hub \<Rightarrow> (unit res \<times> hub) option" where
  "signalsHandler env stacktrace siglist on_worker ticks sig h =
     (if hub_pHttpClient h = None then Some (Inl (Terminate ''assertion failed''), h)
      else
        let h = h\<lparr>handled_signals := removeAll sig (handled_signals h)\<rparr>
        in case bind_res stacktrace (\<lambda>frames.
                bind_res (exception_attributes [(''type'', JString (siglist sig))] frames) (\<lambda>currentAttributes.
                bind_res (json_set ''exception'' currentAttributes JNull) (\<lambda>exceptionInterface.
                json_set ''logger'' (JString ''signals_handler'') exceptionInterface))) of
             Inl e \<Rightarrow> Some (Inl (Terminate ''exception in a signal handler''), h)
           | Inr exceptionInterface \<Rightarrow>
               (case Hub_captureEvent env exceptionInterface h of
                  (Inl e, h) \<Rightarrow> Some (Inl (Terminate ''exception in a signal handler''), h)
                | (Inr _, h) \<Rightarrow> closeHttpConnection on_worker ticks h))"

text \<open>
  \<open>terminationHandler\<close> up to the call of the handler it replaced, which aborts: an exception that is
  no \<open>std::exception\<close>, and every exception thrown inside, leaves the handler and terminates at once.
\<close>

definition terminationHandler ::
    "environ \<Rightarrow> json res \<Rightarrow> bool \<Rightarrow> (nat \<Rightarrow> tick) \<Rightarrow> current_exception \<Rightarrow> hub \<Rightarrow> (unit res \<times> hub) option" where
  "terminationHandler env stacktrace on_worker ticks current_ex h =
     (if hub_pHttpClient h = None then Some (Inl (Terminate ''assertion failed''), h)
      else
        case (case current_ex of
                No_exception \<Rightarrow> (Inr [], h)
              | Other_exception \<Rightarrow> (Inl (Terminate ''exception in the terminate handler''), h)
              | Std_exception type what \<Rightarrow>
                  (case json_set ''logger'' (JString ''termination_handler'') JNull of
                     Inl e \<Rightarrow> (Inl e, h)
                   | Inr context \<Rightarrow> Hub_captureException env stacktrace type what context False h)) of
          (Inl e, h) \<Rightarrow> Some (Inl (Terminate ''exception in the terminate handler''), h)
        | (Inr _, h) \<Rightarrow>
            (case closeHttpConnection on_worker ticks h of
               None \<Rightarrow> None
             | Some (Inl e, h) \<Rightarrow> Some (Inl (Terminate ''exception in the terminate handler''), h)
             | Some (Inr _, h) \<Rightarrow> Some (Inr (), h)))"

end
