(* ===== verification/Hub_Properties.thy ===== *)
theory Hub_Properties
  imports Hub
begin

text \<open>
  What the operations of \<open>Hub\<close> do: the breadcrumbs it makes, the rate limit on repeated messages, the
  payload of a captured event, and the invariant of every reachable hub.
\<close>

section \<open>Breadcrumbs\<close>

lemma fresh_breadcrumb:
  "json_braces [json_braces [JString ''timestamp'', JString ts], json_braces [JString ''type'', JString ''default''],
      json_braces [JString ''level'', JString ''info'']]
   = JObject [(''level'', JString ''info''), (''timestamp'', JString ts), (''type'', JString ''default'')]"
  by (simp add: json_braces_def map_filter_simps)

lemma json_ok_find: "json_find k a = Some v \<Longrightarrow> json_ok a \<Longrightarrow> json_ok v"
  by (cases a) (force simp: json_find_def dest: map_of_SomeD)+

lemma copy_attribute_object:
  assumes "is_object b" "json_ok b" "json_ok a"
  shows "\<exists>b'. copy_attribute a k b = Inr b' \<and> is_object b' \<and> json_ok b'
    \<and> (\<forall>x. json_find x b' = (if x = k \<and> json_find k a \<noteq> None then json_find k a else json_find x b))"
proof (cases "json_find k a")
  case None
  with assms show ?thesis by (simp add: copy_attribute_def)
next
  case (Some v)
  have "json_ok v" by (rule json_ok_find [OF Some assms(3)])
  obtain kvs where b: "b = JObject kvs" using assms(1) by (auto simp: is_object_iff)
  then have s: "json_set k v b = Inr (JObject (om_put k v kvs))" by (simp add: json_set_def)
  with Some assms(2) b \<open>json_ok v\<close> show ?thesis
    using json_find_set [OF s assms(2)] json_ok_set [OF s assms(2) \<open>json_ok v\<close>]
    by (simp add: copy_attribute_def is_object_iff del: json_ok.simps)
qed

definition attribute_or :: "json \<Rightarrow> string \<Rightarrow> string \<Rightarrow> json" where
  "attribute_or a k d = (case json_find k a of Some v \<Rightarrow> v | None \<Rightarrow> JString d)"

lemma make_breadcrumb_object:
  assumes "json_ok a"
  shows "\<exists>b. make_breadcrumb ts a = Inr b \<and> is_object b \<and> json_ok b
    \<and> (\<forall>k. json_find k b =
        (if k = ''timestamp'' then Some (JString ts)
         else if k = ''type'' then Some (attribute_or a ''type'' ''default'')
         else if k = ''level'' \<or> k = ''category'' then Some (attribute_or a ''level'' ''info'')
         else if k = ''data'' \<or> k = ''message'' then json_find k a
         else None))"
proof -
  let ?b0 = "JObject [(''level'', JString ''info''), (''timestamp'', JString ts), (''type'', JString ''default'')]"
  have b0: "is_object ?b0" "json_ok ?b0" by (simp_all add: is_object_def)
  have find0: "json_find k ?b0 = (if k = ''timestamp'' then Some (JString ts)
      else if k = ''type'' then Some (JString ''default'') else if k = ''level'' then Some (JString ''info'')
      else None)" for k
    by (simp add: json_find_def)
  obtain b1 where b1: "copy_attribute a ''type'' ?b0 = Inr b1" "is_object b1" "json_ok b1"
    "\<And>x. json_find x b1 = (if x = ''type'' \<and> json_find ''type'' a \<noteq> None then json_find ''type'' a else json_find x ?b0)"
    using copy_attribute_object [OF b0 assms] by blast
  obtain b2 where b2: "copy_attribute a ''level'' b1 = Inr b2" "is_object b2" "json_ok b2"
    "\<And>x. json_find x b2 = (if x = ''level'' \<and> json_find ''level'' a \<noteq> None then json_find ''level'' a else json_find x b1)"
    using copy_attribute_object [OF b1(2,3) assms] by blast
  obtain b3 where b3: "copy_attribute a ''category'' b2 = Inr b3" "is_object b3" "json_ok b3"
    "\<And>x. json_find x b3 = (if x = ''category'' \<and> json_find ''category'' a \<noteq> None then json_find ''category'' a else json_find x b2)"
    using copy_attribute_object [OF b2(2,3) assms] by blast
  obtain b4 where b4: "copy_attribute a ''data'' b3 = Inr b4" "is_object b4" "json_ok b4"
    "\<And>x. json_find x b4 = (if x = ''data'' \<and> json_find ''data'' a \<noteq> None then json_find ''data'' a else json_find x b3)"
    using copy_attribute_object [OF b3(2,3) assms] by blast
  obtain b5 where b5: "copy_attribute a ''message'' b4 = Inr b5" "is_object b5" "json_ok b5"
    "\<And>x. json_find x b5 = (if x = ''message'' \<and> json_find ''message'' a \<noteq> None then json_find ''message'' a else json_find x b4)"
    using copy_attribute_object [OF b4(2,3) assms] by blast
  define b where "b = (if is_object a then b5 else ?b0)"
  have none: "json_find k a = None" if "\<not> is_object a" for k
    using that by (cases a) (simp_all add: json_find_def is_object_def)
  have b: "is_object b" "json_ok b" using b0 b5 by (simp_all add: b_def)
  have level: "json_find ''level'' b = Some (attribute_or a ''level'' ''info'')"
    using none by (auto simp: b_def b5 b4 b3 b2 b1 find0 attribute_or_def split: option.split)
  obtain kvs where kvs: "b = JObject kvs" using b(1) by (auto simp: is_object_iff)
  let ?l = "attribute_or a ''level'' ''info''"
  have at: "json_at ''level'' b = Inr ?l"
    using level by (simp add: kvs json_at_def json_find_def)
  have okl: "json_ok ?l"
    using assms by (auto simp: attribute_or_def dest: json_ok_find split: option.split)
  have set: "json_set ''category'' ?l b = Inr (JObject (om_put ''category'' ?l kvs))"
    by (simp add: kvs json_set_def)
  have "make_breadcrumb ts a = Inr (JObject (om_put ''category'' ?l kvs))"
    using b1(1) b2(1) b3(1) b4(1) b5(1) at set
    by (simp add: make_breadcrumb_def fresh_breadcrumb Let_def b_def split: if_splits)
  moreover have "json_find k b = (if k = ''timestamp'' then Some (JString ts)
         else if k = ''type'' then Some (attribute_or a ''type'' ''default'')
         else if k = ''level'' then Some ?l
         else if k = ''category'' \<or> k = ''data'' \<or> k = ''message'' then json_find k a
         else None)" for k
    using none by (auto simp: b_def b5 b4 b3 b2 b1 find0 attribute_or_def split: option.split)
  ultimately show ?thesis
    using json_find_set [OF set b(2)] json_ok_set [OF set b(2) okl] by (simp add: is_object_iff del: json_ok.simps)
qed

definition fresh_scope :: scope where
  "fresh_scope =
     \<lparr>m_userName = [], m_transactionName = [], m_release = [], m_level = LEVEL_INFO,
      m_fingerprint = [], m_maxBreadcrumbs = 100, m_breadcrumbs = [],
      m_extras = JNull, m_tags = JNull, m_contexts = JNull\<rparr>"

definition sample_env :: "u8 list \<Rightarrow> nat \<Rightarrow> environ" where
  "sample_env uuid t =
     \<lparr>env_zone = \<lambda>_. 0, env_rand = \<lambda>_. 42, env_uuid = uuid,
      now_event = t, now_check = t, now_sample = t, now_breadcrumb = t\<rparr>"

text \<open>\<open>Hub::addBreadcrumb\<close> always succeeds and appends one breadcrumb with the time stamp,
  the caller's type (default \<open>default\<close>), level (default \<open>info\<close>), data and message; its category is
  the level, whatever category the caller gave.\<close>

theorem addBreadcrumb_fields:
  assumes "now_breadcrumb env < 253402300800" "json_ok a"
  shows "\<exists>b ts. ISO8601_timestamp (now_breadcrumb env) = Inr ts
    \<and> Hub_addBreadcrumb env a h = (Inr (), h\<lparr>m_scope := Scope_addBreadcrumb b (m_scope h)\<rparr>)
    \<and> json_ok b
    \<and> (\<forall>k. json_find k b =
        (if k = ''timestamp'' then Some (JString ts)
         else if k = ''type'' then Some (attribute_or a ''type'' ''default'')
         else if k = ''level'' \<or> k = ''category'' then Some (attribute_or a ''level'' ''info'')
         else if k = ''data'' \<or> k = ''message'' then json_find k a
         else None))"
proof -
  let ?ts = "strftime_FTTZ (gmtime (now_breadcrumb env))"
  obtain b where "make_breadcrumb ?ts a = Inr b" "json_ok b" "\<forall>k. json_find k b =
        (if k = ''timestamp'' then Some (JString ?ts)
         else if k = ''type'' then Some (attribute_or a ''type'' ''default'')
         else if k = ''level'' \<or> k = ''category'' then Some (attribute_or a ''level'' ''info'')
         else if k = ''data'' \<or> k = ''message'' then json_find k a
         else None)"
    using make_breadcrumb_object [OF assms(2)] by blast
  then show ?thesis
    by (intro exI [of _ b] exI [of _ ?ts]) (simp add: Hub_addBreadcrumb_def timestamp_ok(1) [OF assms(1)])
qed

theorem addBreadcrumb_fields_witness:
  "\<exists>b. Hub_addBreadcrumb (sample_env [] 1570000000)
      (JObject [(''category'', JString ''log''), (''level'', JString ''debug'')]) (Hub_new fresh_scope)
     = (Inr (), (Hub_new fresh_scope)\<lparr>m_scope := Scope_addBreadcrumb b fresh_scope\<rparr>)
    \<and> json_find ''category'' b = Some (JString ''debug'')"
proof -
  have "now_breadcrumb (sample_env [] 1570000000) < 253402300800" by (simp add: sample_env_def)
  moreover have "json_ok (JObject [(''category'', JString ''log''), (''level'', JString ''debug'')])" by simp
  ultimately show ?thesis
    using addBreadcrumb_fields [of "sample_env [] 1570000000"
        "JObject [(''category'', JString ''log''), (''level'', JString ''debug'')]" "Hub_new fresh_scope"]
    by (auto simp: attribute_or_def json_find_def Hub_new_def)
qed

section \<open>The rate limit\<close>

text \<open>The entries the check at time \<open>now_check\<close> does not find old.\<close>

definition entry_fresh :: "environ \<Rightarrow> string \<times> string \<Rightarrow> bool" where
  "entry_fresh env entry \<longleftrightarrow>
     bind_res (ISO8601_timestamp (now_check env)) (\<lambda>cur.
       isTimeDiffGreaterThan (env_zone env) (snd entry) cur m_maxEventsRepetitionIntervalInSeconds) = Inr False"

definition entry_old :: "environ \<Rightarrow> string \<times> string \<Rightarrow> bool" where
  "entry_old env entry \<longleftrightarrow>
     bind_res (ISO8601_timestamp (now_check env)) (\<lambda>cur.
       isTimeDiffGreaterThan (env_zone env) (snd entry) cur m_maxEventsRepetitionIntervalInSeconds) = Inr True"

abbreviation recent :: "hub \<Rightarrow> (string \<times> string) list" where
  "recent \<equiv> m_listOfLastUniqueEventsWithTimestamps"

lemma removeOld_fresh:
  "\<forall>e\<in>set xs. isTimeDiffGreaterThan z (snd e) cur m_maxEventsRepetitionIntervalInSeconds = Inr False
   \<Longrightarrow> removeOldEvents_loop z cur xs es = (Inr (), es)"
  by (induction xs) auto


lemma removeOldEventsFromList_fresh:
  assumes "now_check env < 253402300800" "\<forall>e\<in>set (recent h). entry_fresh env e"
  shows "removeOldEventsFromList env h = (Inr (), h)"
  using assms removeOld_fresh [of "recent h" "env_zone env"]
  by (simp add: removeOldEventsFromList_def entry_fresh_def timestamp_ok)


text \<open>Whatever happens, the list stays as it is, unless the run ends in the loop.\<close>

lemma removeOld_frame:
  "removeOldEvents_loop z cur xs es = (r, es') \<Longrightarrow> es' = es
    \<or> ((\<exists>w. r = Inl (Undefined_behaviour w)) \<and> (\<exists>k. es' = om_erase k es))"
  by (induction xs) (auto simp: Let_def split: sum.splits if_splits)

lemma removeOldEventsFromList_frame:
  assumes "removeOldEventsFromList env h = (r, h')"
  shows "h' = h \<or> ((\<exists>w. r = Inl (Undefined_behaviour w))
    \<and> (\<exists>k. h' = h\<lparr>m_listOfLastUniqueEventsWithTimestamps := om_erase k (recent h)\<rparr>))"
proof (cases "ISO8601_timestamp (now_check env)")
  case (Inl e)
  with assms show ?thesis by (simp add: removeOldEventsFromList_def)
next
  case (Inr cur)
  obtain r1 es where l: "removeOldEvents_loop (env_zone env) cur (recent h) (recent h) = (r1, es)" by fastforce
  with assms Inr have "r1 = r" "h' = h\<lparr>m_listOfLastUniqueEventsWithTimestamps := es\<rparr>"
    by (simp_all add: removeOldEventsFromList_def)
  with removeOld_frame [OF l] show ?thesis by auto
qed

lemma json_at_find: "json_find k j = Some v \<Longrightarrow> json_at k j = Inr v"
  by (cases j) (simp_all add: json_find_def json_at_def)

lemma json_ok_at: "json_at k j = Inr v \<Longrightarrow> json_ok j \<Longrightarrow> json_ok v"
  using json_ok_find [of k j] json_at_find [of k j]
  by (cases "json_find k j"; cases j) (auto simp: json_at_def json_find_def)

lemma checkIfEventTooOften_fresh:
  assumes "now_check env < 253402300800" "\<forall>e\<in>set (recent h). entry_fresh env e"
    "json_find ''message'' event = Some (JString m)"
  shows "checkIfEventTooOften env event ts h =
    (if 3 \<le> mm_count m (recent h) then (Inr True, h)
     else (Inr False, h\<lparr>m_listOfLastUniqueEventsWithTimestamps := mm_emplace m ts (recent h)\<rparr>))"
  using assms
  by (simp add: checkIfEventTooOften_def removeOldEventsFromList_fresh json_at_find json_get_string_def
      m_maxEventsPerInterval_def)

section \<open>The payload of an event\<close>

text \<open>The fields of the payload, and that it is well-formed UTF-8 when what it is made of is.\<close>

definition payload_field :: "string \<Rightarrow> string \<Rightarrow> json \<Rightarrow> scope \<Rightarrow> string \<Rightarrow> json option" where
  "payload_field eventId ts event s k =
     (if k = ''event_id'' then Some (JString eventId)
      else if k = ''timestamp'' then Some (JString ts)
      else if k = ''platform'' then Some (JString ''other'')
      else case json_find k event of Some v \<Rightarrow> Some v | None \<Rightarrow> map_of (scope_fields s) k)"

lemma members_utf8_put:
  "members_utf8 kvs \<Longrightarrow> utf8_valid k \<Longrightarrow> json_utf8 v \<Longrightarrow> members_utf8 (om_put k v kvs)"
  unfolding members_utf8_iff by (auto simp del: ball_om_put dest!: subsetD [OF set_om_put])

lemma members_utf8_emplace:
  "members_utf8 kvs \<Longrightarrow> utf8_valid k \<Longrightarrow> json_utf8 v \<Longrightarrow> members_utf8 (om_emplace k v kvs)"
  unfolding members_utf8_iff by (auto simp del: ball_om_emplace dest!: subsetD [OF set_om_emplace])

lemma members_utf8_fold:
  "members_utf8 kvs \<Longrightarrow> members_utf8 new \<Longrightarrow> members_utf8 (fold (\<lambda>(k, v). om_emplace k v) new kvs)"
  by (induction new arbitrary: kvs) (auto simp: members_utf8_emplace)

lemma json_set_object:
  assumes "j = JNull \<or> is_object j" "json_ok j" "json_ok v"
  shows "\<exists>j'. json_set k v j = Inr j' \<and> is_object j' \<and> json_ok j'
    \<and> (\<forall>x. json_find x j' = (if x = k then Some v else json_find x j))
    \<and> (json_utf8 j \<longrightarrow> utf8_valid k \<longrightarrow> json_utf8 v \<longrightarrow> json_utf8 j')"
proof -
  obtain j' where j: "json_set k v j = Inr j'" "is_object j'"
    using assms(1) by (auto simp: json_set_def is_object_iff)
  have "json_utf8 j \<longrightarrow> utf8_valid k \<longrightarrow> json_utf8 v \<longrightarrow> json_utf8 j'"
    using j(1) assms(1) by (auto simp: json_set_def is_object_iff members_utf8_put)
  with j json_find_set [OF j(1) assms(2)] json_ok_set [OF j(1) assms(2,3)] show ?thesis by simp
qed

lemma utf8_literals: "utf8_valid ''event_id''" "utf8_valid ''timestamp''" "utf8_valid ''platform''" "utf8_valid ''other''"
  by (intro utf8_valid_ascii; auto simp: byte_def)+

lemma make_payload_object:
  assumes "event = JNull \<or> is_object event" "json_ok event" "scope_ok s"
  shows "\<exists>p. make_payload eventId ts event s = Inr p \<and> is_object p \<and> json_ok p
    \<and> (\<forall>k. json_find k p = payload_field eventId ts event s k)
    \<and> (json_utf8 event \<longrightarrow> members_utf8 (scope_fields s) \<longrightarrow> utf8_valid eventId \<longrightarrow> utf8_valid ts \<longrightarrow> json_utf8 p)"
proof -
  obtain p1 where p1: "json_set ''event_id'' (JString eventId) event = Inr p1" "is_object p1" "json_ok p1"
    "\<forall>x. json_find x p1 = (if x = ''event_id'' then Some (JString eventId) else json_find x event)"
    "json_utf8 event \<longrightarrow> utf8_valid eventId \<longrightarrow> json_utf8 p1"
    using json_set_object [OF assms(1,2), of "JString eventId" "''event_id''"] utf8_literals by auto
  obtain p2 where p2: "json_set ''timestamp'' (JString ts) p1 = Inr p2" "is_object p2" "json_ok p2"
    "\<forall>x. json_find x p2 = (if x = ''timestamp'' then Some (JString ts) else json_find x p1)"
    "json_utf8 p1 \<longrightarrow> utf8_valid ts \<longrightarrow> json_utf8 p2"
    using json_set_object [of p1 "JString ts" "''timestamp''"] p1(2,3) utf8_literals by auto
  obtain p3 where p3: "json_set ''platform'' (JString ''other'') p2 = Inr p3" "is_object p3" "json_ok p3"
    "\<forall>x. json_find x p3 = (if x = ''platform'' then Some (JString ''other'') else json_find x p2)"
    "json_utf8 p2 \<longrightarrow> json_utf8 p3"
    using json_set_object [of p2 "JString ''other''" "''platform''"] p2(2,3) utf8_literals by auto
  obtain kvs where kvs: "p3 = JObject kvs" using p3(2) by (auto simp: is_object_iff)
  let ?p = "JObject (fold (\<lambda>(k, v). om_emplace k v) (scope_fields s) kvs)"
  have "om_ok kvs" using p3(3) kvs by simp
  then have find: "json_find k ?p = (case json_find k p3 of Some v \<Rightarrow> Some v | None \<Rightarrow> map_of (scope_fields s) k)" for k
    using omap.lookup_fold_emplace [of kvs "scope_fields s"] by (simp add: json_find_def kvs)
  have "json_ok ?p"
    using p3(3) kvs scope_fields_ok [OF assms(3)] by (intro json_ok_fold_emplace) auto
  moreover have "make_payload eventId ts event s = Inr ?p"
    by (simp add: make_payload_def p1(1) p2(1) p3(1) kvs Scope_applyToEvent_object)
  moreover have "json_find k ?p = payload_field eventId ts event s k" for k
    unfolding find payload_field_def using p1(4) p2(4) p3(4) by (simp split: option.split)
  moreover have "json_utf8 event \<longrightarrow> members_utf8 (scope_fields s) \<longrightarrow> utf8_valid eventId \<longrightarrow> utf8_valid ts \<longrightarrow> json_utf8 ?p"
    using p1(5) p2(5) p3(5) members_utf8_fold [of kvs "scope_fields s"] by (auto simp: kvs)
  ultimately show ?thesis by (simp add: is_object_iff)
qed

lemma json_dump_text:
  "json_utf8 v \<Longrightarrow> json_dump (- 1) c False v = Inr (json_text v)"
proof -
  assume v: "json_utf8 v"
  define opt where "opt = \<lparr>opt_pretty_print = False, opt_ensure_ascii = False, opt_indent_step = 0,
    opt_indent_char = c\<rparr>"
  have "compact opt" by (simp add: opt_def compact_def)
  from dump_compact(1) [OF this, of v 512 0] v show ?thesis
    by (simp add: json_dump_def text_or_316_def opt_def [symmetric])
qed

section \<open>Capturing an event\<close>

definition clock_ok :: "environ \<Rightarrow> bool" where
  "clock_ok env \<longleftrightarrow> now_event env < 253402300800 \<and> now_check env < 253402300800
     \<and> now_breadcrumb env < 253402300800"

definition event_ok :: "json \<Rightarrow> bool" where
  "event_ok event \<longleftrightarrow> (event = JNull \<or> is_object event) \<and> json_ok event \<and> json_utf8 event"

definition event_time :: "environ \<Rightarrow> string" where
  "event_time env = strftime_FTTZ (gmtime (now_event env))"

text \<open>The scope can be sent: its stores are well formed and its texts are UTF-8.\<close>

definition scope_sendable :: "scope \<Rightarrow> bool" where
  "scope_sendable s \<longleftrightarrow> scope_ok s \<and> members_utf8 (scope_fields s)"

text \<open>The event is not subject to the rate limit, or within it.\<close>

definition within_limit :: "environ \<Rightarrow> json \<Rightarrow> hub \<Rightarrow> bool" where
  "within_limit env event h \<longleftrightarrow>
     (case json_find ''message'' event of
        None \<Rightarrow> True
      | Some (JString m) \<Rightarrow> mm_count m (recent h) < 3 \<and> list_all (entry_fresh env) (recent h)
      | Some _ \<Rightarrow> False)"

definition remember_message :: "environ \<Rightarrow> json \<Rightarrow> hub \<Rightarrow> hub" where
  "remember_message env event h =
     (case json_find ''message'' event of
        Some (JString m) \<Rightarrow>
          h\<lparr>m_listOfLastUniqueEventsWithTimestamps := mm_emplace m (event_time env) (recent h)\<rparr>
      | _ \<Rightarrow> h)"

lemma remember_message_frame [simp]:
  "m_scope (remember_message env event h) = m_scope h"
  "hub_pHttpClient (remember_message env event h) = hub_pHttpClient h"
  "m_sampleRate (remember_message env event h) = m_sampleRate h"
  "m_lastEventId (remember_message env event h) = m_lastEventId h"
  by (simp_all add: remember_message_def split: option.split json.split)

lemma sampled_cong: "m_sampleRate h = m_sampleRate h' \<Longrightarrow> sampled env h = sampled env h'"
  by (simp add: sampled_def)

lemma captureEvent_unlimited_ok:
  assumes "clock_ok env" "event_ok event" "scope_sendable (m_scope h)" "hub_pHttpClient h = Some t"
    "utf8_valid eventId" "utf8_valid ts"
  shows "\<exists>p b. make_payload eventId ts event (m_scope h) = Inr p \<and> is_object p
    \<and> (\<forall>k. json_find k p = payload_field eventId ts event (m_scope h) k)
    \<and> json_ok b
    \<and> captureEvent_unlimited env event eventId ts h
       = (Inr eventId,
          h\<lparr>hub_pHttpClient := Some (if sampled env h then sendEvent (json_text p) t else t),
            m_scope := Scope_addBreadcrumb b (m_scope h)\<rparr>)"
proof -
  have e: "event = JNull \<or> is_object event" "json_ok event" "json_utf8 event"
    and s: "scope_ok (m_scope h)" "members_utf8 (scope_fields (m_scope h))"
    using assms(2,3) by (simp_all add: event_ok_def scope_sendable_def)
  obtain p where p: "make_payload eventId ts event (m_scope h) = Inr p" "is_object p"
    "\<forall>k. json_find k p = payload_field eventId ts event (m_scope h) k" "json_utf8 p"
    using make_payload_object [OF e(1,2) s(1), of eventId ts] e(3) s(2) assms(5,6) by blast
  obtain b where b: "make_breadcrumb (strftime_FTTZ (gmtime (now_breadcrumb env))) event = Inr b" "json_ok b"
    using make_breadcrumb_object [OF e(2)] by blast
  have t: "ISO8601_timestamp (now_breadcrumb env) = Inr (strftime_FTTZ (gmtime (now_breadcrumb env)))"
    using assms(1) by (simp add: clock_ok_def timestamp_ok)
  have c: "captureEvent_unlimited env event eventId ts h
       = (Inr eventId,
          h\<lparr>hub_pHttpClient := Some (if sampled env h then sendEvent (json_text p) t else t),
            m_scope := Scope_addBreadcrumb b (m_scope h)\<rparr>)"
    using assms(4) p(1,4) b(1) t
    by (simp add: captureEvent_unlimited_def json_dump_text send_payload_def Hub_addBreadcrumb_def)
  show ?thesis
    by (rule exI [of _ p], rule exI [of _ b]) (use p b c in simp)
qed

lemma utf8_event_time: "utf8_valid (event_time env)"
  by (rule utf8_valid_ascii) (auto simp: byte_def event_time_def dest: strftime_ascii)

lemma utf8_generateUuid: "utf8_valid (generateUuid bs)"
  by (rule utf8_valid_ascii) (auto simp: byte_def dest: generateUuid_ascii)

lemma captureEvent_within:
  assumes "clock_ok env" "within_limit env event h"
  shows "Hub_captureEvent env event h
    = captureEvent_unlimited env event (generateUuid (env_uuid env)) (event_time env)
        (remember_message env event (h\<lparr>m_lastEventId := generateUuid (env_uuid env)\<rparr>))"
proof -
  let ?h = "h\<lparr>m_lastEventId := generateUuid (env_uuid env)\<rparr>"
  have t: "ISO8601_timestamp (now_event env) = Inr (event_time env)" "now_check env < 253402300800"
    using assms(1) by (simp_all add: clock_ok_def timestamp_ok event_time_def)
  show ?thesis
  proof (cases "json_find ''message'' event")
    case None
    then show ?thesis by (simp add: Hub_captureEvent_def t remember_message_def Let_def)
  next
    case (Some v)
    with assms(2) obtain m where m: "json_find ''message'' event = Some (JString m)"
      "mm_count m (recent h) < 3" "list_all (entry_fresh env) (recent h)"
      by (cases v) (auto simp: within_limit_def)
    have "\<forall>e\<in>set (recent ?h). entry_fresh env e" using m(3) by (simp add: list_all_iff)
    from checkIfEventTooOften_fresh [OF t(2) this m(1), of "event_time env"] m show ?thesis
      by (simp add: Hub_captureEvent_def t remember_message_def Let_def)
  qed
qed

lemma captureEvent_delivers:
  assumes "clock_ok env" "event_ok event" "scope_sendable (m_scope h)"
    and "hub_pHttpClient h = Some t" "sampled env h" "within_limit env event h"
  shows "\<exists>p b. (\<forall>k. json_find k p
         = payload_field (generateUuid (env_uuid env)) (event_time env) event (m_scope h) k)
    \<and> Hub_captureEvent env event h = (Inr (generateUuid (env_uuid env)),
        (remember_message env event (h\<lparr>m_lastEventId := generateUuid (env_uuid env)\<rparr>))
          \<lparr>hub_pHttpClient := Some (sendEvent (json_text p) t),
           m_scope := Scope_addBreadcrumb b (m_scope h)\<rparr>)"
proof -
  define h1 where "h1 = remember_message env event (h\<lparr>m_lastEventId := generateUuid (env_uuid env)\<rparr>)"
  have f: "m_scope h1 = m_scope h" "hub_pHttpClient h1 = Some t"
    using assms(4) by (simp_all add: h1_def)
  have "sampled env h1" using assms(5) sampled_cong [of h1 h env] by (simp add: h1_def)
  with captureEvent_unlimited_ok [OF assms(1,2), of h1 t "generateUuid (env_uuid env)" "event_time env"] assms(3) f
      utf8_event_time utf8_generateUuid [of "env_uuid env"]
  show ?thesis
    unfolding captureEvent_within [OF assms(1,6)] h1_def [symmetric] by auto
qed

text \<open>Property C5: a captured event that the rate limit lets through and sampling selects is queued
  once, behind what is queued already, as the JSON text of a payload whose \<open>event_id\<close>, \<open>timestamp\<close>
  and \<open>platform\<close> are the library's, whose other fields are the event's own, completed by the fields
  of the scope; the call returns the id, remembers it, and leaves one new breadcrumb.\<close>

theorem captureEvent_sends_payload:
  assumes "clock_ok env" "event_ok event" "scope_sendable (m_scope h)"
    and "hub_pHttpClient h = Some t" "accepts_events t" "sampled env h" "within_limit env event h"
  shows "\<exists>p b t' h'. Hub_captureEvent env event h = (Inr (generateUuid (env_uuid env)), h')
    \<and> hub_pHttpClient h' = Some t'
    \<and> queued_contents t' = queued_contents t @ [json_text p]
    \<and> (\<forall>k. json_find k p
         = payload_field (generateUuid (env_uuid env)) (event_time env) event (m_scope h) k)
    \<and> m_scope h' = Scope_addBreadcrumb b (m_scope h)
    \<and> m_lastEventId h' = generateUuid (env_uuid env)"
proof -
  from captureEvent_delivers [OF assms(1-4,6,7)] obtain p b where
    "\<forall>k. json_find k p = payload_field (generateUuid (env_uuid env)) (event_time env) event (m_scope h) k"
    "Hub_captureEvent env event h = (Inr (generateUuid (env_uuid env)),
        (remember_message env event (h\<lparr>m_lastEventId := generateUuid (env_uuid env)\<rparr>))
          \<lparr>hub_pHttpClient := Some (sendEvent (json_text p) t),
           m_scope := Scope_addBreadcrumb b (m_scope h)\<rparr>)" by blast
  then show ?thesis
    by (intro exI [of _ p] exI [of _ b]) (simp add: sink.queued_send [OF assms(5)])
qed

definition sample_hub :: hub where
  "sample_hub = (Hub_new fresh_scope)\<lparr>m_initialised := True, hub_pHttpClient := Some ready_transport\<rparr>"

lemma sample_facts:
  "clock_ok (sample_env bs 1570000000)" "scope_sendable fresh_scope" "accepts_events ready_transport"
  "queued_contents ready_transport = []" "recent sample_hub = []" "m_scope sample_hub = fresh_scope"
  "hub_pHttpClient sample_hub = Some ready_transport" "sampled (sample_env bs 1570000000) sample_hub"
proof -
  have "utf8_valid ''info''" "utf8_valid ''level''"
    by (intro utf8_valid_ascii; auto simp: byte_def)+
  then show "scope_sendable fresh_scope"
    by (simp add: scope_sendable_def scope_ok_def store_ok_def fresh_scope_def scope_fields_def
        levelToString_def LEVEL_INFO_def LEVEL_FATAL_def LEVEL_ERROR_def LEVEL_WARNING_def LEVEL_DEBUG_def)
qed (simp_all add: clock_ok_def sample_env_def accepts_events_def ready_transport_def Transport_new_def
    queued_contents_def sample_hub_def Hub_new_def sampled_def)

definition sample_event :: json where
  "sample_event = JObject [(''message'', JString ''hi'')]"

lemma sample_event_ok: "event_ok sample_event" "json_find ''message'' sample_event = Some (JString ''hi'')"
proof -
  have "utf8_valid ''hi''" "utf8_valid ''message''"
    by (intro utf8_valid_ascii; auto simp: byte_def)+
  then show "event_ok sample_event" by (simp add: event_ok_def sample_event_def is_object_def)
qed (simp add: sample_event_def json_find_def)

theorem captureEvent_sends_payload_witness:
  "\<exists>p t' h'. Hub_captureEvent (sample_env [1, 2] 1570000000) sample_event sample_hub
      = (Inr (generateUuid [1, 2]), h')
    \<and> hub_pHttpClient h' = Some t'
    \<and> queued_contents t' = [json_text p]
    \<and> json_find ''message'' p = Some (JString ''hi'') \<and> json_find ''platform'' p = Some (JString ''other'')"
proof -
  let ?env = "sample_env [1, 2] 1570000000"
  have "within_limit ?env sample_event sample_hub"
    by (simp add: within_limit_def sample_event_ok sample_facts mm_count_def)
  then obtain p b t' h' where "Hub_captureEvent ?env sample_event sample_hub = (Inr (generateUuid (env_uuid ?env)), h')"
    "hub_pHttpClient h' = Some t'"
    "queued_contents t' = queued_contents ready_transport @ [json_text p]"
    "\<forall>k. json_find k p = payload_field (generateUuid (env_uuid ?env)) (event_time ?env) sample_event (m_scope sample_hub) k"
    using captureEvent_sends_payload [of ?env sample_event sample_hub ready_transport]
      sample_facts sample_event_ok(1) by auto
  then show ?thesis
    by (auto simp: sample_facts payload_field_def sample_event_ok sample_env_def)
qed

text \<open>When the fourth event with the same message arrives and no remembered entry is
  older than an hour, the event is dropped: nothing is queued, no breadcrumb is left, the call returns
  the empty string; only the last event id changes.\<close>

theorem captureEvent_drops_repeated:
  assumes "clock_ok env" "json_find ''message'' event = Some (JString m)"
    and "3 \<le> mm_count m (recent h)" "list_all (entry_fresh env) (recent h)"
  shows "Hub_captureEvent env event h = (Inr [], h\<lparr>m_lastEventId := generateUuid (env_uuid env)\<rparr>)"
proof -
  let ?h = "h\<lparr>m_lastEventId := generateUuid (env_uuid env)\<rparr>"
  have t: "ISO8601_timestamp (now_event env) = Inr (event_time env)" "now_check env < 253402300800"
    using assms(1) by (simp_all add: clock_ok_def timestamp_ok event_time_def)
  have "\<forall>e\<in>set (recent ?h). entry_fresh env e" using assms(4) by (simp add: list_all_iff)
  from checkIfEventTooOften_fresh [OF t(2) this assms(2), of "event_time env"] assms(2,3) show ?thesis
    by (simp add: Hub_captureEvent_def t Let_def)
qed

text \<open>Entries made less than an hour before the check, in a zone without change of offset, are fresh.\<close>

lemma entry_fresh_constant_zone:
  assumes "now_check env < 253402300800" "t < 253402300800" "env_zone env = (\<lambda>_. z)"
  shows "entry_fresh env (m, strftime_FTTZ (gmtime t)) \<longleftrightarrow> int (now_check env) - int t \<le> 3600"
    and "entry_old env (m, strftime_FTTZ (gmtime t)) \<longleftrightarrow> 3600 < int (now_check env) - int t"
  using timestamp_ok [OF assms(1)] timestamp_ok [OF assms(2)] gmtime_fields(9) assms(3)
  by (auto simp: entry_fresh_def entry_old_def isTimeDiffGreaterThan_def mktime_def Let_def
      m_maxEventsRepetitionIntervalInSeconds_def)

theorem captureEvent_drops_repeated_witness:
  "Hub_captureEvent (sample_env [7] 1570000000) sample_event
     (sample_hub\<lparr>m_listOfLastUniqueEventsWithTimestamps :=
        replicate 3 (''hi'', strftime_FTTZ (gmtime 1569999000))\<rparr>)
   = (Inr [], sample_hub\<lparr>m_lastEventId := generateUuid [7], m_listOfLastUniqueEventsWithTimestamps :=
        replicate 3 (''hi'', strftime_FTTZ (gmtime 1569999000))\<rparr>)"
proof -
  let ?h = "sample_hub\<lparr>m_listOfLastUniqueEventsWithTimestamps :=
        replicate 3 (''hi'', strftime_FTTZ (gmtime 1569999000))\<rparr>"
  have f: "entry_fresh (sample_env [7] 1570000000) (''hi'', strftime_FTTZ (gmtime 1569999000))"
    by (subst entry_fresh_constant_zone(1) [of _ _ 0]) (simp_all add: sample_env_def)
  have "Hub_captureEvent (sample_env [7] 1570000000) sample_event ?h
      = (Inr [], ?h\<lparr>m_lastEventId := generateUuid (env_uuid (sample_env [7] 1570000000))\<rparr>)"
    by (rule captureEvent_drops_repeated [OF sample_facts(1) sample_event_ok(2)])
      (use f in \<open>simp_all add: mm_count_def numeral_3_eq_3\<close>)
  then show ?thesis by (simp add: sample_env_def)
qed







text \<open>An event whose message is not a string makes the conversion of the rate limit throw
  \<open>type_error\<close> 302 out of \<open>captureEvent\<close>: nothing is queued, but the last event id is already the new
  one.\<close>

theorem captureEvent_message_not_string:
  assumes "clock_ok env" "json_find ''message'' event = Some v" "\<not> is_string v"
    and "list_all (entry_fresh env) (recent h)"
  shows "Hub_captureEvent env event h
    = (Inl (Type_error 302 (''type must be string, but is '' @ type_name v)),
       h\<lparr>m_lastEventId := generateUuid (env_uuid env)\<rparr>)"
proof -
  let ?h = "h\<lparr>m_lastEventId := generateUuid (env_uuid env)\<rparr>"
  have t: "ISO8601_timestamp (now_event env) = Inr (event_time env)" "now_check env < 253402300800"
    using assms(1) by (simp_all add: clock_ok_def timestamp_ok event_time_def)
  have "removeOldEventsFromList env ?h = (Inr (), ?h)"
    using assms(4) by (intro removeOldEventsFromList_fresh [OF t(2)]) (simp add: list_all_iff)
  with assms(2,3) show ?thesis
    by (cases v) (simp_all add: Hub_captureEvent_def t Let_def checkIfEventTooOften_def json_at_find
        json_get_string_def is_string_def)
qed

theorem captureEvent_message_not_string_witness:
  "Hub_captureEvent (sample_env [7] 1570000000) (JObject [(''message'', JInteger 5)]) sample_hub
    = (Inl (Type_error 302 ''type must be string, but is number''), sample_hub\<lparr>m_lastEventId := generateUuid [7]\<rparr>)"
proof -
  have "json_find ''message'' (JObject [(''message'', JInteger 5)]) = Some (JInteger 5)"
    "\<not> is_string (JInteger 5)" "list_all (entry_fresh (sample_env [7] 1570000000)) (recent sample_hub)"
    by (simp_all add: json_find_def is_string_def sample_facts)
  from captureEvent_message_not_string [OF sample_facts(1) this] show ?thesis by (simp add: sample_env_def)
qed

section \<open>Sequences of captured events\<close>

definition hub_queue :: "hub \<Rightarrow> string list" where
  "hub_queue h = (case hub_pHttpClient h of None \<Rightarrow> [] | Some t \<Rightarrow> queued_contents t)"

lemma queued_sendEvent_length: "length (queued_contents (sendEvent c t)) \<le> Suc (length (queued_contents t))"
  by (cases "accepts_events t") (simp_all add: sink.queued_send sink.refused_send)

lemma Hub_addBreadcrumb_frame:
  assumes "Hub_addBreadcrumb env a h = (r, h')"
  shows "recent h' = recent h" "hub_pHttpClient h' = hub_pHttpClient h" "m_initialised h' = m_initialised h"
    "json_ok a \<Longrightarrow> m_scope h' = m_scope h \<or> (\<exists>b. json_ok b \<and> m_scope h' = Scope_addBreadcrumb b (m_scope h))"
proof -
  show "recent h' = recent h" "hub_pHttpClient h' = hub_pHttpClient h" "m_initialised h' = m_initialised h"
    using assms by (auto simp: Hub_addBreadcrumb_def split: sum.splits)
  assume "json_ok a"
  then show "m_scope h' = m_scope h \<or> (\<exists>b. json_ok b \<and> m_scope h' = Scope_addBreadcrumb b (m_scope h))"
    using assms make_breadcrumb_object [of a]
    by (auto simp: Hub_addBreadcrumb_def bind_res_eq_Inr split: sum.splits) (metis sum.inject(2))
qed

lemma captureEvent_unlimited_frame:
  assumes "captureEvent_unlimited env event i ts h = (r, h')"
  shows "recent h' = recent h" "length (hub_queue h') \<le> Suc (length (hub_queue h))"
    "m_initialised h' = m_initialised h" "hub_pHttpClient h' = None \<longleftrightarrow> hub_pHttpClient h = None"
    "json_ok event \<Longrightarrow> m_scope h' = m_scope h \<or> (\<exists>b. json_ok b \<and> m_scope h' = Scope_addBreadcrumb b (m_scope h))"
proof -
  have send: "recent h1 = recent h" "length (hub_queue h1) \<le> Suc (length (hub_queue h))"
    "m_initialised h1 = m_initialised h" "m_scope h1 = m_scope h"
    "hub_pHttpClient h1 = None \<longleftrightarrow> hub_pHttpClient h = None"
    if "send_payload env c h = (r1, h1)" for c r1 h1
    using that queued_sendEvent_length
    by (auto simp: send_payload_def hub_queue_def split: if_splits option.splits)
  have q: "hub_queue h2 = hub_queue h1" if "Hub_addBreadcrumb env event h1 = (r2, h2)" for r2 h1 h2
    using Hub_addBreadcrumb_frame(2) [OF that] by (simp add: hub_queue_def)
  show "recent h' = recent h" "length (hub_queue h') \<le> Suc (length (hub_queue h))"
    "m_initialised h' = m_initialised h" "hub_pHttpClient h' = None \<longleftrightarrow> hub_pHttpClient h = None"
    using assms send q Hub_addBreadcrumb_frame(1-3)
    by (auto simp: captureEvent_unlimited_def split: sum.splits prod.splits) (metis+)?
  assume "json_ok event"
  then show "m_scope h' = m_scope h \<or> (\<exists>b. json_ok b \<and> m_scope h' = Scope_addBreadcrumb b (m_scope h))"
    using assms send(4) Hub_addBreadcrumb_frame(4)
    by (auto simp: captureEvent_unlimited_def split: sum.splits prod.splits) (metis+)?
qed

text \<open>The check either leaves the list, or fails and leaves it without the entries of one message, or
  adds one entry for a message that has fewer than three.\<close>

lemma checkIfEventTooOften_frame:
  assumes "checkIfEventTooOften env event ts h = (r, h')"
  shows "h' = h \<and> r \<noteq> Inr False
    \<or> (\<exists>k w. r = Inl (Undefined_behaviour w) \<and> h' = h\<lparr>m_listOfLastUniqueEventsWithTimestamps := om_erase k (recent h)\<rparr>)
    \<or> (\<exists>m. json_at ''message'' event = Inr (JString m) \<and> r = Inr False \<and> mm_count m (recent h) < 3
         \<and> h' = h\<lparr>m_listOfLastUniqueEventsWithTimestamps := mm_emplace m ts (recent h)\<rparr>)"
proof -
  obtain r1 h1 where c: "removeOldEventsFromList env h = (r1, h1)" by fastforce
  show ?thesis
  proof (cases r1)
    case (Inl e)
    with assms c removeOldEventsFromList_frame [OF c] show ?thesis by (auto simp: checkIfEventTooOften_def)
  next
    case (Inr u)
    with removeOldEventsFromList_frame [OF c] have "h1 = h" by simp
    with assms c Inr show ?thesis
      by (auto simp: checkIfEventTooOften_def bind_res_eq_Inr json_get_string_def m_maxEventsPerInterval_def
          split: sum.splits if_splits json.splits)
  qed
qed

lemma captureEvent_cases:
  assumes "Hub_captureEvent env event h = (r, h')"
  obtains (kept) "h' = h\<lparr>m_lastEventId := generateUuid (env_uuid env)\<rparr>"
  | (erased) k w where "r = Inl (Undefined_behaviour w)" "h' = h\<lparr>m_lastEventId := generateUuid (env_uuid env),
        m_listOfLastUniqueEventsWithTimestamps := om_erase k (recent h)\<rparr>"
  | (unlimited) ts where "json_find ''message'' event = None"
      "captureEvent_unlimited env event (generateUuid (env_uuid env)) ts
         (h\<lparr>m_lastEventId := generateUuid (env_uuid env)\<rparr>) = (r, h')"
  | (limited) ts m where "json_at ''message'' event = Inr (JString m)" "mm_count m (recent h) < 3"
      "captureEvent_unlimited env event (generateUuid (env_uuid env)) ts
         (h\<lparr>m_lastEventId := generateUuid (env_uuid env),
            m_listOfLastUniqueEventsWithTimestamps := mm_emplace m ts (recent h)\<rparr>) = (r, h')"
proof -
  let ?h = "h\<lparr>m_lastEventId := generateUuid (env_uuid env)\<rparr>"
  show thesis
  proof (cases "ISO8601_timestamp (now_event env)")
    case (Inl e)
    with assms that(1) show ?thesis by (simp add: Hub_captureEvent_def Let_def)
  next
    case (Inr ts)
    show ?thesis
    proof (cases "json_find ''message'' event = None")
      case True
      with assms Inr that(3) show ?thesis by (simp add: Hub_captureEvent_def Let_def)
    next
      case False
      obtain r1 h1 where c: "checkIfEventTooOften env event ts ?h = (r1, h1)" by fastforce
      from checkIfEventTooOften_frame [OF c] show ?thesis
      proof (elim disjE conjE exE)
        assume "h1 = ?h" "r1 \<noteq> Inr False"
        with assms Inr False c have "h' = ?h"
          by (auto simp: Hub_captureEvent_def Let_def split: sum.splits bool.splits)
        with that(1) show ?thesis .
      next
        fix k w
        assume "r1 = Inl (Undefined_behaviour w)"
          "h1 = ?h\<lparr>m_listOfLastUniqueEventsWithTimestamps := om_erase k (recent ?h)\<rparr>"
        with assms Inr False c that(2) [of w k] show ?thesis
          by (simp add: Hub_captureEvent_def Let_def)
      next
        fix m
        assume "json_at ''message'' event = Inr (JString m)" "r1 = Inr False" "mm_count m (recent ?h) < 3"
          "h1 = ?h\<lparr>m_listOfLastUniqueEventsWithTimestamps := mm_emplace m ts (recent ?h)\<rparr>"
        with assms Inr False c that(4) [of m ts] show ?thesis
          by (simp add: Hub_captureEvent_def Let_def)
      qed
    qed
  qed
qed

text \<open>What a call that captures an event with one message does to the count of that message: unless it ends
  in undefined behaviour, what it queues is paid for by a new entry of the list.\<close>

lemma capture_counted:
  assumes "Hub_captureEvent env event h = (r, h')" "\<forall>w. r \<noteq> Inl (Undefined_behaviour w)"
    and "\<forall>k. mm_count k (recent h) \<le> 3"
  shows "\<forall>k. mm_count k (recent h) \<le> mm_count k (recent h') \<and> mm_count k (recent h') \<le> 3"
    and "json_find ''message'' event = Some (JString m) \<Longrightarrow>
      length (hub_queue h') - length (hub_queue h) + mm_count m (recent h) \<le> mm_count m (recent h')"
proof -
  have "(\<forall>k. mm_count k (recent h) \<le> mm_count k (recent h') \<and> mm_count k (recent h') \<le> 3)
    \<and> (json_find ''message'' event = Some (JString m) \<longrightarrow>
        length (hub_queue h') - length (hub_queue h) + mm_count m (recent h) \<le> mm_count m (recent h'))"
    using assms(1)
  proof (cases rule: captureEvent_cases)
    case kept
    with assms(3) show ?thesis by (simp add: hub_queue_def)
  next
    case (erased k w)
    with assms(2) show ?thesis by simp
  next
    case (unlimited ts)
    with captureEvent_unlimited_frame(1) [OF unlimited(2)] assms(3) show ?thesis by simp
  next
    case (limited ts k)
    have q: "hub_queue (h\<lparr>m_lastEventId := i, m_listOfLastUniqueEventsWithTimestamps := es\<rparr>) = hub_queue h" for i es
      by (simp add: hub_queue_def)
    have "k = m" if "json_find ''message'' event = Some (JString m)"
      using json_at_find [OF that] limited(1) by simp
    with captureEvent_unlimited_frame(1,2) [OF limited(3)] limited(2) assms(3) show ?thesis
      unfolding q by (auto simp: mmap.count_insert)
  qed
  then show "\<forall>k. mm_count k (recent h) \<le> mm_count k (recent h') \<and> mm_count k (recent h') \<le> 3"
    "json_find ''message'' event = Some (JString m) \<Longrightarrow>
      length (hub_queue h') - length (hub_queue h) + mm_count m (recent h) \<le> mm_count m (recent h')"
    by blast+
qed

text \<open>
  The life of a hub whose behaviour stays defined, with a log of the events captured: the event (the
  context of an exception) and how many payloads the call has queued.  All other operations may come
  in between, in any number and order.
\<close>

inductive hub_run :: "hub \<Rightarrow> (json \<times> nat) list \<Rightarrow> hub \<Rightarrow> bool" for h0 where
  run_start: "hub_run h0 [] h0"
| run_captureEvent:
    "hub_run h0 calls h \<Longrightarrow> Hub_captureEvent env event h = (r, h') \<Longrightarrow> \<forall>w. r \<noteq> Inl (Undefined_behaviour w) \<Longrightarrow>
     hub_run h0 ((event, length (hub_queue h') - length (hub_queue h)) # calls) h'"
| run_captureException:
    "hub_run h0 calls h \<Longrightarrow> json_ok context \<Longrightarrow>
     Hub_captureException env stacktrace type what context handled h = (r, h') \<Longrightarrow>
     \<forall>w. r \<noteq> Inl (Undefined_behaviour w) \<Longrightarrow>
     hub_run h0 ((context, length (hub_queue h') - length (hub_queue h)) # calls) h'"
| run_init: "hub_run h0 calls h \<Longrightarrow> hub_run h0 calls (snd (Hub_init dsn maxBreadcrumbs sourceAvailable sampleRate h))"
| run_setTag: "hub_run h0 calls h \<Longrightarrow> hub_run h0 calls (snd (Hub_setTag k v h))"
| run_setExtra: "hub_run h0 calls h \<Longrightarrow> hub_run h0 calls (snd (Hub_setExtra k v h))"
| run_addBreadcrumb: "hub_run h0 calls h \<Longrightarrow> hub_run h0 calls (snd (Hub_addBreadcrumb env a h))"
| run_close: "hub_run h0 calls h \<Longrightarrow> closeHttpConnection w ticks h = Some (r, h') \<Longrightarrow> hub_run h0 calls h'"
| run_worker:
    "hub_run h0 calls h \<Longrightarrow> hub_pHttpClient h = Some t \<Longrightarrow>
     hub_run h0 calls (h\<lparr>hub_pHttpClient := Some (snd (perform tk t))\<rparr>)"

definition queued_for :: "string \<Rightarrow> (json \<times> nat) list \<Rightarrow> nat" where
  "queued_for m calls = sum_list (map snd (filter (\<lambda>(event, n). json_find ''message'' event = Some (JString m)) calls))"

lemma other_operations_keep_entries:
  "recent (snd (Hub_init dsn n sa sr h)) = recent h"
  "recent (snd (Hub_setTag k v h)) = recent h"
  "recent (snd (Hub_setExtra k v h)) = recent h"
  "recent (snd (Hub_addBreadcrumb env a h)) = recent h"
  "closeHttpConnection w ticks h = Some (r, h') \<Longrightarrow> recent h' = recent h"
  by (auto simp: Hub_init_def Let_def installHandler_def Hub_setTag_def Hub_setExtra_def Hub_addBreadcrumb_def
      closeHttpConnection_def split: prod.splits sum.splits option.splits)

text \<open>Capturing an exception captures an event with the message of the context.\<close>

lemma captureException_event:
  assumes "Hub_captureException env stacktrace type what context handled h = (r, h')" "json_ok context"
  obtains "h' = h"
  | event where "Hub_captureEvent env event h = (r, h')"
      "json_find ''message'' event = json_find ''message'' context"
proof (cases "bind_res stacktrace (\<lambda>frames.
           bind_res (exception_attributes
             [(''type'', JString type), (''value'', JString what), (''handled'', JBoolean handled)] frames)
             (\<lambda>currentAttributes.
           json_set ''exception'' currentAttributes (if json_is_null context then JNull else context)))")
  case (Inl e)
  with assms(1) that(1) show thesis by (simp add: Hub_captureException_def)
next
  case (Inr event)
  then obtain v where "json_set ''exception'' v (if json_is_null context then JNull else context) = Inr event"
    by (auto simp: bind_res_eq_Inr)
  from json_find_set [OF this, of "''message''"] assms(2)
  have "json_find ''message'' event = json_find ''message'' (if json_is_null context then JNull else context)"
    by simp
  moreover have "(if json_is_null context then JNull else context) = context"
    by (cases "context") (auto simp: json_is_null_def)
  ultimately show thesis
    using Inr assms(1) that(2) by (simp add: Hub_captureException_def)
qed

lemma counted_step:
  assumes "\<forall>k. mm_count k old \<le> mm_count k new \<and> mm_count k new \<le> 3"
    and "queued_for m calls \<le> mm_count m old"
    and "json_find ''message'' event = Some (JString m) \<Longrightarrow> n + mm_count m old \<le> mm_count m new"
  shows "(\<forall>k. mm_count k new \<le> 3) \<and> queued_for m ((event, n) # calls) \<le> mm_count m new"
proof -
  have "mm_count m old \<le> mm_count m new" using assms(1) by simp
  with assms show ?thesis by (auto simp: queued_for_def intro: order_trans)
qed

lemma hub_run_counted:
  assumes "hub_run h0 calls h" "recent h0 = []"
  shows "(\<forall>k. mm_count k (recent h) \<le> 3) \<and> queued_for m calls \<le> mm_count m (recent h)"
  using assms
proof (induction rule: hub_run.induct)
  case run_start
  then show ?case by (simp add: queued_for_def mm_count_Nil)
next
  case (run_captureEvent calls h env event r h')
  then have b: "\<forall>k. mm_count k (recent h) \<le> 3" "queued_for m calls \<le> mm_count m (recent h)" by simp_all
  show ?case
    by (rule counted_step [OF capture_counted(1) [OF run_captureEvent(2,3) b(1)] b(2)
        capture_counted(2) [OF run_captureEvent(2,3) b(1)]])
next
  case (run_captureException calls h cx env stacktrace type what handled r h')
  then have b: "\<forall>k. mm_count k (recent h) \<le> 3" "queued_for m calls \<le> mm_count m (recent h)" by simp_all
  from run_captureException(3,2) show ?case
  proof (cases rule: captureException_event)
    case 1
    with b show ?thesis by (simp add: queued_for_def)
  next
    case (2 event)
    show ?thesis
      by (rule counted_step [OF capture_counted(1) [OF 2(1) run_captureException(4) b(1)] b(2)
          capture_counted(2) [OF 2(1) run_captureException(4) b(1), unfolded 2(2)]])
  qed
qed (simp_all add: other_operations_keep_entries)

lemma Hub_init_started:
  assumes "Hub_init dsn n sa sr h = (Inr NO_ERROR, h')"
  shows "\<exists>t. hub_pHttpClient h' = Some t \<and> m_thread_joinable t \<and> m_initialised h'
    \<and> m_state t = NO_CONNECTION \<and> m_tasks t = [] \<and> \<not> m_shouldStop t \<and> m_pHttpClient t \<noteq> None
    \<and> m_dsnStruct t = snd (parseDSN dsn empty_dsn)"
  using assms
  by (auto simp: Hub_init_def Let_def setupClient_def Transport_start_def Transport_new_def installHandler_def
      split: prod.splits sum.splits option.splits if_splits)

text \<open>Property C9: in every run of a new hub whose behaviour stays defined, whatever is captured and
  whatever other operations come in between, all events and exceptions with one message together queue
  at most three payloads.  The comment asks for three per hour; such a run cannot do more, since a check
  that finds an entry older than an hour is the undefined behaviour of C37.\<close>

theorem at_most_three_per_message:
  assumes "hub_run (Hub_new s) calls h"
  shows "queued_for m calls \<le> 3"
proof -
  have "recent (Hub_new s) = []" by (simp add: Hub_new_def)
  from hub_run_counted [OF assms this, of m] show ?thesis by (meson order_trans)
qed

theorem at_most_three_per_message_witness:
  "\<exists>calls h. hub_run (Hub_new fresh_scope) calls h \<and> map fst calls = [sample_event] \<and> queued_for ''hi'' calls \<le> 3
    \<and> snd (hd calls) = 1"
proof -
  let ?env = "sample_env [7] 1570000000"
  define h where "h = snd (Hub_init ''http://k@h/1'' (-1) False 100 (Hub_new fresh_scope))"
  have "fst (Hub_init ''http://k@h/1'' (-1) False 100 (Hub_new fresh_scope)) = Inr NO_ERROR" by code_simp
  then have i: "Hub_init ''http://k@h/1'' (-1) False 100 (Hub_new fresh_scope) = (Inr NO_ERROR, h)"
    by (simp add: h_def prod_eq_iff)
  from Hub_init_started [OF i] obtain t where t: "hub_pHttpClient h = Some t" "\<not> m_shouldStop t"
    by blast
  have f: "m_scope h = fresh_scope" "m_sampleRate h = 100" "recent h = []"
    using i by (auto simp: Hub_init_def Let_def Hub_new_def installHandler_def split: prod.splits sum.splits if_splits)
  have a: "accepts_events t" using t(2) by (simp add: accepts_events_def)
  have s: "sampled ?env h" by (simp add: sampled_def f sample_env_def)
  have w: "within_limit ?env sample_event h" by (simp add: within_limit_def sample_event_ok f mm_count_Nil)
  have "scope_sendable (m_scope h)" using sample_facts(2) f(1) by simp
  from captureEvent_delivers [OF sample_facts(1) sample_event_ok(1) this t(1) s w] obtain p h' where
    h': "Hub_captureEvent ?env sample_event h = (Inr (generateUuid (env_uuid ?env)), h')"
      "hub_pHttpClient h' = Some (sendEvent (json_text p) t)" by fastforce
  have "length (hub_queue h') - length (hub_queue h) = 1"
    using t(1) h'(2) by (simp add: hub_queue_def sink.queued_send [OF a])
  moreover have "hub_run (Hub_new fresh_scope) [] h"
    unfolding h_def by (intro run_init run_start)
  ultimately have "hub_run (Hub_new fresh_scope) [(sample_event, 1)] h'"
    using run_captureEvent [of "Hub_new fresh_scope" "[]" h ?env sample_event, OF _ h'(1)] by simp
  with at_most_three_per_message [OF this, of "''hi''"] show ?thesis by fastforce
qed

section \<open>Reachable hubs\<close>

text \<open>What the process does to its hub: the calls of the client and the steps of the worker.\<close>

inductive hub_step :: "hub \<Rightarrow> hub \<Rightarrow> bool" where
  step_init: "hub_step h (snd (Hub_init dsn maxBreadcrumbs sourceAvailable sampleRate h))"
| step_setTag: "hub_step h (snd (Hub_setTag k v h))"
| step_setExtra: "hub_step h (snd (Hub_setExtra k v h))"
| step_addBreadcrumb: "json_ok a \<Longrightarrow> hub_step h (snd (Hub_addBreadcrumb env a h))"
| step_captureEvent: "json_ok event \<Longrightarrow> hub_step h (snd (Hub_captureEvent env event h))"
| step_captureException: "json_ok context \<Longrightarrow> stacktrace = Inr frames \<Longrightarrow> json_ok frames \<Longrightarrow>
    hub_step h (snd (Hub_captureException env stacktrace type what context handled h))"
| step_close: "closeHttpConnection w ticks h = Some (r, h') \<Longrightarrow> hub_step h h'"
| step_worker: "hub_pHttpClient h = Some t \<Longrightarrow> hub_step h (h\<lparr>hub_pHttpClient := Some (snd (perform tk t))\<rparr>)"

inductive_cases hub_stepE: "hub_step h h'"

definition hub_ok :: "hub \<Rightarrow> bool" where
  "hub_ok h \<longleftrightarrow> scope_ok (m_scope h) \<and> mm_ok (recent h) \<and> (\<forall>m. mm_count m (recent h) \<le> 3)
     \<and> (m_initialised h \<longrightarrow> hub_pHttpClient h \<noteq> None)"

lemma scope_ok_addBreadcrumb: "scope_ok s \<Longrightarrow> json_ok b \<Longrightarrow> scope_ok (Scope_addBreadcrumb b s)"
proof -
  assume a: "scope_ok s" "json_ok b"
  have "set (tl xs) \<subseteq> set xs" for xs :: "json list" by (cases xs) auto
  with a show ?thesis
    by (fastforce simp: scope_ok_def Scope_addBreadcrumb_def Let_def)
qed

lemma hub_ok_capture_step:
  assumes "captureEvent_unlimited env event i ts h = (r, h')" "hub_ok h" "json_ok event"
  shows "hub_ok h'"
  using assms(2) captureEvent_unlimited_frame(1,3,4) [OF assms(1)]
    captureEvent_unlimited_frame(5) [OF assms(1,3)]
  by (auto simp: hub_ok_def scope_ok_addBreadcrumb)

lemma mm_ok_erase: "mm_ok xs \<Longrightarrow> mm_ok (om_erase k xs)"
  by (induction xs) (auto simp: mm_ok_def om_erase_def)

lemma hub_ok_captureEvent:
  assumes "hub_ok h" "json_ok event"
  shows "hub_ok (snd (Hub_captureEvent env event h))"
proof -
  obtain r h' where c: "Hub_captureEvent env event h = (r, h')" by fastforce
  have id: "hub_ok (h\<lparr>m_lastEventId := generateUuid (env_uuid env)\<rparr>)" using assms(1) by (simp add: hub_ok_def)
  from c have "hub_ok h'"
  proof (cases rule: captureEvent_cases)
    case kept
    with id show ?thesis by simp
  next
    case (erased k w)
    with id show ?thesis by (simp add: hub_ok_def mm_ok_erase mm_count_erase)
  next
    case (unlimited ts)
    from hub_ok_capture_step [OF unlimited(2) id assms(2)] show ?thesis .
  next
    case (limited ts m)
    have "hub_ok (h\<lparr>m_lastEventId := generateUuid (env_uuid env),
            m_listOfLastUniqueEventsWithTimestamps := mm_emplace m ts (recent h)\<rparr>)"
      using id mmap.guarded_insert_bound [of "recent h" 3 m, OF _ limited(2)]
      by (simp add: hub_ok_def mm_ok_emplace)
    from hub_ok_capture_step [OF limited(3) this assms(2)] show ?thesis .
  qed
  with c show ?thesis by simp
qed

lemma hub_ok_init:
  assumes "hub_ok h"
  shows "hub_ok (snd (Hub_init dsn n sa sr h))"
proof -
  have s: "scope_ok (Scope_setMaxBreadcrumbs w (m_scope h))" for w
    using assms by (simp add: hub_ok_def scope_ok_def Scope_setMaxBreadcrumbs_def)
  with assms show ?thesis
    by (auto simp: Hub_init_def hub_ok_def Let_def installHandler_def split: prod.splits sum.splits option.splits)
qed

lemma closeHttpConnection_ok:
  "closeHttpConnection w ticks h = Some (r, h') \<Longrightarrow> hub_ok h \<Longrightarrow> hub_ok h'"
  by (auto simp: closeHttpConnection_def hub_ok_def split: option.splits prod.splits)

lemma exception_attributes_ok:
  assumes "\<forall>kv\<in>set attributes. json_ok (snd kv)" "json_ok frames"
    "exception_attributes attributes frames = Inr j"
  shows "json_ok j"
proof -
  have fold: "json_ok j" if "foldl (\<lambda>r (k, v). bind_res r (json_set k v)) (Inr j0) kvs = Inr j"
    "json_ok j0" "\<forall>kv\<in>set kvs. json_ok (snd kv)" for j0 j kvs
    using that
  proof (induction kvs arbitrary: j0)
    case (Cons kv kvs)
    obtain k v where kv: "kv = (k, v)" by (cases kv)
    have err: "foldl (\<lambda>r (k, v). bind_res r (json_set k v)) (Inl e) kvs = Inl e" for e kvs
      by (induction kvs) auto
    from Cons.prems(1) kv err obtain j1 where j1: "json_set k v j0 = Inr j1"
      "foldl (\<lambda>r (k, v). bind_res r (json_set k v)) (Inr j1) kvs = Inr j"
      by (cases "json_set k v j0") auto
    with Cons kv json_ok_set [OF j1(1)] show ?case by auto
  qed simp
  obtain j1 st st' where j: "foldl (\<lambda>r (k, v). bind_res r (json_set k v)) (Inr JNull) attributes = Inr j1"
    "json_at ''stacktrace'' j1 = Inr st" "json_set ''frames'' frames st = Inr st'"
    "json_set ''stacktrace'' st' j1 = Inr j"
    using assms(3) by (auto simp: exception_attributes_def bind_res_eq_Inr)
  have j1: "json_ok j1" by (rule fold [OF j(1)]) (use assms(1) in simp_all)
  then have "json_ok st" by (rule json_ok_at [OF j(2)])
  with j(3) assms(2) have "json_ok st'" by (auto intro: json_ok_set)
  with j(4) j1 show ?thesis by (auto intro: json_ok_set)
qed

lemma hub_ok_captureException:
  assumes "hub_ok h" "json_ok context" "json_ok frames"
  shows "hub_ok (snd (Hub_captureException env (Inr frames) type what context handled h))"
proof (cases "bind_res (exception_attributes
    [(''type'', JString type), (''value'', JString what), (''handled'', JBoolean handled)] frames)
    (\<lambda>a. json_set ''exception'' a (if json_is_null context then JNull else context))")
  case (Inl e)
  with assms(1) show ?thesis by (simp add: Hub_captureException_def)
next
  case (Inr i)
  then obtain a where a: "exception_attributes
      [(''type'', JString type), (''value'', JString what), (''handled'', JBoolean handled)] frames = Inr a"
    "json_set ''exception'' a (if json_is_null context then JNull else context) = Inr i"
    by (auto simp: bind_res_eq_Inr)
  have "json_ok a" by (rule exception_attributes_ok [OF _ assms(3) a(1)]) simp
  then have "json_ok i" using a(2) assms(2) by (auto intro: json_ok_set split: if_splits)
  with hub_ok_captureEvent [OF assms(1), of i env] Inr show ?thesis
    by (simp add: Hub_captureException_def)
qed

lemma hub_ok_step: "hub_step h h' \<Longrightarrow> hub_ok h \<Longrightarrow> hub_ok h'"
proof (induction rule: hub_step.induct)
  case (step_setTag h k v)
  then show ?case
    using tags.set_total [of "m_scope h" k v]
    by (auto simp: Hub_setTag_def hub_ok_def Scope_setRelease_def scope_ok_def split: sum.splits)
next
  case (step_setExtra h k v)
  then show ?case
    using extras.set_total [of "m_scope h" k v] by (auto simp: Hub_setExtra_def hub_ok_def split: sum.splits)
next
  case (step_addBreadcrumb a h env)
  obtain r h' where "Hub_addBreadcrumb env a h = (r, h')" by fastforce
  with step_addBreadcrumb Hub_addBreadcrumb_frame [OF this] show ?case
    by (auto simp: hub_ok_def scope_ok_addBreadcrumb)
next
  case (step_worker h t tk)
  then show ?case by (simp add: hub_ok_def)
qed (simp_all add: hub_ok_init hub_ok_captureEvent hub_ok_captureException closeHttpConnection_ok)

text \<open>Property C8: every hub the process can reach keeps its scope's stores and its message list in
  order, remembers no message more than three times, and has a transport as soon as it is
  initialised, so the calls the interface lets through never dereference a null client.\<close>

theorem reachable_hub_ok:
  assumes "scope_ok s" "hub_step\<^sup>*\<^sup>* (Hub_new s) h"
  shows "hub_ok h \<and> (m_initialised h \<longrightarrow> hub_pHttpClient h \<noteq> None)"
proof -
  have "hub_ok h"
    using assms(2)
  proof (induction rule: rtranclp_induct)
    case base
    show ?case using assms(1) by (simp add: hub_ok_def Hub_new_def mm_ok_def mm_count_def)
  next
    case (step y z)
    then show ?case using hub_ok_step by blast
  qed
  then show ?thesis by (simp add: hub_ok_def)
qed

theorem reachable_hub_ok_witness:
  "hub_ok (snd (Hub_setTag ''release'' ''1.0'' (snd (Hub_init ''nonsense'' 5 False 100 (Hub_new fresh_scope)))))"
proof -
  have "scope_ok fresh_scope" by (simp add: fresh_scope_def scope_ok_def store_ok_def)
  moreover have "hub_step\<^sup>*\<^sup>* (Hub_new fresh_scope)
      (snd (Hub_setTag ''release'' ''1.0'' (snd (Hub_init ''nonsense'' 5 False 100 (Hub_new fresh_scope)))))"
    by (meson step_init step_setTag rtranclp.rtrancl_into_rtrancl rtranclp.rtrancl_refl)
  ultimately show ?thesis using reachable_hub_ok by blast
qed

section \<open>Set up and tear down\<close>

text \<open>Whatever the outcome of \<open>Hub::init\<close>, the limit on breadcrumbs afterwards is the
  requested number modulo 65536 (so 65536 keeps none and -2 keeps 65534), and -1 leaves it as it was.\<close>

theorem init_breadcrumb_limit:
  "unat (m_maxBreadcrumbs (m_scope (snd (Hub_init dsn n sourceAvailable sampleRate h))))
     = (if n = -1 then unat (m_maxBreadcrumbs (m_scope h)) else nat (n mod 65536))"
proof -
  have "unat (word_of_int n :: u16) = nat (n mod 65536)"
    by (simp add: unsigned_of_int take_bit_eq_mod)
  then show ?thesis
    by (auto simp: Hub_init_def Let_def Scope_setMaxBreadcrumbs_def installHandler_def
        split: prod.splits sum.splits option.splits)
qed

lemma Hub_init_running:
  assumes "hub_pHttpClient h = Some t" "m_thread_joinable t" "fst (parseDSN dsn empty_dsn) = NO_ERROR"
  shows "fst (Hub_init dsn n sa sr h) = Inl (Terminate ''destruction of a joinable thread'')"
  using assms by (cases "parseDSN dsn empty_dsn") (simp add: Hub_init_def Let_def Transport_destroy_def)

text \<open>A second \<open>init\<close> with a well-formed DSN ends the process: assigning the new transport
  destroys the first one while its worker thread is still joinable.\<close>

theorem second_init_terminates:
  assumes "fst (Hub_init dsn1 n1 sa1 sr1 h) = Inr NO_ERROR" "fst (parseDSN dsn2 empty_dsn) = NO_ERROR"
  shows "fst (Hub_init dsn2 n2 sa2 sr2 (snd (Hub_init dsn1 n1 sa1 sr1 h)))
    = Inl (Terminate ''destruction of a joinable thread'')"
proof -
  obtain h' where h': "Hub_init dsn1 n1 sa1 sr1 h = (Inr NO_ERROR, h')"
    using assms(1) by (metis prod.collapse)
  from Hub_init_started [OF h'] obtain t where "hub_pHttpClient h' = Some t" "m_thread_joinable t" by blast
  from Hub_init_running [OF this assms(2)] show ?thesis by (simp add: h')
qed

theorem second_init_terminates_witness:
  "fst (Hub_init ''http://k@h/2'' (-1) False 100
      (snd (Hub_init ''http://k@h/1'' 50 False 100 (Hub_new fresh_scope))))
    = Inl (Terminate ''destruction of a joinable thread'')"
proof (rule second_init_terminates)
  show "fst (Hub_init ''http://k@h/1'' 50 False 100 (Hub_new fresh_scope)) = Inr NO_ERROR"
    by code_simp
  show "fst (parseDSN ''http://k@h/2'' empty_dsn) = NO_ERROR" by code_simp
qed

lemma Transport_stop_not_joinable:
  "Transport_stop w ticks t = Some (Inr (), t') \<Longrightarrow> \<not> m_thread_joinable t'"
  by (auto simp: Transport_stop_def Let_def split: if_splits option.splits sum.splits)

lemma captureException_client:
  assumes "Hub_captureException env stacktrace ty wh cx handled h = (r, h1)"
  shows "hub_pHttpClient h1 = None \<longleftrightarrow> hub_pHttpClient h = None"
proof -
  have capture: "hub_pHttpClient h2 = None \<longleftrightarrow> hub_pHttpClient h = None"
    if "Hub_captureEvent env e h = (r2, h2)" for e r2 h2
    using that
  proof (cases rule: captureEvent_cases)
    case (unlimited ts)
    from captureEvent_unlimited_frame(4) [OF unlimited(2)] show ?thesis by simp
  next
    case (limited ts m)
    from captureEvent_unlimited_frame(4) [OF limited(3)] show ?thesis by simp
  qed simp_all
  with assms show ?thesis by (auto simp: Hub_captureException_def split: sum.splits)
qed

text \<open>When the handler for uncaught exceptions has run to its end, it has joined the worker;
  destroying the hub afterwards joins again, and the exception of the second join leaves the
  destructor and ends the process.\<close>

theorem destroy_after_terminationHandler:
  assumes "terminationHandler env stacktrace w ticks ex h = Some (Inr (), h')"
  shows "Hub_destroy ticks' h' = Some (Inl (Terminate ''exception in a noexcept function''))"
proof -
  have c: "\<exists>t. hub_pHttpClient h2 = Some t \<and> \<not> m_thread_joinable t"
    if "closeHttpConnection w ticks h1 = Some (Inr (), h2)" "hub_pHttpClient h1 \<noteq> None" for h1 h2
    using that Transport_stop_not_joinable
    by (auto simp: closeHttpConnection_def split: option.splits prod.splits)
  obtain r1 h1 where r1: "(case ex of
      No_exception \<Rightarrow> (Inr [], h)
    | Other_exception \<Rightarrow> (Inl (Terminate ''exception in the terminate handler''), h)
    | Std_exception type what \<Rightarrow>
        (case json_set ''logger'' (JString ''termination_handler'') JNull of
           Inl e \<Rightarrow> (Inl e, h)
         | Inr context \<Rightarrow> Hub_captureException env stacktrace type what context False h)) = (r1, h1)"
    (is "?r = _") by fastforce
  have h: "hub_pHttpClient h \<noteq> None"
    using assms by (auto simp: terminationHandler_def split: if_splits)
  have keep: "hub_pHttpClient h1 \<noteq> None"
  proof (cases ex)
    case (Std_exception ty wh)
    with r1 obtain ctx where "Hub_captureException env stacktrace ty wh ctx False h = (r1, h1) \<or> h1 = h"
      by (auto split: sum.splits)
    with captureException_client h show ?thesis by metis
  qed (use r1 h in auto)
  have "(case (r1, h1) of
      (Inl e, h) \<Rightarrow> Some (Inl (Terminate ''exception in the terminate handler''), h)
    | (Inr _, h) \<Rightarrow>
        (case closeHttpConnection w ticks h of
           None \<Rightarrow> None
         | Some (Inl e, h) \<Rightarrow> Some (Inl (Terminate ''exception in the terminate handler''), h)
         | Some (Inr _, h) \<Rightarrow> Some (Inr (), h))) = Some (Inr (), h')"
    using assms h unfolding terminationHandler_def r1 by simp
  then have "closeHttpConnection w ticks h1 = Some (Inr (), h')"
    by (auto split: sum.splits option.splits prod.splits)
  from c [OF this keep] show ?thesis
    by (auto simp: Hub_destroy_def closeHttpConnection_def Transport_stop_def Let_def)
qed

theorem destroy_after_terminationHandler_witness:
  "\<exists>h'. terminationHandler (sample_env [7] 1570000000) (Inr JNull) False (\<lambda>_. reply_at 0 ''200 OK'' [])
       No_exception sample_hub = Some (Inr (), h')
    \<and> Hub_destroy (\<lambda>_. reply_at 0 ''200 OK'' []) h'
      = Some (Inl (Terminate ''exception in a noexcept function''))"
proof -
  obtain h' where "terminationHandler (sample_env [7] 1570000000) (Inr JNull) False (\<lambda>_. reply_at 0 ''200 OK'' [])
       No_exception sample_hub = Some (Inr (), h')"
    by (simp add: terminationHandler_def closeHttpConnection_def sample_hub_def ready_transport_def
        Transport_new_def Transport_stop_def Let_def drain_unfold)
  with destroy_after_terminationHandler [OF this] show ?thesis by blast
qed

end
