(* ===== verification/Sentry_Api.thy ===== *)
theory Sentry_Api
  imports Hub_Properties
begin

text \<open>
  The public interface, \<open>src/include/sentry.h\<close> and \<open>src/src/sentry.cpp\<close>: each function is guarded by
  \<open>mainHub.isInitialised()\<close> and passes on to the one hub of the process, which is the state here.
  The environment variable \<open>SENTRY_DSN\<close> is an argument of \<open>Sentry_init\<close>.
\<close>

record SentryOptions =
  options_dsn :: string
  options_release :: string
  options_environment :: string
  options_sampleRate :: int
  options_maxBreadcrumbs :: int
  options_debug :: bool
  options_attachStackTrace :: bool

definition SentryOptions_default :: SentryOptions where
  "SentryOptions_default =
     \<lparr>options_dsn = [], options_release = [], options_environment = [], options_sampleRate = 100,
      options_maxBreadcrumbs = 100, options_debug = False, options_attachStackTrace = False\<rparr>"

text \<open>Two calls of \<open>setTag\<close> that may throw, one after the other, each only when its option is set.\<close>

definition set_option_tag :: "string \<Rightarrow> string \<Rightarrow> hub \<Rightarrow> unit res \<times> hub" where
  "set_option_tag key val h = (if val \<noteq> [] then Hub_setTag key val h else (Inr (), h))"

definition Sentry_init :: "SentryOptions \<Rightarrow> string option \<Rightarrow> hub \<Rightarrow> EErrorCode res \<times> hub" where
  "Sentry_init initParameters dsnEnv h =
     (let finalDsn = (if options_dsn initParameters = []
                      then (case dsnEnv of Some d \<Rightarrow> d | None \<Rightarrow> options_dsn initParameters)
                      else options_dsn initParameters)
      in if finalDsn = [] then (Inr NO_DSN, h)
         else
           (case Hub_init finalDsn (options_maxBreadcrumbs initParameters)
                   (options_attachStackTrace initParameters) (options_sampleRate initParameters) h of
              (Inl e, h) \<Rightarrow> (Inl e, h)
            | (Inr errorCode, h) \<Rightarrow>
                if errorCode \<noteq> NO_ERROR then (Inr errorCode, h)
                else
                  (case set_option_tag ''release'' (options_release initParameters) h of
                     (Inl e, h) \<Rightarrow> (Inl e, h)
                   | (Inr _, h) \<Rightarrow>
                       (case set_option_tag ''environment'' (options_environment initParameters) h of
                          (Inl e, h) \<Rightarrow> (Inl e, h)
                        | (Inr _, h) \<Rightarrow> (Inr errorCode, h)))))"

definition Sentry_captureEvent :: "environ \<Rightarrow> json \<Rightarrow> hub \<Rightarrow> string res \<times> hub" where
  "Sentry_captureEvent env event h =
     (if \<not> isInitialised h then (Inr [], h) else Hub_captureEvent env event h)"

definition Sentry_addBreadcrumb :: "environ \<Rightarrow> json \<Rightarrow> hub \<Rightarrow> unit res \<times> hub" where
  "Sentry_addBreadcrumb env crumb h =
     (if \<not> isInitialised h then (Inr (), h) else Hub_addBreadcrumb env crumb h)"

definition Sentry_setTag :: "string \<Rightarrow> string \<Rightarrow> hub \<Rightarrow> unit res \<times> hub" where
  "Sentry_setTag key val h = (if \<not> isInitialised h then (Inr (), h) else Hub_setTag key val h)"

definition Sentry_setExtra :: "string \<Rightarrow> string \<Rightarrow> hub \<Rightarrow> unit res \<times> hub" where
  "Sentry_setExtra key val h = (if \<not> isInitialised h then (Inr (), h) else Hub_setExtra key val h)"

definition Sentry_lastEventId :: "hub \<Rightarrow> string" where
  "Sentry_lastEventId h = (if \<not> isInitialised h then [] else Hub_lastEventId h)"

definition Sentry_log :: "environ \<Rightarrow> EventLevel \<Rightarrow> string \<Rightarrow> hub \<Rightarrow> unit res \<times> hub" where
  "Sentry_log env level message h =
     (if \<not> isInitialised h then (Inr (), h)
      else if LEVEL_ERROR \<le> level
      then (case Sentry_captureEvent env
              (json_braces
                 [json_braces [JString ''message'', JString message],
                  json_braces [JString ''level'', JString (levelToString level)]]) h of
              (Inl e, h) \<Rightarrow> (Inl e, h)
            | (Inr _, h) \<Rightarrow> (Inr (), h))
      else Sentry_addBreadcrumb env
             (json_braces
                [json_braces [JString ''category'', JString ''log''],
                 json_braces [JString ''level'', JString (levelToString level)],
                 json_braces [JString ''message'', JString message]]) h)"

section \<open>Before initialisation\<close>

text \<open>Until \<open>init\<close> has succeeded every other call of the interface does nothing: it returns
  the empty value and leaves the hub as it is.\<close>

theorem uninitialised_is_inert:
  assumes "\<not> m_initialised h"
  shows "Sentry_captureEvent env event h = (Inr [], h) \<and> Sentry_addBreadcrumb env event h = (Inr (), h)
    \<and> Sentry_setTag k v h = (Inr (), h) \<and> Sentry_setExtra k v h = (Inr (), h)
    \<and> Sentry_lastEventId h = [] \<and> Sentry_log env level msg h = (Inr (), h)"
  using assms
  by (simp add: Sentry_captureEvent_def Sentry_addBreadcrumb_def Sentry_setTag_def Sentry_setExtra_def
      Sentry_lastEventId_def Sentry_log_def isInitialised_def)

theorem uninitialised_is_inert_witness:
  "Sentry_log (sample_env [] 0) LEVEL_FATAL ''gone'' (Hub_new fresh_scope) = (Inr (), Hub_new fresh_scope)"
  using uninitialised_is_inert [of "Hub_new fresh_scope" "sample_env [] 0" JNull "[]" "[]" LEVEL_FATAL "''gone''"]
  by (simp add: Hub_new_def)

section \<open>Initialisation\<close>

text \<open>\<open>init\<close> uses the DSN of the options, else that of the environment; without either it
  reports \<open>NO_DSN\<close> and leaves the hub unchanged, and with a DSN that does not parse it reports
  \<open>WRONG_DSN\<close> and the hub stays uninitialised with the transport it had.\<close>

theorem init_dsn_errors:
  "Sentry_init (opts\<lparr>options_dsn := []\<rparr>) None h = (Inr NO_DSN, h)
   \<and> Sentry_init (opts\<lparr>options_dsn := []\<rparr>) (Some d) h
     = (if d = [] then (Inr NO_DSN, h) else Sentry_init (opts\<lparr>options_dsn := d\<rparr>) None h)
   \<and> (fst (parseDSN (options_dsn opts) empty_dsn) = WRONG_DSN \<and> options_dsn opts \<noteq> [] \<longrightarrow>
       fst (Sentry_init opts e h) = Inr WRONG_DSN
       \<and> m_initialised (snd (Sentry_init opts e h)) = m_initialised h
       \<and> hub_pHttpClient (snd (Sentry_init opts e h)) = hub_pHttpClient h)"
  by (cases "parseDSN (options_dsn opts) empty_dsn")
    (auto simp: Sentry_init_def Hub_init_def Let_def split: prod.splits sum.splits)

theorem init_dsn_errors_witness:
  "fst (Sentry_init (SentryOptions_default\<lparr>options_dsn := ''nonsense''\<rparr>) None (Hub_new fresh_scope)) = Inr WRONG_DSN"
proof -
  have "fst (parseDSN ''nonsense'' empty_dsn) = WRONG_DSN" by code_simp
  with init_dsn_errors [of "SentryOptions_default\<lparr>options_dsn := ''nonsense''\<rparr>" "Hub_new fresh_scope" "[]" None]
  show ?thesis by simp
qed

lemma set_option_tag_ok:
  assumes "scope_ok (m_scope h)"
  shows "\<exists>h'. set_option_tag k v h = (Inr (), h') \<and> scope_ok (m_scope h')
    \<and> m_initialised h' = m_initialised h \<and> hub_pHttpClient h' = hub_pHttpClient h
    \<and> m_release (m_scope h') = (if k = ''release'' \<and> v \<noteq> [] then v else m_release (m_scope h))
    \<and> (\<forall>x. scope_tag (m_scope h') x =
         (if x = k \<and> k \<noteq> ''release'' \<and> v \<noteq> [] \<and> scope_tag (m_scope h) x = None then Some (JString v)
          else scope_tag (m_scope h) x))"
proof (cases "v = [] \<or> k = ''release''")
  case True
  with assms show ?thesis
    by (auto simp: set_option_tag_def Hub_setTag_def Scope_setRelease_def scope_ok_def scope_tag_def)
next
  case False
  obtain s' where s': "Scope_setTag k v (m_scope h) = Inr s'" "scope_ok s'"
    using tags.set_total [OF assms] by blast
  have "scope_tag s' x = (if x = k \<and> scope_tag (m_scope h) x = None then Some (JString v)
      else scope_tag (m_scope h) x)" for x
    using tags.lookup_set [OF assms s'(1), of x] False by (auto split: option.splits)
  with False s' Scope_setTag_frame(4) [OF s'(1)] show ?thesis
    by (auto simp: set_option_tag_def Hub_setTag_def)
qed

lemma Hub_init_scope:
  assumes "Hub_init dsn n sa sr h = (r, h')"
  shows "scope_ok (m_scope h') = scope_ok (m_scope h)" "scope_tag (m_scope h') = scope_tag (m_scope h)"
    "m_release (m_scope h') = m_release (m_scope h)"
  using assms
  by (auto simp: Hub_init_def Let_def Scope_setMaxBreadcrumbs_def installHandler_def scope_ok_def scope_tag_def fun_eq_iff
      split: prod.splits sum.splits option.splits if_splits)

text \<open>When \<open>init\<close> reports no error the hub is initialised and owns a started transport with
  an empty queue that has parsed the DSN, waits for its first connection and has a client; the
  release is stored in the scope, and the environment as a tag unless the tag has a value already.\<close>

theorem init_success:
  assumes "scope_ok (m_scope h)" "Sentry_init opts e h = (Inr NO_ERROR, h')"
  shows "m_initialised h'
    \<and> (\<exists>t d. hub_pHttpClient h' = Some t \<and> m_thread_joinable t \<and> m_tasks t = [] \<and> m_pHttpClient t \<noteq> None
         \<and> m_state t = NO_CONNECTION \<and> m_dsnStruct t = snd (parseDSN d empty_dsn))
    \<and> (options_release opts \<noteq> [] \<longrightarrow> m_release (m_scope h') = options_release opts)
    \<and> (options_environment opts \<noteq> [] \<longrightarrow> scope_tag (m_scope h') ''environment'' =
         (case scope_tag (m_scope h) ''environment'' of Some v \<Rightarrow> Some v
          | None \<Rightarrow> Some (JString (options_environment opts))))"
proof -
  obtain dsn h1 where h1: "Hub_init dsn (options_maxBreadcrumbs opts) (options_attachStackTrace opts)
      (options_sampleRate opts) h = (Inr NO_ERROR, h1)"
    and rest: "(case set_option_tag ''release'' (options_release opts) h1 of
        (Inl e, h) \<Rightarrow> (Inl e, h)
      | (Inr _, h) \<Rightarrow> (case set_option_tag ''environment'' (options_environment opts) h of
            (Inl e, h) \<Rightarrow> (Inl e, h) | (Inr _, h) \<Rightarrow> (Inr NO_ERROR, h))) = (Inr NO_ERROR, h')"
    using assms(2) by (auto simp: Sentry_init_def Let_def split: if_splits prod.splits sum.splits)
  note started = Hub_init_started [OF h1]
  have ok1: "scope_ok (m_scope h1)" using Hub_init_scope(1) [OF h1] assms(1) by simp
  obtain h2 where h2: "set_option_tag ''release'' (options_release opts) h1 = (Inr (), h2)"
    "scope_ok (m_scope h2)" "m_initialised h2 = m_initialised h1" "hub_pHttpClient h2 = hub_pHttpClient h1"
    "m_release (m_scope h2) = (if options_release opts \<noteq> [] then options_release opts else m_release (m_scope h1))"
    "\<forall>x. scope_tag (m_scope h2) x = scope_tag (m_scope h1) x"
    using set_option_tag_ok [OF ok1, of "''release''" "options_release opts"] by auto
  obtain h3 where h3: "set_option_tag ''environment'' (options_environment opts) h2 = (Inr (), h3)"
    "m_initialised h3 = m_initialised h2" "hub_pHttpClient h3 = hub_pHttpClient h2"
    "m_release (m_scope h3) = m_release (m_scope h2)"
    "\<forall>x. scope_tag (m_scope h3) x = (if x = ''environment'' \<and> options_environment opts \<noteq> []
       \<and> scope_tag (m_scope h2) x = None then Some (JString (options_environment opts)) else scope_tag (m_scope h2) x)"
    using set_option_tag_ok [OF h2(2), of "''environment''" "options_environment opts"] by auto
  have "h' = h3" using rest h2(1) h3(1) by simp
  with started h2 h3 Hub_init_scope(2) [OF h1] show ?thesis
    by (auto split: option.split)
qed

theorem init_success_witness:
  "\<exists>h'. Sentry_init (SentryOptions_default\<lparr>options_dsn := ''http://k@h/1'', options_environment := ''test''\<rparr>)
      None (Hub_new fresh_scope) = (Inr NO_ERROR, h')
    \<and> m_initialised h' \<and> scope_tag (m_scope h') ''environment'' = Some (JString ''test'')"
proof -
  let ?o = "SentryOptions_default\<lparr>options_dsn := ''http://k@h/1'', options_environment := ''test''\<rparr>"
  have "fst (Sentry_init ?o None (Hub_new fresh_scope)) = Inr NO_ERROR" by code_simp
  then obtain h' where i: "Sentry_init ?o None (Hub_new fresh_scope) = (Inr NO_ERROR, h')"
    by (metis prod.collapse)
  have "scope_ok (m_scope (Hub_new fresh_scope))"
    by (simp add: Hub_new_def fresh_scope_def scope_ok_def store_ok_def)
  from init_success [OF this i] i show ?thesis
    by (simp add: Hub_new_def fresh_scope_def scope_tag_def json_find_def)
qed

section \<open>Logging\<close>

lemma log_event:
  "json_braces [json_braces [JString ''message'', JString m], json_braces [JString ''level'', JString l]]
   = JObject [(''level'', JString l), (''message'', JString m)]"
  "json_braces [json_braces [JString ''category'', JString ''log''], json_braces [JString ''level'', JString l],
      json_braces [JString ''message'', JString m]]
   = JObject [(''category'', JString ''log''), (''level'', JString l), (''message'', JString m)]"
  by (simp_all add: json_braces_def map_filter_simps)

text \<open>\<open>log\<close> below \<open>LEVEL_ERROR\<close> sends nothing: it appends one breadcrumb with the message
  and the level, whose category is the level again and not the \<open>log\<close> the function asks for.\<close>

theorem log_below_error_adds_breadcrumb:
  assumes "m_initialised h" "level < LEVEL_ERROR" "now_breadcrumb env < 253402300800"
  shows "\<exists>b. Sentry_log env level msg h = (Inr (), h\<lparr>m_scope := Scope_addBreadcrumb b (m_scope h)\<rparr>)
    \<and> json_find ''message'' b = Some (JString msg)
    \<and> json_find ''level'' b = Some (JString (levelToString level))
    \<and> json_find ''category'' b = Some (JString (levelToString level))"
proof -
  let ?a = "JObject [(''category'', JString ''log''), (''level'', JString (levelToString level)), (''message'', JString msg)]"
  have "json_ok ?a" by simp
  then obtain b where b: "make_breadcrumb (strftime_FTTZ (gmtime (now_breadcrumb env))) ?a = Inr b"
    "\<forall>k. json_find k b =
        (if k = ''timestamp'' then Some (JString (strftime_FTTZ (gmtime (now_breadcrumb env))))
         else if k = ''type'' then Some (attribute_or ?a ''type'' ''default'')
         else if k = ''level'' \<or> k = ''category'' then Some (attribute_or ?a ''level'' ''info'')
         else if k = ''data'' \<or> k = ''message'' then json_find k ?a
         else None)"
    using make_breadcrumb_object by blast
  have "Sentry_log env level msg h = (Inr (), h\<lparr>m_scope := Scope_addBreadcrumb b (m_scope h)\<rparr>)"
    using assms(1,2) b(1)
    by (simp add: Sentry_log_def isInitialised_def log_event Sentry_addBreadcrumb_def Hub_addBreadcrumb_def
        timestamp_ok(1) [OF assms(3)] flip: not_less)
  with b(2) show ?thesis by (intro exI [of _ b]) (simp add: attribute_or_def json_find_def)
qed

theorem log_below_error_adds_breadcrumb_witness:
  "\<exists>b. Sentry_log (sample_env [] 1570000000) LEVEL_WARNING ''careful'' sample_hub
      = (Inr (), sample_hub\<lparr>m_scope := Scope_addBreadcrumb b fresh_scope\<rparr>)
    \<and> json_find ''category'' b = Some (JString ''warning'')"
proof -
  have "m_initialised sample_hub" "LEVEL_WARNING < LEVEL_ERROR"
    "now_breadcrumb (sample_env [] 1570000000) < 253402300800" "levelToString LEVEL_WARNING = ''warning''"
    by (simp_all add: sample_hub_def sample_env_def LEVEL_WARNING_def LEVEL_ERROR_def LEVEL_FATAL_def
        less_EventLevel_def levelToString_def)
  with log_below_error_adds_breadcrumb [of sample_hub LEVEL_WARNING "sample_env [] 1570000000" "''careful''"]
  show ?thesis by (auto simp: sample_facts)
qed

text \<open>Property C39: \<open>log\<close> at \<open>LEVEL_ERROR\<close> or above, within the rate limit and when sampling selects it,
  queues exactly one event that carries the message, the given level (and not the scope's) and the id
  that \<open>lastEventId\<close> reports afterwards.\<close>

theorem log_error_sends_event:
  assumes "m_initialised h" "LEVEL_ERROR \<le> level" "clock_ok env" "scope_sendable (m_scope h)"
    and "hub_pHttpClient h = Some t" "accepts_events t" "sampled env h" "utf8_valid msg"
    and "mm_count msg (recent h) < 3" "list_all (entry_fresh env) (recent h)"
  shows "\<exists>p t' h'. Sentry_log env level msg h = (Inr (), h') \<and> hub_pHttpClient h' = Some t'
    \<and> queued_contents t' = queued_contents t @ [json_text p]
    \<and> json_find ''message'' p = Some (JString msg)
    \<and> json_find ''level'' p = Some (JString (levelToString level))
    \<and> json_find ''event_id'' p = Some (JString (Sentry_lastEventId h'))"
proof -
  let ?e = "JObject [(''level'', JString (levelToString level)), (''message'', JString msg)]"
  have u: "utf8_valid (levelToString level)" "utf8_valid ''level''" "utf8_valid ''message''"
    unfolding levelToString_def by (intro utf8_valid_ascii; auto simp: byte_def split: if_splits)+
  then have e: "event_ok ?e" using assms(8) by (simp add: event_ok_def is_object_def)
  have l: "within_limit env ?e h" using assms(9,10) by (simp add: within_limit_def json_find_def)
  obtain p b where p: "\<forall>k. json_find k p
         = payload_field (generateUuid (env_uuid env)) (event_time env) ?e (m_scope h) k"
    "Hub_captureEvent env ?e h = (Inr (generateUuid (env_uuid env)),
        (remember_message env ?e (h\<lparr>m_lastEventId := generateUuid (env_uuid env)\<rparr>))
          \<lparr>hub_pHttpClient := Some (sendEvent (json_text p) t),
           m_scope := Scope_addBreadcrumb b (m_scope h)\<rparr>)"
    using captureEvent_delivers [OF assms(3) e assms(4,5,7) l] by blast
  define h' where "h' = snd (Hub_captureEvent env ?e h)"
  have "m_initialised h'"
    using assms(1) p(2) by (simp add: h'_def remember_message_def split: option.split json.split)
  moreover have "Sentry_log env level msg h = (Inr (), h')"
    using assms(1,2) p(2)
    by (simp add: Sentry_log_def isInitialised_def log_event Sentry_captureEvent_def h'_def)
  ultimately show ?thesis
    using p by (intro exI [of _ p] exI [of _ "sendEvent (json_text p) t"] exI [of _ h'])
      (simp add: h'_def sink.queued_send [OF assms(6)] payload_field_def json_find_def Sentry_lastEventId_def
        isInitialised_def Hub_lastEventId_def)
qed

theorem log_error_sends_event_witness:
  "\<exists>p t' h'. Sentry_log (sample_env [9] 1570000000) LEVEL_FATAL ''boom'' sample_hub = (Inr (), h')
    \<and> hub_pHttpClient h' = Some t'
    \<and> queued_contents t' = [json_text p]
    \<and> json_find ''level'' p = Some (JString ''fatal'')"
proof -
  have "m_initialised sample_hub" "LEVEL_ERROR \<le> LEVEL_FATAL" "levelToString LEVEL_FATAL = ''fatal''"
    by (simp_all add: sample_hub_def LEVEL_FATAL_def LEVEL_ERROR_def less_eq_EventLevel_def levelToString_def)
  moreover have "utf8_valid ''boom''" by (rule utf8_valid_ascii) (auto simp: byte_def)
  ultimately show ?thesis
    using log_error_sends_event [of sample_hub LEVEL_FATAL "sample_env [9] 1570000000" ready_transport "''boom''"]
      sample_facts by (auto simp: mm_count_def)
qed

end
