(* ===== verification/Backtrace.thy ===== *)
theory Backtrace
  imports Json_Value
begin

text \<open>
  \<open>src/src/backtracehandler.h\<close> and \<open>src/src/backtracehandler.cpp\<close>: from the addresses of a call stack to the
  JSON list of frames.  The libraries behind it are arguments: the loaded objects that
  \<open>dl_iterate_phdr\<close> visits are a list, the answers of the BFD library about a file are a record
  \<open>bfd\<close> (\<open>bfd_openr\<close> is a function from names), the demangler and the source files are functions.
  Texts are C strings without a NUL inside.
\<close>

section \<open>The object an address belongs to\<close>

record phdr =
  p_type :: u32
  p_vaddr :: u64
  p_memsz :: u64

record dl_phdr_info =
  dlpi_addr :: u64
  dlpi_name :: string
  dlpi_phdr :: "phdr list"

record FileMatch =
  mAddress :: u64
  mFile :: "string option"
  mBase :: u64

definition FileMatch_new :: "u64 \<Rightarrow> FileMatch" where
  "FileMatch_new addr = \<lparr>mAddress = addr, mFile = None, mBase = 0\<rparr>"

definition PT_LOAD :: u32 where
  "PT_LOAD = 1"

fun findMatchingFile_loop :: "dl_phdr_info \<Rightarrow> phdr list \<Rightarrow> FileMatch \<Rightarrow> int \<times> FileMatch" where
  "findMatchingFile_loop info [] match = (0, match)"
| "findMatchingFile_loop info (p # ps) match =
     (let vaddr = p_vaddr p + dlpi_addr info; maddr = mAddress match
      in if p_type p = PT_LOAD \<and> maddr \<ge> vaddr \<and> maddr < vaddr + p_memsz p
         then (1, match\<lparr>mFile := Some (dlpi_name info), mBase := dlpi_addr info\<rparr>)
         else findMatchingFile_loop info ps match)"

definition findMatchingFile :: "dl_phdr_info \<Rightarrow> FileMatch \<Rightarrow> int \<times> FileMatch" where
  "findMatchingFile info match = findMatchingFile_loop info (dlpi_phdr info) match"

text \<open>\<open>dl_iterate_phdr\<close> calls back for each object until the callback returns a value other than 0.\<close>

fun dl_iterate_phdr :: "dl_phdr_info list \<Rightarrow> FileMatch \<Rightarrow> FileMatch" where
  "dl_iterate_phdr [] match = match"
| "dl_iterate_phdr (info # infos) match =
     (let (r, match) = findMatchingFile info match
      in if r \<noteq> 0 then match else dl_iterate_phdr infos match)"

section \<open>Symbols\<close>

record asection =
  section_alloc :: bool
  section_vma :: u64
  section_size :: u64

text \<open>What BFD answers about an open file; the counts are those of \<open>bfd_read_minisymbols\<close>.\<close>

record bfd =
  bfd_is_archive :: bool
  bfd_is_object :: bool
  bfd_has_syms :: bool
  bfd_minisymbols :: int
  bfd_dynamic_minisymbols :: int
  bfd_sections :: "asection list"
  bfd_nearest_line :: "asection \<Rightarrow> u64 \<Rightarrow> (string option \<times> string option \<times> u32) option"

record FileLineDesc =
  mPc :: u64
  mFound :: "(string option \<times> string option \<times> u32) option"

definition findAddressInSection :: "bfd \<Rightarrow> asection \<Rightarrow> FileLineDesc \<Rightarrow> FileLineDesc" where
  "findAddressInSection abfd s desc =
     (if mFound desc \<noteq> None then desc
      else if \<not> section_alloc s then desc
      else let vma = section_vma s
           in if mPc desc < vma then desc
              else let sz = section_size s
                   in if mPc desc \<ge> vma + sz then desc
                      else desc\<lparr>mFound := bfd_nearest_line abfd s (mPc desc - vma)\<rparr>)"

text \<open>\<open>bfd_map_over_sections\<close> with \<open>FindAddressInSection\<close>.\<close>

definition find_line :: "bfd \<Rightarrow> u64 \<Rightarrow> FileLineDesc" where
  "find_line abfd pc = fold (findAddressInSection abfd) (bfd_sections abfd) \<lparr>mPc = pc, mFound = None\<rparr>"

text \<open>
  The symbol table: \<open>Inr False\<close> is a null pointer.  When both reads report no symbol the pointer that is
  returned, and later freed, was never set.
\<close>

definition kstSlurpSymtab :: "bfd \<Rightarrow> bool res" where
  "kstSlurpSymtab abfd =
     (if \<not> bfd_has_syms abfd then Inr False
      else let symcount = bfd_minisymbols abfd;
               symcount = (if symcount = 0 then bfd_dynamic_minisymbols abfd else symcount)
           in if symcount < 0 then Inr False
              else if symcount = 0 then Inl (Undefined_behaviour ''use of an uninitialised pointer'')
              else Inr True)"

definition frame_name :: "(string \<Rightarrow> string option) \<Rightarrow> string option \<Rightarrow> string" where
  "frame_name demangle functionname =
     (let name = (case functionname of None \<Rightarrow> ''??'' | Some n \<Rightarrow> if n = [] then ''??'' else n)
      in if hd name = CHR ''_'' then (case demangle name of Some d \<Rightarrow> d | None \<Rightarrow> name) else name)"

definition frame_text :: "(string \<Rightarrow> string option) \<Rightarrow> bfd \<Rightarrow> u64 \<Rightarrow> string" where
  "frame_text demangle abfd addr =
     (case mFound (find_line abfd addr) of
        None \<Rightarrow> ''[0x'' @ show_hex (unat addr) @ ''] ?? ??:0''
      | Some (filename, functionname, line) \<Rightarrow>
          (case filename of Some f \<Rightarrow> f | None \<Rightarrow> ''??'') @ '':'' @ show_nat (unat line) @ '' ''
          @ frame_name demangle functionname @ '' '' @ show_nat (unat addr))"

text \<open>
  Two passes, the first for the length.  \<open>buf\<close> is moved only after the second pass, so every entry of
  the result points to the same bytes, which hold the text of the last address.  \<open>snprintf\<close> writes at
  most \<open>len - 1\<close> characters.
\<close>

definition translateAddressesBuf :: "(string \<Rightarrow> string option) \<Rightarrow> bfd \<Rightarrow> u64 list \<Rightarrow> string list" where
  "translateAddressesBuf demangle abfd addr =
     (let texts = map (frame_text demangle abfd) addr;
          total = foldl (\<lambda>n t. n + (of_nat (length t) + 1)) (0 :: u32) texts;
          len = total
      in replicate (length addr) (last (map (take (unat len - 1)) texts)))"

text \<open>\<open>None\<close> is the null pointer.\<close>

definition processFile ::
    "(string \<Rightarrow> string option) \<Rightarrow> (string \<Rightarrow> bfd option) \<Rightarrow> string \<Rightarrow> u64 list \<Rightarrow> string list option res" where
  "processFile demangle bfd_openr fileName addr =
     (case bfd_openr fileName of
        None \<Rightarrow> Inr None
      | Some abfd \<Rightarrow>
          if bfd_is_archive abfd then Inr None
          else if \<not> bfd_is_object abfd then Inr None
          else bind_res (kstSlurpSymtab abfd) (\<lambda>syms.
               if \<not> syms then Inr None else Inr (Some (translateAddressesBuf demangle abfd addr))))"

section \<open>A frame\<close>

record FrameInfo =
  absFilePath :: string
  fileName :: string
  lineNumber :: u64
  functionName :: string
  frame_address :: string

definition FrameInfo_new :: "string \<Rightarrow> FrameInfo res" where
  "FrameInfo_new line =
     (let filePathEnd = str_find CHR '':'' line
      in bind_res (str_substr line 0 filePathEnd) (\<lambda>abs.
         let fileNameStart = str_rfind CHR ''/'' abs
         in bind_res (str_substr abs (fileNameStart + 1) npos) (\<lambda>file.
            let linenumberEnd = str_find CHR '' '' line
            in bind_res (str_substr line (filePathEnd + 1) (linenumberEnd - (filePathEnd + 1))) (\<lambda>lineNumberStr.
               bind_res (stoul 0 lineNumberStr) (\<lambda>number.
               let nameEnd = str_rfind CHR '' '' line
               in bind_res (str_substr line (linenumberEnd + 1) (nameEnd - (linenumberEnd + 1))) (\<lambda>function_name.
                  bind_res (str_substr line (nameEnd + 1) npos) (\<lambda>addr.
                  bind_res (stoul 0 addr) (\<lambda>addrInt.
                  Inr \<lparr>absFilePath = abs, fileName = file, lineNumber = number, functionName = function_name,
                       frame_address = show_hex (unat addrInt)\<rparr>))))))))"

text \<open>\<open>functionName[0]\<close> of an empty string is its terminating NUL.\<close>

definition frame_json :: "FrameInfo \<Rightarrow> json" where
  "frame_json f =
     json_braces
       [json_braces [JString ''function'', JString (functionName f)],
        json_braces [JString ''lineno'', JUnsigned (lineNumber f)],
        json_braces [JString ''filename'', JString (fileName f)],
        json_braces [JString ''abs_path'', JString (absFilePath f)],
        json_braces [JString ''in_app'', JBoolean (functionName f = [] \<or> hd (functionName f) \<noteq> CHR ''_'')],
        json_braces [JString ''package'', JString ''package'']]"

text \<open>The body of the loop over the stack: a null location is dereferenced.\<close>

definition frame_of ::
    "(string \<Rightarrow> string option) \<Rightarrow> (string \<Rightarrow> bfd option) \<Rightarrow> dl_phdr_info list \<Rightarrow> u64 \<Rightarrow> json res" where
  "frame_of demangle bfd_openr objects pc =
     (let match = dl_iterate_phdr objects (FileMatch_new pc);
          addr = pc - mBase match;
          file = (case mFile match of Some f \<Rightarrow> if f \<noteq> [] then f else ''/proc/self/exe'' | None \<Rightarrow> ''/proc/self/exe'')
      in bind_res (processFile demangle bfd_openr file [addr]) (\<lambda>location.
         case location of
           None \<Rightarrow> Inl (Undefined_behaviour ''null pointer'')
         | Some texts \<Rightarrow> bind_res (FrameInfo_new (hd texts)) (\<lambda>frameInfo. Inr (frame_json frameInfo))))"

text \<open>
  The loop runs the index downwards as a \<open>size_t\<close>.  \<open>callstack\<close> has 128 entries, of which \<open>backtrace\<close>
  has set the first \<open>nFrames\<close>.
\<close>

function backtrace_loop :: "(u64 \<Rightarrow> json res) \<Rightarrow> u64 list \<Rightarrow> size_t \<Rightarrow> size_t \<Rightarrow> json \<Rightarrow> json res" where
  "backtrace_loop frame addrList skip_front i output =
     (if i < skip_front then Inr output
      else if 128 \<le> unat i \<or> length addrList \<le> unat i
      then Inl (Undefined_behaviour ''read outside of the call stack'')
      else bind_res (frame (addrList ! unat i)) (\<lambda>f.
           bind_res (push_back_value f output) (\<lambda>output.
           backtrace_loop frame addrList skip_front (i - 1) output)))"
  by pat_completeness auto
termination
proof (relation "measure (\<lambda>(_, _, _, i, _). if unat i < 128 then Suc (unat i) else 0)", goal_cases)
  case (2 frame addrList skip_front i out x xa)
  then have small: "unat i < 128" by simp
  show ?case
  proof (cases "i = 0")
    case True
    then have "\<not> unat (i - 1) < 128"
      by (simp add: unsigned_minus_1_eq_mask mask_eq_exp_minus_1)
    with small True show ?thesis by simp
  next
    case False
    then have "unat (i - 1) = unat i - 1" "0 < unat i" by (simp_all add: unat_minus_one unat_gt_0)
    with small show ?thesis by simp
  qed
qed simp

declare backtrace_loop.simps [simp del]

definition createBacktraceSymbols ::
    "(u64 \<Rightarrow> json res) \<Rightarrow> u64 list \<Rightarrow> size_t \<Rightarrow> size_t \<Rightarrow> json res" where
  "createBacktraceSymbols frame addrList skip_front skip_back =
     (let numberOfFramesInOutput = of_nat (length addrList) - skip_back - skip_front
      in backtrace_loop frame addrList skip_front (numberOfFramesInOutput + skip_front - 1) JNull)"

section \<open>Source lines\<close>

text \<open>\<open>getline\<close> on the rest of a file: the line, what follows it, and whether the end was reached.\<close>

definition getline :: "string \<Rightarrow> string \<times> string \<times> bool" where
  "getline s =
     (let l = takeWhile (\<lambda>c. c \<noteq> CHR 0x0A) s; rest = dropWhile (\<lambda>c. c \<noteq> CHR 0x0A) s
      in (l, tl rest, rest = []))"

function context_loop ::
    "size_t \<Rightarrow> size_t \<Rightarrow> size_t \<Rightarrow> string \<Rightarrow> bool \<Rightarrow> string \<times> string list \<times> string list
     \<Rightarrow> string \<times> string list \<times> string list" where
  "context_loop lineNo deltaLines i file eof (contextLine, preContext, postContext) =
     (if \<not> i \<le> lineNo + deltaLines then (contextLine, preContext, postContext)
      else if eof then (contextLine, preContext, postContext)
      else let (currentLine, file', eof') = getline file
           in context_loop lineNo deltaLines (i + 1) file' eof'
                (if i \<ge> lineNo - deltaLines \<and> i < lineNo
                 then (contextLine, preContext @ [currentLine], postContext)
                 else if i = lineNo then (currentLine, preContext, postContext)
                 else if i > lineNo \<and> i \<le> lineNo + deltaLines
                 then (contextLine, preContext, postContext @ [currentLine])
                 else (contextLine, preContext, postContext)))"
  by pat_completeness auto
termination
proof (relation "measure (\<lambda>(_, _, _, file, eof, _). if eof then 0 else Suc (length file))", goal_cases)
  case (2 lineNo deltaLines i content eof a b c x currentLine y content' eof')
  have "length (tl (dropWhile (\<lambda>c. c \<noteq> CHR 0x0A) content)) < length content"
    if "dropWhile (\<lambda>c. c \<noteq> CHR 0x0A) content \<noteq> []"
    using that length_dropWhile_le [of "\<lambda>c. c \<noteq> CHR 0x0A" content]
    by (cases "dropWhile (\<lambda>c. c \<noteq> CHR 0x0A) content") auto
  with 2 show ?case by (auto simp: getline_def Let_def)
qed simp

declare context_loop.simps [simp del]

definition getContextLines :: "(string \<Rightarrow> string option) \<Rightarrow> string \<Rightarrow> size_t \<Rightarrow> size_t \<Rightarrow> json res" where
  "getContextLines files filePath lineNo deltaLines =
     (let (contextLine, preContext, postContext) =
            (case files filePath of
               None \<Rightarrow> ([], [], [])
             | Some content \<Rightarrow> context_loop lineNo deltaLines 1 content False ([], [], []))
      in bind_res (json_set ''context_line'' (JString contextLine) JNull) (\<lambda>output.
         bind_res (json_set ''pre_context'' (JArray (map JString preContext)) output) (\<lambda>output.
         json_set ''post_context'' (JArray (map JString postContext)) output)))"

section \<open>The stack trace\<close>

definition add_context :: "(string \<Rightarrow> string option) \<Rightarrow> (u64 \<Rightarrow> u64) \<Rightarrow> json \<Rightarrow> json res" where
  "add_context files of_double frame =
     bind_res (bind_res (json_at ''abs_path'' frame) json_get_string) (\<lambda>path.
     bind_res (bind_res (json_at ''lineno'' frame) (json_get_u64 of_double)) (\<lambda>line.
     bind_res (getContextLines files path line 4) (\<lambda>contextLinesInfo.
     case contextLinesInfo of
       JObject kvs \<Rightarrow> foldl (\<lambda>r (k, v). bind_res r (json_set k v)) (Inr frame) kvs
     | _ \<Rightarrow> Inr frame)))"

definition getStacktraceJSON ::
    "bool \<Rightarrow> (u64 \<Rightarrow> json res) \<Rightarrow> (string \<Rightarrow> string option) \<Rightarrow> (u64 \<Rightarrow> u64) \<Rightarrow> u64 list \<Rightarrow> size_t \<Rightarrow> size_t
     \<Rightarrow> json res" where
  "getStacktraceJSON m_withSourceData frame files of_double callstack skip_front skip_back =
     bind_res (createBacktraceSymbols frame callstack skip_front skip_back) (\<lambda>outBacktrace.
     if m_withSourceData
     then (case outBacktrace of
             JArray frames \<Rightarrow> bind_res (map_res (add_context files of_double) frames) (\<lambda>fs. Inr (JArray fs))
           | j \<Rightarrow> Inr j)
     else Inr outBacktrace)"

end
