(* ===== verification/Backtrace_Properties.thy ===== *)
theory Backtrace_Properties
  imports Backtrace
begin

text \<open>
  What the stack traces of \<open>Backtrace\<close> contain: the object and the text of a frame, its parts, the
  order of the frames and the lines of source code around them.
\<close>

section \<open>The object an address belongs to\<close>

definition contains_address :: "u64 \<Rightarrow> dl_phdr_info \<Rightarrow> bool" where
  "contains_address pc info \<longleftrightarrow>
     (\<exists>p \<in> set (dlpi_phdr info). p_type p = PT_LOAD
        \<and> p_vaddr p + dlpi_addr info \<le> pc \<and> pc < p_vaddr p + dlpi_addr info + p_memsz p)"

lemma findMatchingFile_loop_eq:
  "findMatchingFile_loop info ps match =
     (if \<exists>p \<in> set ps. p_type p = PT_LOAD
          \<and> p_vaddr p + dlpi_addr info \<le> mAddress match \<and> mAddress match < p_vaddr p + dlpi_addr info + p_memsz p
      then (1, match\<lparr>mFile := Some (dlpi_name info), mBase := dlpi_addr info\<rparr>) else (0, match))"
  by (induction ps) (auto simp: Let_def)

text \<open>The search for the object of an address ends at the first loaded object one of whose
  loadable segments contains the address, with its name and base, and changes nothing when no object
  contains it.\<close>

theorem object_of_address:
  "dl_iterate_phdr infos (FileMatch_new pc) =
     (case find (contains_address pc) infos of
        None \<Rightarrow> FileMatch_new pc
      | Some info \<Rightarrow> \<lparr>mAddress = pc, mFile = Some (dlpi_name info), mBase = dlpi_addr info\<rparr>)"
  by (induction infos)
    (auto simp: findMatchingFile_def findMatchingFile_loop_eq contains_address_def FileMatch_new_def)

section \<open>The parts of a frame\<close>

definition base_name :: "string \<Rightarrow> string" where
  "base_name path = rev (takeWhile (\<lambda>c. c \<noteq> CHR ''/'') (rev path))"

lemma base_name_slash: "CHR ''/'' \<notin> set file \<Longrightarrow> base_name (dir @ CHR ''/'' # file) = file"
  by (simp add: base_name_def)

lemma base_name_plain: "CHR ''/'' \<notin> set file \<Longrightarrow> base_name file = file"
  by (simp add: base_name_def)

lemma file_name_substr:
  assumes "length path < 2 ^ 32"
  shows "str_substr path (str_rfind CHR ''/'' path + 1) npos = Inr (base_name path)"
proof (cases "CHR ''/'' \<in> set path")
  case True
  then obtain dir fname where path: "path = dir @ CHR ''/'' # fname" "CHR ''/'' \<notin> set fname"
    using split_list_last by fastforce
  have "str_rfind CHR ''/'' path + 1 = of_nat (length (dir @ ''/''))"
    using str_rfind_append [OF path(2)] by (simp add: path(1))
  then show ?thesis
    using str_substr_rest [of "dir @ ''/''" fname] assms by (simp add: path base_name_slash add.commute)
next
  case False
  then have "str_rfind CHR ''/'' path + 1 = 0" by (simp add: str_rfind_absent npos_def)
  with False show ?thesis
    using str_substr_rest [of "[]" path] assms by (simp add: base_name_plain)
qed

lemma show_nat_no_space: "CHR '' '' \<notin> set (show_nat n)" "CHR '':'' \<notin> set (show_nat n)"
proof -
  have "CHR '' '' \<noteq> digit_char d" "CHR '':'' \<noteq> digit_char d" if "d < 10" for d
    using digit_char_neq [of d "CHR '' ''"] digit_char_neq [of d "CHR '':''"] that by simp_all
  then have "CHR '' '' \<notin> set (show_nat n) \<and> CHR '':'' \<notin> set (show_nat n)"
  proof (induction "10 :: nat" n rule: show_base.induct)
    case (1 n)
    then show ?case by (cases "n < 10") (simp_all add: show_base_small show_base_step)
  qed
  then show "CHR '' '' \<notin> set (show_nat n)" "CHR '':'' \<notin> set (show_nat n)" by simp_all
qed

lemma stoul_auto_show_nat_rest:
  assumes "n < 2 ^ 64"
  shows "stoul 0 (show_nat n @ '' '' @ rest) = Inr (of_nat n)"
proof (cases "n = 0")
  case True
  then show ?thesis
    by (simp add: show_base_small stoul_def is_space_def stoul_prefix_def digit_value_def digits_value_def Let_def
        tolower_def)
next
  case False
  then obtain d where d: "d < 10" "hd (show_nat n) = digit_char d" "0 < d"
    using show_base_hd [of 10 n] by auto
  then have "hd (show_nat n) \<noteq> CHR ''0''"
    using digit_char_inj [of d 0] by auto
  then have "stoul_prefix 0 (show_nat n @ '' '' @ rest) = (10, show_nat n @ '' '' @ rest)"
    by (simp add: stoul_prefix_def hd_append)
  with assms stoul_show_base [of 10 "'' '' @ rest" n 0] show ?thesis by simp
qed

text \<open>The number of a line, and what the constructor takes for the name of the function: the text between
  the first blank and the last.\<close>

lemma line_and_name:
  assumes "CHR '':'' \<notin> set path" "length path < 2 ^ 32" "length name < 2 ^ 32" "lineno < 2 ^ 32" "addr < 2 ^ 64"
  defines "line \<equiv> path @ '':'' @ show_nat lineno @ '' '' @ name @ '' '' @ show_nat addr"
    and "nameEnd \<equiv> of_nat (length path + length (show_nat lineno) + length name + 2) :: size_t"
  shows "\<exists>digits. str_substr line (of_nat (length path) + 1) (str_find CHR '' '' line - (of_nat (length path) + 1))
        = Inr digits \<and> stoul 0 digits = Inr (of_nat lineno)"
    and "str_substr line (str_find CHR '' '' line + 1) (nameEnd - (str_find CHR '' '' line + 1))
      = Inr (if CHR '' '' \<in> set path
             then tl (dropWhile (\<lambda>c. c \<noteq> CHR '' '') path) @ '':'' @ show_nat lineno @ '' '' @ name else name)"
proof -
  let ?l = "show_nat lineno" and ?a = "show_nat addr"
  have len: "length ?l \<le> 10" "length ?a \<le> 20" using assms(4,5) by (intro show_base_length; simp)+
  have "(\<exists>digits. str_substr line (of_nat (length path) + 1) (str_find CHR '' '' line - (of_nat (length path) + 1))
        = Inr digits \<and> stoul 0 digits = Inr (of_nat lineno))
    \<and> str_substr line (str_find CHR '' '' line + 1) (nameEnd - (str_find CHR '' '' line + 1))
      = Inr (if CHR '' '' \<in> set path
             then tl (dropWhile (\<lambda>c. c \<noteq> CHR '' '') path) @ '':'' @ ?l @ '' '' @ name else name)"
  proof (cases "CHR '' '' \<in> set path")
    case False
    let ?e = "length path + 1 + length ?l"
    have "CHR '' '' \<notin> set (path @ '':'' @ ?l)" using False show_nat_no_space by simp
    from str_find_append [OF this, of "name @ '' '' @ ?a"]
    have space: "str_find CHR '' '' line = of_nat ?e" by (simp add: line_def)
    have "str_substr line (of_nat (length path) + 1) (of_nat ?e - (of_nat (length path) + 1)) = Inr ?l"
      using str_substr_middle [of "path @ '':''" ?l "'' '' @ name @ '' '' @ ?a"] assms(2) len
      by (simp add: line_def add.commute)
    moreover have "str_substr line (of_nat ?e + 1) (nameEnd - (of_nat ?e + 1)) = Inr name"
      using str_substr_middle [of "path @ '':'' @ ?l @ '' ''" name "'' '' @ ?a"] assms(2,3) len
      by (simp add: line_def nameEnd_def add.commute)
    ultimately show ?thesis
      unfolding space using False stoul_auto_show_nat [of lineno] assms(4) by simp
  next
    case True
    then obtain p1 p2 where path: "path = p1 @ CHR '' '' # p2" "CHR '' '' \<notin> set p1"
      using split_list_first by fastforce
    have space: "str_find CHR '' '' line = of_nat (length p1)"
      using str_find_append [OF path(2)] by (simp add: line_def path(1))
    let ?rest = "?l @ '' '' @ name @ '' '' @ ?a"
    have "unat (of_nat (length path) + 1 :: u64) = length path + 1"
      using unat_of_nat_size [of "length path + 1"] assms(2) by (simp add: add.commute)
    moreover have "drop (length X) (X @ Y) = Y" for X Y :: string by simp
    from this [of "path @ '':''" ?rest] have "drop (length path + 1) line = ?rest" by (simp add: line_def)
    moreover have "length line \<ge> length path + 1" by (simp add: line_def)
    moreover define k where "k = unat (of_nat (length p1) - (of_nat (length path) + 1) :: u64)"
    ultimately have first: "str_substr line (of_nat (length path) + 1) (of_nat (length p1) - (of_nat (length path) + 1))
        = Inr (take k ?rest)"
      by (simp add: str_substr_def)
    have small: "length p2 + 2 \<le> 2 ^ 64" using assms(2) by (simp add: path(1))
    have "of_nat (length p1) - (of_nat (length path) + 1 :: u64) = of_nat (2 ^ 64 - (length p2 + 2))"
      unfolding of_nat_diff [OF small] by (simp add: path(1))
    then have "k = 2 ^ 64 - (length p2 + 2)"
      using unat_of_nat_size [of "2 ^ 64 - (length p2 + 2)"] by (simp only: k_def) simp
    then have "length ?rest \<le> k" using assms(2,3) len by (simp add: path(1))
    then have "take k ?rest = ?rest" by simp
    moreover have "stoul 0 ?rest = Inr (of_nat lineno)"
      using stoul_auto_show_nat_rest [of lineno] assms(4) by simp
    moreover have "str_substr line (of_nat (length p1) + 1) (nameEnd - (of_nat (length p1) + 1))
        = Inr (p2 @ '':'' @ ?l @ '' '' @ name)"
      using str_substr_middle [of "p1 @ '' ''" "p2 @ '':'' @ ?l @ '' '' @ name" "'' '' @ ?a"] assms(2,3) len
      by (simp add: line_def nameEnd_def path(1) add.commute add.left_commute)
    moreover have "tl (dropWhile (\<lambda>c. c \<noteq> CHR '' '') path) = p2" using path(2) by (simp add: path(1))
    ultimately show ?thesis unfolding space using True first by simp
  qed
  then show "\<exists>digits. str_substr line (of_nat (length path) + 1) (str_find CHR '' '' line - (of_nat (length path) + 1))
        = Inr digits \<and> stoul 0 digits = Inr (of_nat lineno)"
    "str_substr line (str_find CHR '' '' line + 1) (nameEnd - (str_find CHR '' '' line + 1))
      = Inr (if CHR '' '' \<in> set path
             then tl (dropWhile (\<lambda>c. c \<noteq> CHR '' '') path) @ '':'' @ show_nat lineno @ '' '' @ name else name)"
    by blast+
qed

text \<open>Property C29: from the text of a resolved address, whose path has no colon (lengths and line
  number below 2^32, address below 2^64), the constructor of a frame takes exactly the path, the file name behind the last slash, the
  line number and the address; the function name, which may contain blanks and colons, only if the path
  has no blank: otherwise it is preceded by the rest of the path behind the first blank and the line.\<close>

theorem frame_text_roundtrip:
  assumes "CHR '':'' \<notin> set path" "length path < 2 ^ 32" "length name < 2 ^ 32"
    and "lineno < 2 ^ 32" "addr < 2 ^ 64"
  shows "FrameInfo_new (path @ '':'' @ show_nat lineno @ '' '' @ name @ '' '' @ show_nat addr)
    = Inr \<lparr>absFilePath = path, fileName = base_name path, lineNumber = of_nat lineno,
           functionName = (if CHR '' '' \<in> set path
             then tl (dropWhile (\<lambda>c. c \<noteq> CHR '' '') path) @ '':'' @ show_nat lineno @ '' '' @ name else name),
           frame_address = show_hex addr\<rparr>"
proof -
  let ?l = "show_nat lineno" and ?a = "show_nat addr"
  let ?line = "path @ '':'' @ ?l @ '' '' @ name @ '' '' @ ?a"
  let ?last = "length path + length ?l + length name + 2"
  have len: "length ?l \<le> 10" "length ?a \<le> 20"
    using assms(4,5) by (intro show_base_length; simp)+
  have colon: "str_find CHR '':'' ?line = of_nat (length path)"
    using str_find_append [OF assms(1), of "?l @ '' '' @ name @ '' '' @ ?a"] by simp
  have last_space: "str_rfind CHR '' '' ?line = of_nat ?last"
    using str_rfind_append [OF show_nat_no_space(1), of "path @ '':'' @ ?l @ '' '' @ name" addr] by simp
  have path: "str_substr ?line 0 (of_nat (length path)) = Inr path"
    using assms(2) by (intro str_substr_prefix) simp
  obtain digits where digits: "str_substr ?line (of_nat (length path) + 1)
      (str_find CHR '' '' ?line - (of_nat (length path) + 1)) = Inr digits" "stoul 0 digits = Inr (of_nat lineno)"
    using line_and_name(1) [OF assms] by blast
  have addr: "str_substr ?line (of_nat ?last + 1) npos = Inr ?a"
    using str_substr_rest [of "path @ '':'' @ ?l @ '' '' @ name @ '' ''" ?a] assms(2,3) len
    by (simp add: add.commute add.left_commute)
  have "stoul 0 ?a = Inr (of_nat addr)" using assms(5) by (rule stoul_auto_show_nat)
  moreover have "unat (of_nat addr :: u64) = addr" using assms(5) by (rule unat_of_nat_size)
  ultimately show ?thesis
    unfolding FrameInfo_new_def Let_def colon last_space
    by (simp only: path file_name_substr [OF assms(2)] digits line_and_name(2) [OF assms] addr bind_res_Inr)
qed

theorem frame_text_roundtrip_witness:
  "FrameInfo_new (''/src/main.cpp'' @ '':'' @ show_nat 42 @ '' '' @ ''ns::f(int, char)'' @ '' '' @ show_nat 4096)
    = Inr \<lparr>absFilePath = ''/src/main.cpp'', fileName = base_name ''/src/main.cpp'', lineNumber = of_nat 42,
           functionName = ''ns::f(int, char)'', frame_address = show_hex 4096\<rparr>"
  using frame_text_roundtrip [of "''/src/main.cpp''" "''ns::f(int, char)''" 42 4096] by simp

text \<open>The text of an address without a symbol.\<close>

definition unresolved_text :: "u64 \<Rightarrow> string" where
  "unresolved_text addr = ''[0x'' @ show_hex (unat addr) @ ''] ?? ??:0''"

lemma show_hex_no_separator:
  "CHR '' '' \<notin> set (show_hex n)" "CHR '':'' \<notin> set (show_hex n)"
proof -
  have "CHR '' '' \<noteq> digit_char d" "CHR '':'' \<noteq> digit_char d" if "d < 16" for d
    using digit_char_neq [of d "CHR '' ''"] digit_char_neq [of d "CHR '':''"] that by simp_all
  then have "CHR '' '' \<notin> set (show_hex n) \<and> CHR '':'' \<notin> set (show_hex n)"
  proof (induction "16 :: nat" n rule: show_base.induct)
    case (1 n)
    then show ?case by (cases "n < 16") (simp_all add: show_base_small show_base_step)
  qed
  then show "CHR '' '' \<notin> set (show_hex n)" "CHR '':'' \<notin> set (show_hex n)" by simp_all
qed

lemma unresolved_frame:
  "FrameInfo_new (unresolved_text addr) = Inl (Invalid_argument ''stoul'')"
proof -
  let ?h = "show_hex (unat addr)"
  let ?line = "''[0x'' @ ?h @ ''] ?? ??:0''"
  have len: "length ?h \<le> 16" using unsigned_less [of addr] by (intro show_base_length) simp_all
  have sep: "CHR '':'' \<notin> set (''[0x'' @ ?h @ ''] ?? ??'')" "CHR '' '' \<notin> set (''[0x'' @ ?h @ '']'')"
    using show_hex_no_separator by simp_all
  have colon: "str_find CHR '':'' ?line = of_nat (length ?h + 10)"
    using str_find_append [OF sep(1), of "''0''"] by simp
  have space: "str_find CHR '' '' ?line = of_nat (length ?h + 4)"
    using str_find_append [OF sep(2), of "''?? ??:0''"] by simp
  have last_space: "str_rfind CHR '' '' ?line = of_nat (length ?h + 7)"
    using str_rfind_append [of "CHR '' ''" "''??:0''" "''[0x'' @ ?h @ ''] ??''"] by simp
  have path: "str_substr ?line 0 (of_nat (length ?h + 10)) = Inr (''[0x'' @ ?h @ ''] ?? ??'')"
    using str_substr_prefix [of "''[0x'' @ ?h @ ''] ?? ??''" "'':0''"] len by (simp add: add.commute)
  have fname: "\<exists>f. str_substr (''[0x'' @ ?h @ ''] ?? ??'') (str_rfind CHR ''/'' (''[0x'' @ ?h @ ''] ?? ??'') + 1) npos = Inr f"
    using file_name_substr [of "''[0x'' @ ?h @ ''] ?? ??''"] len by auto
  have number: "str_substr ?line (of_nat (length ?h + 10) + 1) (of_nat (length ?h + 4) - (of_nat (length ?h + 10) + 1)) = Inr ''0''"
  proof -
    have "unat (of_nat (length ?h + 10) + 1 :: u64) = length ?h + 11"
      using unat_of_nat_size [of "length ?h + 11"] len by (simp add: add.commute)
    moreover have "of_nat (length ?h + 4) - (of_nat (length ?h + 10) + 1 :: u64) = - 7" by simp
    moreover have "unat (- 7 :: u64) = 18446744073709551609" by simp
    moreover have "drop (length X) (X @ Y) = Y" for X Y :: string by simp
    from this [of "''[0x'' @ ?h @ ''] ?? ??:''" "''0''"]
    have "drop (length ?h + 11) ?line = ''0''" by (simp add: numeral_eq_Suc)
    ultimately show ?thesis by (simp add: str_substr_def)
  qed
  have name: "\<exists>f. str_substr ?line (of_nat (length ?h + 4) + 1) (of_nat (length ?h + 7) - (of_nat (length ?h + 4) + 1)) = Inr f"
    using unat_of_nat_size [of "length ?h + 5"] len by (simp add: str_substr_def add.commute)
  have addr: "str_substr ?line (of_nat (length ?h + 7) + 1) npos = Inr ''??:0''"
    using str_substr_rest [of "''[0x'' @ ?h @ ''] ?? ''" "''??:0''"] len by (simp add: add.commute)
  have "stoul 0 ''??:0'' = Inl (Invalid_argument ''stoul'')"
    by (rule stoul_no_digits [OF refl]) (simp_all add: is_space_def digit_value_def)
  moreover obtain v where "stoul 0 ''0'' = Inr v" using stoul_auto_show_nat [of 0] by (simp add: show_base_small)
  ultimately show ?thesis
    unfolding FrameInfo_new_def unresolved_text_def Let_def colon space last_space
    using fname name by (auto simp only: path number addr bind_res_Inr bind_res_Inl)
qed

text \<open>Property C30: an address of the stack for which the symbols of its file give no line makes the
  construction of the stack trace throw \<open>invalid_argument\<close>, because the text written for it cannot be
  taken apart.\<close>

theorem unresolved_address_throws:
  assumes "dl_iterate_phdr objects (FileMatch_new pc) = \<lparr>mAddress = pc, mFile = Some f, mBase = base\<rparr>" "f \<noteq> []"
    and "bfd_openr f = Some abfd" "\<not> bfd_is_archive abfd" "bfd_is_object abfd" "kstSlurpSymtab abfd = Inr True"
    and "mFound (find_line abfd (pc - base)) = None"
  shows "frame_of demangle bfd_openr objects pc = Inl (Invalid_argument ''stoul'')"
proof -
  let ?t = "unresolved_text (pc - base)"
  have t: "frame_text demangle abfd (pc - base) = ?t"
    using assms(7) by (simp add: frame_text_def unresolved_text_def)
  have "length (show_hex (unat (pc - base))) \<le> 16"
    using unsigned_less [of "pc - base"] by (intro show_base_length) simp_all
  then have "length ?t \<le> 40" by (simp add: unresolved_text_def)
  moreover have "n < 2 ^ 32 \<Longrightarrow> unat (of_nat n :: u32) = n" for n
    by (simp add: unat_of_nat take_bit_nat_eq_self)
  from this [of "Suc (length ?t)"] calculation
  have "unat (1 + of_nat (length ?t) :: u32) = Suc (length ?t)" by simp
  then have "translateAddressesBuf demangle abfd [pc - base] = [?t]"
    by (simp add: translateAddressesBuf_def t add.commute)
  then show ?thesis
    using assms by (simp add: frame_of_def processFile_def unresolved_frame)
qed

definition bare_object :: bfd where
  "bare_object = \<lparr>bfd_is_archive = False, bfd_is_object = True, bfd_has_syms = True, bfd_minisymbols = 1,
     bfd_dynamic_minisymbols = 0, bfd_sections = [], bfd_nearest_line = (\<lambda>_ _. None)\<rparr>"

theorem unresolved_address_throws_witness:
  "frame_of (\<lambda>_. None) (\<lambda>_. Some bare_object)
     [\<lparr>dlpi_addr = 4096, dlpi_name = ''libc.so'', dlpi_phdr = [\<lparr>p_type = 1, p_vaddr = 0, p_memsz = 100\<rparr>]\<rparr>] 4100
   = Inl (Invalid_argument ''stoul'')"
  by (rule unresolved_address_throws [where base = 4096 and f = "''libc.so''" and abfd = bare_object])
    (simp_all add: findMatchingFile_def FileMatch_new_def PT_LOAD_def bare_object_def kstSlurpSymtab_def
      find_line_def)

section \<open>The order of the frames\<close>

definition append_frames :: "json list \<Rightarrow> json \<Rightarrow> json" where
  "append_frames fs out = (if fs = [] then out else case out of JArray xs \<Rightarrow> JArray (xs @ fs) | _ \<Rightarrow> JArray fs)"

lemma push_back_frames:
  "out = JNull \<or> (\<exists>xs. out = JArray xs) \<Longrightarrow> push_back_value f out = Inr (append_frames [f] out)"
  by (auto simp: push_back_value_def append_frames_def)

lemma append_frames_append:
  "out = JNull \<or> (\<exists>xs. out = JArray xs) \<Longrightarrow> append_frames fs (append_frames [f] out) = append_frames (f # fs) out"
  by (auto simp: append_frames_def)

text \<open>The addresses the loop visits from index \<open>hi - 1\<close> down to \<open>lo\<close>, and how it ends behind them.\<close>

definition loop_end :: "nat \<Rightarrow> json \<Rightarrow> json res" where
  "loop_end lo out = (if lo = 0 then Inl (Undefined_behaviour ''read outside of the call stack'') else Inr out)"

lemma backtrace_loop_frames:
  assumes size: "length addrs \<le> 128"
  shows "hi \<le> length addrs \<Longrightarrow> 0 < hi \<Longrightarrow> out = JNull \<or> (\<exists>xs. out = JArray xs)
    \<Longrightarrow> backtrace_loop frame addrs skip_front (of_nat (hi - 1)) out
      = bind_res (map_res frame (rev (drop (unat skip_front) (take hi addrs))))
          (\<lambda>fs. loop_end (unat skip_front) (append_frames fs out))"
proof (induction hi arbitrary: out)
  case (Suc hi)
  have i: "unat (of_nat hi :: u64) = hi" using Suc.prems(1) size by (intro unat_of_nat_size) simp
  show ?case
  proof (cases "hi < unat skip_front")
    case True
    then have "of_nat hi < skip_front" by (simp add: word_less_nat_alt i)
    moreover have "drop (unat skip_front) (take (Suc hi) addrs) = []" using True by simp
    ultimately show ?thesis using True
      by (subst backtrace_loop.simps) (simp add: append_frames_def loop_end_def)
  next
    case False
    then have ge: "\<not> of_nat hi < skip_front" by (simp add: word_less_nat_alt i)
    have split: "rev (drop (unat skip_front) (take (Suc hi) addrs))
        = addrs ! hi # rev (drop (unat skip_front) (take hi addrs))"
      using False Suc.prems(1) by (simp add: take_Suc_conv_app_nth)
    have "\<not> (128 \<le> hi \<or> length addrs \<le> hi)" using Suc.prems(1) size by simp
    then have step: "backtrace_loop frame addrs skip_front (of_nat hi) out
      = bind_res (frame (addrs ! hi)) (\<lambda>f. backtrace_loop frame addrs skip_front (of_nat hi - 1) (append_frames [f] out))"
      using ge push_back_frames [OF Suc.prems(3)] by (subst backtrace_loop.simps) (simp add: i)
    have rest: "backtrace_loop frame addrs skip_front (of_nat hi - 1) (append_frames [f] out)
        = bind_res (map_res frame (rev (drop (unat skip_front) (take hi addrs))))
            (\<lambda>fs. loop_end (unat skip_front) (append_frames (f # fs) out))" for f
    proof (cases "hi = 0")
      case True
      with False have "skip_front = 0" by (simp add: unat_eq_0)
      moreover have "unat (- 1 :: u64) = 2 ^ 64 - 1" by (simp add: unsigned_minus_1_eq_mask mask_eq_exp_minus_1)
      ultimately show ?thesis using True
        by (subst backtrace_loop.simps) (simp add: loop_end_def)
    next
      case False
      have "append_frames [f] out = JNull \<or> (\<exists>xs. append_frames [f] out = JArray xs)"
        using Suc.prems(3) by (auto simp: append_frames_def)
      from Suc.IH [OF _ _ this] False Suc.prems(1) append_frames_append [OF Suc.prems(3)]
      show ?thesis by (simp add: of_nat_diff)
    qed
    show ?thesis by (cases "frame (addrs ! hi)") (simp_all add: step rest split bind_res_assoc)
  qed
qed simp

text \<open>Property C27: for a stack of at most 128 addresses, more than \<open>skip_back\<close> of them, the stack trace has
  the frames from the oldest call to the most recent one, without the first \<open>skip_front\<close> and the last
  \<open>skip_back\<close> addresses (or is null when none is left), and fails with the error of the first frame
  that fails; but with \<open>skip_front = 0\<close>, the default, the unsigned index of the loop never becomes
  smaller than it, and behind the last frame the loop reads outside of the stack.\<close>

theorem frames_in_order:
  assumes "unat skip_back < length addrs" "length addrs \<le> 128"
  shows "createBacktraceSymbols frame addrs skip_front skip_back
    = bind_res (map_res frame (rev (drop (unat skip_front) (take (length addrs - unat skip_back) addrs))))
        (\<lambda>frames. if skip_front = 0 then Inl (Undefined_behaviour ''read outside of the call stack'')
           else Inr (if frames = [] then JNull else JArray frames))"
proof -
  let ?hi = "length addrs - unat skip_back"
  have "of_nat (length addrs) - skip_back - skip_front + skip_front - 1 = (of_nat (length addrs) - skip_back - 1 :: u64)"
    by simp
  also have "\<dots> = of_nat (?hi - 1)"
    using assms(1) by (simp add: of_nat_diff)
  finally have idx: "of_nat (length addrs) - skip_back - skip_front + skip_front - 1 = (of_nat (?hi - 1) :: u64)" .
  have "?hi \<le> length addrs" "0 < ?hi" using assms(1) by simp_all
  note loop = backtrace_loop_frames [OF assms(2) this, of JNull frame skip_front]
  show ?thesis
    unfolding createBacktraceSymbols_def Let_def idx loop [OF disjI1 [OF refl]]
    by (simp add: loop_end_def append_frames_def unat_eq_0 cong: if_cong)
qed

theorem frames_in_order_witness:
  "createBacktraceSymbols (\<lambda>a. Inr (JUnsigned a)) [1, 2, 3, 4, 5] 2 1 = Inr (JArray [JUnsigned 4, JUnsigned 3])
   \<and> createBacktraceSymbols (\<lambda>a. Inr (JUnsigned a)) [1, 2] 0 0
     = Inl (Undefined_behaviour ''read outside of the call stack'')"
  using frames_in_order [of 1 "[1, 2, 3, 4, 5]" "\<lambda>a. Inr (JUnsigned a)" 2]
    frames_in_order [of 0 "[1, 2]" "\<lambda>a. Inr (JUnsigned a)" 0] by simp

section \<open>Source lines\<close>

text \<open>The lines before a line, the line itself, and the lines behind it; lines count from 1.\<close>

definition lines_before :: "string list \<Rightarrow> nat \<Rightarrow> nat \<Rightarrow> string list" where
  "lines_before ls l d = drop (l - 1 - d) (take (l - 1) ls)"

definition lines_after :: "string list \<Rightarrow> nat \<Rightarrow> nat \<Rightarrow> string list" where
  "lines_after ls l d = take d (drop l ls)"

definition line_at :: "string list \<Rightarrow> nat \<Rightarrow> string" where
  "line_at ls l = (if l - 1 < length ls then ls ! (l - 1) else [])"

text \<open>The lines the loop still reads from a file.\<close>

definition unread :: "string \<Rightarrow> bool \<Rightarrow> string list" where
  "unread content eof = (if eof then [] else split_lines content)"

lemma unread_getline:
  assumes "getline content = (l, content', eof')"
  shows "unread content False = l # unread content' eof'"
proof (cases "CHR 0x0A \<in> set content")
  case True
  then have "split_lines content = takeWhile (\<lambda>c. c \<noteq> CHR 0x0A) content
      # split_lines (tl (dropWhile (\<lambda>c. c \<noteq> CHR 0x0A) content))"
    by (subst split_lines.simps) simp
  moreover have "dropWhile (\<lambda>c. c \<noteq> CHR 0x0A) content \<noteq> []" using True by (auto simp: dropWhile_eq_Nil_conv)
  ultimately show ?thesis using assms by (auto simp: unread_def getline_def Let_def)
next
  case False
  then have "split_lines content = [content]" by (subst split_lines.simps) simp
  with assms False show ?thesis by (auto simp: unread_def getline_def Let_def)
qed

lemma context_loop_lines:
  assumes small: "L < 2 ^ 32" "d < 2 ^ 32"
  shows "\<lbrakk>unread content eof = rs; 0 < k; k \<le> L + d + 1\<rbrakk>
    \<Longrightarrow> context_loop (of_nat L) (of_nat d) (of_nat k) content eof (c, p, q) =
      (if k \<le> L \<and> L - k < length rs then rs ! (L - k) else c,
       p @ (if d \<le> L then drop (L - d - k) (take (L - k) rs) else []),
       q @ drop (L + 1 - k) (take (L + d + 1 - k) rs))"
proof (induction rs arbitrary: content eof k c p q)
  case Nil
  then have "eof" by (auto simp: unread_def split_lines.simps split: if_splits)
  then show ?case by (subst context_loop.simps) simp
next
  case (Cons r rs)
  have eof: "\<not> eof" using Cons.prems(1) by (auto simp: unread_def)
  obtain l content' eof' where get: "getline content = (l, content', eof')" by (metis prod_cases3)
  with unread_getline [OF get] Cons.prems(1) eof have l: "l = r" and rest: "unread content' eof' = rs" by simp_all
  have u: "unat (of_nat n :: u64) = n" if "n \<le> L + d + 1" for n
    using that small by (intro unat_of_nat_size) simp
  have le: "(of_nat a \<le> (of_nat b :: u64)) = (a \<le> b)" if "a \<le> L + d + 1" "b \<le> L + d + 1" for a b
    using that by (simp add: word_le_nat_alt u)
  have less: "(of_nat a < (of_nat b :: u64)) = (a < b)" if "a \<le> L + d + 1" "b \<le> L + d + 1" for a b
    using that by (simp add: word_less_nat_alt u)
  have sum: "of_nat L + of_nat d = (of_nat (L + d) :: u64)" by simp
  have pre: "(of_nat L - of_nat d \<le> (of_nat k :: u64)) = (d \<le> L \<and> L - d \<le> k)" if "k \<le> L + d"
  proof (cases "d \<le> L")
    case True
    then have "of_nat L - of_nat d = (of_nat (L - d) :: u64)" by (simp add: of_nat_diff)
    with True that show ?thesis using le [of "L - d" k] by simp
  next
    case False
    have "unat (of_nat L - of_nat d :: u64) = 2 ^ 64 + L - d"
      using False small u [of L] u [of d] by (simp add: unat_sub_if_size word_size)
    with False that small show ?thesis using u [of k] by (simp add: word_le_nat_alt)
  qed
  show ?case
  proof (cases "k \<le> L + d")
    case False
    with Cons.prems(3) have k: "k = L + d + 1" by simp
    then have "\<not> of_nat k \<le> (of_nat L + of_nat d :: u64)" using le [of k "L + d"] by (simp only: sum)
    then have "context_loop (of_nat L) (of_nat d) (of_nat k) content eof (c, p, q) = (c, p, q)"
      by (subst context_loop.simps) (simp only: if_True not_False_eq_True prod.case)
    then show ?thesis by (simp add: k)
  next
    case True
    have bound: "of_nat k \<le> (of_nat L + of_nat d :: u64)" 
      unfolding sum by (subst le) (use True in simp_all)
    have one: "of_nat k + 1 = (of_nat (k + 1) :: u64)" by simp
    let ?st = "if (d \<le> L \<and> L - d \<le> k) \<and> k < L then (c, p @ [r], q)
       else if k = L then (r, p, q) else if L < k then (c, p, q @ [r]) else (c, p, q)"
    have "unat (of_nat k :: u64) = k" "unat (of_nat L :: u64) = L" using True by (simp_all add: u)
    then have eq: "(of_nat k = (of_nat L :: u64)) = (k = L)" by metis
    have "context_loop (of_nat L) (of_nat d) (of_nat k) content eof (c, p, q)
        = context_loop (of_nat L) (of_nat d) (of_nat (k + 1)) content' eof' ?st"
    proof -
      have "(of_nat k < (of_nat L :: u64)) = (k < L)" "(of_nat L < (of_nat k :: u64)) = (L < k)"
        using True by (simp_all add: less)
      with eof bound eq pre [OF True] show ?thesis
        by (subst context_loop.simps) (simp only: get l one Let_def prod.case if_True if_False not_True_eq_False simp_thms cong: if_cong)
    qed
    then have step: "context_loop (of_nat L) (of_nat d) (of_nat k) content eof (c, p, q)
        = context_loop (of_nat L) (of_nat d) (of_nat (k + 1)) content' eof' ?st" .
    have next_line: "0 < k + 1" "k + 1 \<le> L + d + 1" using True by simp_all
    note IH = Cons.IH [OF rest next_line]
    consider (before) "k < L" | (at) "k = L" | (behind) "L < k" by linarith
    then show ?thesis
    proof cases
      case before
      then obtain j where L: "L = Suc (k + j)" by (auto simp: less_iff_Suc_add)
      have ctx: "L - k = Suc j" "L - (k + 1) = j" "L + 1 - k = Suc (Suc j)" "L + 1 - (k + 1) = Suc j"
          "L + d + 1 - k = Suc (Suc (j + d))" "L + d + 1 - (k + 1) = Suc (j + d)" "k \<le> L" "k + 1 \<le> L"
        by (simp_all add: L)
      show ?thesis
      proof (cases "d \<le> L \<and> L - d \<le> k")
        case True
        then have "L - d - k = 0" "L - d - (k + 1) = 0" by (metis diff_is_0_eq le_add1 le_trans)+
        moreover have "?st = (c, p @ [r], q)" using True before by simp
        ultimately show ?thesis unfolding step by (simp only: IH ctx) (simp add: True)
      next
        case False
        have "d \<le> L \<Longrightarrow> L - d - k = Suc (L - d - (k + 1))" using False by simp
        moreover have "?st = (c, p, q)" using False before by simp
        ultimately show ?thesis unfolding step by (simp only: IH ctx) simp
      qed
    next
      case at
      then have "?st = (r, p, q)" by simp
      then show ?thesis unfolding step by (simp only: IH) (simp add: at)
    next
      case behind
      then have "L + d + 1 - k = Suc (L + d + 1 - (k + 1))" "L + 1 - k = 0" "L + 1 - (k + 1) = 0" "L - k = 0" "L - (k + 1) = 0"
        using True by simp_all
      moreover have "?st = (c, p, q @ [r])" using behind by simp
      ultimately show ?thesis unfolding step by (simp only: IH) (use behind in simp)
    qed
  qed
qed

text \<open>Property C28: for line \<open>L\<close> of a readable file (\<open>L\<close> counts from 1; \<open>L\<close> and \<open>d\<close> are below 2^32) the
  context is that line, the \<open>d\<close> lines behind it as far as there are any, and the \<open>d\<close> lines before it
  (all \<open>d\<close> - 1 of them when \<open>L = d\<close>); but when \<open>L\<close> is smaller than \<open>d\<close>, none of the earlier lines is
  returned, since the subtraction of the two unsigned numbers wraps.\<close>

theorem context_of_line:
  assumes "files path = Some content" "0 < L" "L < 2 ^ 32" "d < 2 ^ 32"
  shows "getContextLines files path (of_nat L) (of_nat d) =
    (let ls = split_lines content
     in Inr (JObject [(''context_line'', JString (line_at ls L)),
          (''post_context'', JArray (map JString (lines_after ls L d))),
          (''pre_context'', JArray (map JString (if d \<le> L then lines_before ls L d else [])))]))"
proof -
  have "context_loop (of_nat L) (of_nat d) (of_nat 1) content False ([], [], []) =
      (line_at (split_lines content) L, if d \<le> L then lines_before (split_lines content) L d else [],
       lines_after (split_lines content) L d)"
    using context_loop_lines [OF assms(3,4), of content False "split_lines content" 1 "[]" "[]" "[]"] assms(2)
    by (simp add: unread_def line_at_def lines_before_def lines_after_def drop_take diff_diff_eq add.commute Let_def)
  then show ?thesis
    using assms(1) by (simp add: getContextLines_def json_set_def Let_def)
qed

theorem context_of_line_witness:
  "getContextLines (\<lambda>_. Some (''int a;'' @ [CHR 0x0A] @ ''int b;'')) ''a.cpp'' (of_nat 1) (of_nat 4) =
    (let ls = split_lines (''int a;'' @ [CHR 0x0A] @ ''int b;'')
     in Inr (JObject [(''context_line'', JString (line_at ls 1)),
          (''post_context'', JArray (map JString (lines_after ls 1 4))),
          (''pre_context'', JArray (map JString (if (4 :: nat) \<le> 1 then lines_before ls 1 4 else [])))]))"
  by (rule context_of_line) simp_all

end
