(* ===== verification/Http_Message.thy ===== *)
theory Http_Message
  imports Simple_Web "HOL-Library.Multiset"
begin

text \<open>
  \<open>externals/http-server-3.0.0/utility.hpp\<close>: percent encoding, query strings, and the parsers of
  header fields, requests and responses.  An \<open>std::istream\<close> is what it still holds and its
  \<open>eofbit\<close>: at the end of the input \<open>getline\<close> sets the bit, and with the bit set it leaves the line
  as it was.  Positions that can only be inside a string are natural numbers, and \<open>None\<close> is
  \<open>npos\<close>; where the code's arithmetic on \<open>npos\<close> or on small positions wraps, they are \<open>size_t\<close>.
\<close>

section \<open>Percent encoding\<close>

definition hex_chars :: string where
  "hex_chars = ''0123456789ABCDEF''"

definition percent_encoded :: "char \<Rightarrow> bool" where
  "percent_encoded chr \<longleftrightarrow>
     chr = CHR ''!'' \<or> chr = CHR ''#'' \<or> chr = CHR ''$'' \<or> (CHR ''&'' \<le> chr \<and> chr \<le> CHR '','')
     \<or> (CHR ''/'' \<le> chr \<and> chr \<le> CHR '';'') \<or> chr = CHR ''='' \<or> chr = CHR ''?'' \<or> chr = CHR ''@''
     \<or> chr = CHR ''['' \<or> chr = CHR '']''"

definition percent_encode_chr :: "char \<Rightarrow> string" where
  "percent_encode_chr chr =
     (if chr = CHR '' '' then ''+''
      else if percent_encoded chr
      then ''%'' @ [hex_chars ! (of_char chr div 16), hex_chars ! (of_char chr mod 16)]
      else [chr])"

definition percent_encode :: "string \<Rightarrow> string" where
  "percent_encode s = concat (map percent_encode_chr s)"

text \<open>\<open>std::strtol\<close> in base 16, on strings too short to overflow.\<close>

definition strtol_16 :: "string \<Rightarrow> int" where
  "strtol_16 s =
     (let s1 = dropWhile is_space s;
          neg = (s1 \<noteq> [] \<and> hd s1 = CHR ''-'');
          s2 = (if s1 \<noteq> [] \<and> (hd s1 = CHR ''-'' \<or> hd s1 = CHR ''+'') then tl s1 else s1);
          v = int (digits_value 16 (take_digits 16 (snd (stoul_prefix 16 s2))))
      in if neg then - v else v)"

fun percent_decode :: "string \<Rightarrow> string" where
  "percent_decode [] = []"
| "percent_decode (chr # rest) =
     (if chr = CHR ''%'' \<and> 2 \<le> length rest
      then char_of (nat (strtol_16 (take 2 rest) mod 256)) # percent_decode (drop 2 rest)
      else if chr = CHR ''+'' then CHR '' '' # percent_decode rest
      else chr # percent_decode rest)"

section \<open>Query strings\<close>

fun query_create_loop :: "bool \<Rightarrow> header \<Rightarrow> string" where
  "query_create_loop first [] = []"
| "query_create_loop first ((name, val) # fs) =
     (if \<not> first then ''&'' else []) @ name @ ''='' @ percent_encode val @ query_create_loop False fs"

definition query_create :: "header \<Rightarrow> string" where
  "query_create fs = query_create_loop True fs"

text \<open>The part of a string between two positions; \<open>None\<close> is the end of the string.\<close>

definition between :: "string \<Rightarrow> nat \<Rightarrow> nat option \<Rightarrow> string" where
  "between s i j = drop i (case j of Some j \<Rightarrow> take j s | None \<Rightarrow> s)"

text \<open>The state of the loop: \<open>name_pos\<close>, \<open>name_end_pos\<close>, \<open>value_pos\<close> and the result.\<close>

type_synonym query_state = "nat \<times> nat option \<times> nat option \<times> header"

definition query_step :: "string \<Rightarrow> nat \<Rightarrow> query_state \<Rightarrow> query_state" where
  "query_step q c st =
     (case st of (name_pos, name_end_pos, value_pos, result) \<Rightarrow>
        if q ! c = CHR ''&''
        then let name = between q name_pos (Some (case name_end_pos of None \<Rightarrow> c | Some e \<Rightarrow> e));
                 val = (case value_pos of None \<Rightarrow> [] | Some v \<Rightarrow> between q v (Some c))
             in (c + 1, None, None,
                 if name \<noteq> [] then hdr_emplace name (percent_decode val) result else result)
        else if q ! c = CHR ''='' then (name_pos, Some c, Some (c + 1), result)
        else st)"

definition query_parse :: "string \<Rightarrow> header" where
  "query_parse q =
     (if q = [] then []
      else case fold (query_step q) [0..<length q] (0, None, None, []) of
             (name_pos, name_end_pos, value_pos, result) \<Rightarrow>
               if name_pos < length q
               then let name = between q name_pos name_end_pos;
                        val = (case value_pos of
                                 None \<Rightarrow> []
                               | Some v \<Rightarrow> if length q \<le> v then [] else between q v None)
                    in if name \<noteq> [] then hdr_emplace name (percent_decode val) result else result
               else result)"

section \<open>Header fields\<close>

type_synonym istream = "string \<times> bool"

definition stream_getline :: "istream \<Rightarrow> string \<Rightarrow> string \<times> istream" where
  "stream_getline stream line =
     (case stream of (s, eof) \<Rightarrow>
        if eof then (line, (s, True))
        else (takeWhile (\<lambda>c. c \<noteq> CHR 0x0A) s,
              (tl (dropWhile (\<lambda>c. c \<noteq> CHR 0x0A) s), CHR 0x0A \<notin> set s)))"

definition header_field :: "string \<Rightarrow> nat \<Rightarrow> header \<Rightarrow> header" where
  "header_field line param_end result =
     (let value_start = param_end + 1
      in if value_start < length line
         then let value_start = (if line ! value_start = CHR '' '' then value_start + 1 else value_start)
              in if value_start < length line
                 then hdr_emplace (take param_end line)
                        (take (length line - value_start - 1) (drop value_start line)) result
                 else result
         else result)"

partial_function (option) header_loop :: "string \<Rightarrow> istream \<Rightarrow> header \<Rightarrow> (header \<times> istream) option" where
  "header_loop line stream result =
     (case index_of CHR '':'' line of
        None \<Rightarrow> Some (result, stream)
      | Some param_end \<Rightarrow>
          (let (line', stream') = stream_getline stream line
           in header_loop line' stream' (header_field line param_end result)))"

definition header_parse :: "istream \<Rightarrow> (header \<times> istream) option" where
  "header_parse stream = (let (line, stream) = stream_getline stream [] in header_loop line stream [])"

section \<open>Attributes separated by semicolons\<close>

text \<open>The state of the loop: \<open>name_start_pos\<close>, \<open>name_end_pos\<close>, \<open>value_start_pos\<close> and the result.\<close>

type_synonym attribute_state = "nat option \<times> nat option \<times> nat option \<times> header"

definition attribute_step :: "string \<Rightarrow> nat \<Rightarrow> attribute_state \<Rightarrow> attribute_state" where
  "attribute_step str c st =
     (case st of
        (None, name_end, value_start, result) \<Rightarrow>
          if str ! c \<noteq> CHR '' '' \<and> str ! c \<noteq> CHR '';'' then (Some c, name_end, value_start, result) else st
      | (Some name_start, None, value_start, result) \<Rightarrow>
          if str ! c = CHR '';''
          then (None, None, value_start, hdr_emplace (between str name_start (Some c)) [] result)
          else if str ! c = CHR ''='' then (Some name_start, Some c, value_start, result)
          else st
      | (Some name_start, Some name_end, None, result) \<Rightarrow>
          (Some name_start, Some name_end,
           Some (if str ! c = CHR 0x22 \<and> c + 1 < length str then c + 1 else c), result)
      | (Some name_start, Some name_end, Some value_start, result) \<Rightarrow>
          if str ! c = CHR 0x22 \<or> str ! c = CHR '';''
          then (None, None, None,
                hdr_emplace (between str name_start (Some name_end))
                  (percent_decode (between str value_start (Some c))) result)
          else st)"

definition attributes_parse :: "string \<Rightarrow> header" where
  "attributes_parse str =
     (case fold (attribute_step str) [0..<length str] (None, None, None, []) of
        (None, _, _, result) \<Rightarrow> result
      | (Some name_start, None, _, result) \<Rightarrow> hdr_emplace (between str name_start None) [] result
      | (Some name_start, Some name_end, None, result) \<Rightarrow> result
      | (Some name_start, Some name_end, Some value_start, result) \<Rightarrow>
          if last str = CHR 0x22
          then hdr_emplace (between str name_start (Some name_end))
                 (percent_decode (take (length str - 1) (drop value_start str))) result
          else hdr_emplace (between str name_start (Some name_end))
                 (percent_decode (between str value_start None)) result)"

section \<open>Requests and responses\<close>

text \<open>The parsers are \<open>noexcept\<close>.\<close>

definition noexcept :: "'a res \<Rightarrow> 'a res" where
  "noexcept r = (case r of Inl e \<Rightarrow> Inl (Terminate ''exception in a noexcept function'') | Inr x \<Rightarrow> Inr x)"

definition str_find_from :: "char \<Rightarrow> string \<Rightarrow> size_t \<Rightarrow> size_t" where
  "str_find_from c s pos =
     (case index_of c (drop (unat pos) s) of None \<Rightarrow> npos | Some i \<Rightarrow> pos + of_nat i)"

record request_message =
  req_method :: string
  req_path :: string
  req_query_string :: string
  req_version :: string
  req_header :: header

text \<open>The loop over the request target: \<open>query_start\<close> and \<open>path_and_query_string_end\<close>.\<close>

fun request_scan :: "nat \<Rightarrow> nat \<Rightarrow> string \<Rightarrow> size_t \<Rightarrow> size_t \<times> size_t" where
  "request_scan sz i [] query_start = (query_start, npos)"
| "request_scan sz i (c # cs) query_start =
     (if c = CHR ''?'' \<and> i + 1 < sz then request_scan sz (i + 1) cs (of_nat (i + 1))
      else if c = CHR '' '' then (query_start, of_nat i)
      else request_scan sz (i + 1) cs query_start)"

definition request_version :: "string \<Rightarrow> size_t \<Rightarrow> request_message \<Rightarrow> (bool \<times> request_message) res" where
  "request_version line path_end msg =
     (let protocol_end = str_find_from CHR ''/'' line (path_end + 1)
      in if protocol_end \<noteq> npos
         then bind_res (str_substr line (path_end + 1) (protocol_end - path_end - 1)) (\<lambda>protocol.
              if protocol \<noteq> ''HTTP'' then Inr (False, msg)
              else bind_res (str_substr line (protocol_end + 1) (of_nat (length line) - protocol_end - 2)) (\<lambda>version.
                   Inr (True, msg\<lparr>req_version := version\<rparr>)))
         else Inr (False, msg))"

definition request_line :: "string \<Rightarrow> request_message \<Rightarrow> (bool \<times> request_message) res" where
  "request_line line msg =
     (let method_end = str_find CHR '' '' line
      in if method_end = npos then Inr (False, msg)
         else bind_res (str_substr line 0 method_end) (\<lambda>meth.
              let msg = msg\<lparr>req_method := meth\<rparr>;
                  start = unat method_end + 1;
                  (query_start, path_end) = request_scan (length line) start (drop start line) npos
              in if path_end = npos then Inr (False, msg)
                 else if query_start \<noteq> npos
                 then bind_res (str_substr line (method_end + 1) (query_start - method_end - 2)) (\<lambda>path.
                      bind_res (str_substr line query_start (path_end - query_start)) (\<lambda>query.
                      request_version line path_end (msg\<lparr>req_path := path, req_query_string := query\<rparr>)))
                 else bind_res (str_substr line (method_end + 1) (path_end - method_end - 1)) (\<lambda>path.
                      request_version line path_end (msg\<lparr>req_path := path\<rparr>))))"

definition request_parse ::
    "istream \<Rightarrow> request_message \<Rightarrow> (bool \<times> request_message \<times> istream) res option" where
  "request_parse stream msg =
     (let msg = msg\<lparr>req_header := []\<rparr>; (line, stream) = stream_getline stream []
      in case noexcept (request_line line msg) of
           Inl e \<Rightarrow> Some (Inl e)
         | Inr (False, msg) \<Rightarrow> Some (Inr (False, msg, stream))
         | Inr (True, msg) \<Rightarrow>
             map_option (\<lambda>(h, stream). Inr (True, msg\<lparr>req_header := h\<rparr>, stream)) (header_parse stream))"

record response_message =
  http_version :: string
  status_code_line :: string
  response_header :: header

definition status_line :: "string \<Rightarrow> response_message \<Rightarrow> (bool \<times> response_message) res" where
  "status_line line msg =
     (let version_end = str_find CHR '' '' line
      in if version_end = npos then Inr (False, msg)
         else if \<not> 5 < length line then Inr (False, msg)
         else bind_res (str_substr line 5 (version_end - 5)) (\<lambda>version.
              let msg = msg\<lparr>http_version := version\<rparr>
              in if \<not> unat (version_end + 1) < length line then Inr (False, msg)
                 else bind_res (str_substr line (version_end + 1) (of_nat (length line) - (version_end + 1) - 1))
                        (\<lambda>code. Inr (True, msg\<lparr>status_code_line := code\<rparr>))))"

definition response_parse ::
    "istream \<Rightarrow> response_message \<Rightarrow> (bool \<times> response_message \<times> istream) res option" where
  "response_parse stream msg =
     (let msg = msg\<lparr>response_header := []\<rparr>; (line, stream) = stream_getline stream []
      in case noexcept (status_line line msg) of
           Inl e \<Rightarrow> Some (Inl e)
         | Inr (False, msg) \<Rightarrow> Some (Inr (False, msg, stream))
         | Inr (True, msg) \<Rightarrow>
             map_option (\<lambda>(h, stream). Inr (True, msg\<lparr>response_header := h\<rparr>, stream)) (header_parse stream))"

section \<open>What encoding and decoding preserve\<close>

lemma hex_char_facts:
  assumes "i < 16"
  shows "digit_value (hex_chars ! i) = Some i" "hex_chars ! i \<noteq> CHR ''-''" "hex_chars ! i \<noteq> CHR ''+''"
    "\<not> is_space (hex_chars ! i)" "hex_chars ! i \<noteq> CHR ''&''" "hex_chars ! i \<noteq> CHR ''=''"
proof -
  have "\<forall>i \<in> set [0..<16]. digit_value (hex_chars ! i) = Some i \<and> hex_chars ! i \<noteq> CHR ''-''
      \<and> hex_chars ! i \<noteq> CHR ''+'' \<and> \<not> is_space (hex_chars ! i) \<and> hex_chars ! i \<noteq> CHR ''&''
      \<and> hex_chars ! i \<noteq> CHR ''=''"
    by code_simp
  with assms show "digit_value (hex_chars ! i) = Some i" "hex_chars ! i \<noteq> CHR ''-''"
      "hex_chars ! i \<noteq> CHR ''+''" "\<not> is_space (hex_chars ! i)" "hex_chars ! i \<noteq> CHR ''&''"
      "hex_chars ! i \<noteq> CHR ''=''"
    by auto
qed

lemma strtol_16_hex:
  assumes "n < 256"
  shows "strtol_16 [hex_chars ! (n div 16), hex_chars ! (n mod 16)] = int n"
proof -
  have "n div 16 < 16" "n mod 16 < 16" using assms by simp_all
  from hex_char_facts [OF this(1)] hex_char_facts [OF this(2)] \<open>n div 16 < 16\<close>
  show ?thesis by (simp add: strtol_16_def stoul_prefix_def digits_value_def Let_def)
qed

lemma percent_decode_encode_chr:
  assumes "c \<noteq> CHR ''%''"
  shows "percent_decode (percent_encode_chr c @ rest) = c # percent_decode rest"
proof -
  have n: "of_char c < (256 :: nat)" by (rule nat_of_char_less_256)
  have "percent_encoded CHR ''+''" "\<not> percent_encoded CHR '' ''"
    by (simp_all add: percent_encoded_def less_eq_char_def)
  with assms show ?thesis
    using strtol_16_hex [OF n] n by (auto simp: percent_encode_chr_def)
qed

lemma percent_decode_encode:
  "CHR ''%'' \<notin> set s \<Longrightarrow> percent_decode (percent_encode s) = s"
  by (induction s) (auto simp: percent_encode_def percent_decode_encode_chr)

lemma percent_encode_chr_plain:
  assumes "d \<in> set (percent_encode_chr c)"
  shows "d \<noteq> CHR ''&'' \<and> d \<noteq> CHR ''=''"
proof -
  have "of_char c div 16 < (16 :: nat)" "of_char c mod 16 < (16 :: nat)"
    using less_mult_imp_div_less [of "of_char c" 16 "16 :: nat"] nat_of_char_less_256 [of c] by simp_all
  moreover have "percent_encoded CHR ''&''" "percent_encoded CHR ''=''"
    by (simp_all add: percent_encoded_def less_eq_char_def)
  ultimately show ?thesis
    using assms hex_char_facts(5,6) by (auto simp: percent_encode_chr_def split: if_splits)
qed

lemma percent_encode_plain:
  "CHR ''&'' \<notin> set (percent_encode s)" "CHR ''='' \<notin> set (percent_encode s)"
  using percent_encode_chr_plain by (auto simp: percent_encode_def)

lemma percent_encode_Nil [simp]: "percent_encode s = [] \<longleftrightarrow> s = []"
  by (cases s) (auto simp: percent_encode_def percent_encode_chr_def)

section \<open>Reading back a query string\<close>

lemma upt_split: "a \<le> m \<Longrightarrow> m < k \<Longrightarrow> [a..<k] = [a..<m] @ m # [Suc m..<k]"
  using upt_add_eq_append [of a m "k - m"] by (simp add: upt_conv_Cons)

lemma fold_query_plain:
  "(\<And>c. i \<le> c \<Longrightarrow> c < j \<Longrightarrow> q ! c \<noteq> CHR ''&'' \<and> q ! c \<noteq> CHR ''='') \<Longrightarrow> fold (query_step q) [i..<j] st = st"
  by (induction j) (auto simp: query_step_def split: prod.splits)

lemma fold_query_text:
  assumes "q = p @ t @ rest" "CHR ''&'' \<notin> set t" "CHR ''='' \<notin> set t" "i = length p" "j = i + length t"
  shows "fold (query_step q) [i..<j] st = st"
proof (rule fold_query_plain)
  fix c assume "i \<le> c" "c < j"
  with assms have "q ! c = t ! (c - i)" "t ! (c - i) \<in> set t" by (auto simp: nth_append)
  with assms show "q ! c \<noteq> CHR ''&'' \<and> q ! c \<noteq> CHR ''=''" by metis
qed

lemma fold_query_field:
  assumes q: "q = p @ name @ ''='' @ val @ rest"
    and plain: "CHR ''&'' \<notin> set name" "CHR ''='' \<notin> set name" "CHR ''&'' \<notin> set val" "CHR ''='' \<notin> set val"
  shows "fold (query_step q) [length p..<length p + length name + 1 + length val] (i, None, None, r)
    = (i, Some (length p + length name), Some (length p + length name + 1), r)"
proof -
  let ?m = "length p + length name"
  have split: "[length p..<?m + 1 + length val] = [length p..<?m] @ ?m # [Suc ?m..<?m + 1 + length val]"
    by (rule upt_split) simp_all
  have eq: "q ! ?m = CHR ''=''" by (simp add: q nth_append)
  have "fold (query_step q) [Suc ?m..<?m + 1 + length val] st = st" for st
    by (rule fold_query_text [of _ "p @ name @ ''=''" val rest]) (simp_all add: q plain)
  moreover have "fold (query_step q) [length p..<?m] st = st" for st
    by (rule fold_query_text [of _ p name "''='' @ val @ rest"]) (simp_all add: q plain)
  ultimately show ?thesis
    unfolding split by (simp add: query_step_def eq)
qed

definition query_ok :: "string \<times> string \<Rightarrow> bool" where
  "query_ok f \<longleftrightarrow> fst f \<noteq> [] \<and> CHR ''&'' \<notin> set (fst f) \<and> CHR ''='' \<notin> set (fst f) \<and> CHR ''%'' \<notin> set (snd f)"

definition query_finish :: "string \<Rightarrow> query_state \<Rightarrow> header" where
  "query_finish q st =
     (case st of (name_pos, name_end_pos, value_pos, result) \<Rightarrow>
        if name_pos < length q
        then let name = between q name_pos name_end_pos;
                 val = (case value_pos of
                          None \<Rightarrow> []
                        | Some v \<Rightarrow> if length q \<le> v then [] else between q v None)
             in if name \<noteq> [] then hdr_emplace name (percent_decode val) result else result
        else result)"

lemma query_parse_finish:
  "query_parse q = (if q = [] then [] else query_finish q (fold (query_step q) [0..<length q] (0, None, None, [])))"
  by (simp add: query_parse_def query_finish_def)

lemma query_loop_fields:
  "\<lbrakk>q = p @ query_create_loop True fs; fs \<noteq> []; list_all query_ok fs\<rbrakk>
   \<Longrightarrow> query_finish q (fold (query_step q) [length p..<length q] (length p, None, None, r)) = r @ fs"
proof (induction fs arbitrary: p r)
  case (Cons f fs)
  obtain name val where f: "f = (name, val)" by fastforce
  let ?v = "percent_encode val"
  let ?rest = "query_create_loop False fs"
  from Cons.prems have q: "q = p @ name @ ''='' @ ?v @ ?rest" by (simp add: f)
  from Cons.prems have ok: "name \<noteq> []" "CHR ''&'' \<notin> set name" "CHR ''='' \<notin> set name" "CHR ''%'' \<notin> set val"
    by (simp_all add: f query_ok_def)
  note field = fold_query_field [OF q ok(2,3) percent_encode_plain, of "length p" r]
  show ?case
  proof (cases fs)
    case Nil
    have len: "length q = length p + length name + 1 + length ?v" by (simp add: q Nil)
    have "fold (query_step q) [length p..<length q] (length p, None, None, r)
        = (length p, Some (length p + length name), Some (length p + length name + 1), r)"
      using field by (simp only: len)
    with ok show ?thesis
      by (simp add: query_finish_def between_def len)
        (auto simp: q Nil hdr_emplace_def f percent_decode_encode)
  next
    case (Cons g gs)
    let ?k = "length p + length name + 1 + length ?v"
    let ?p = "p @ name @ ''='' @ ?v @ ''&''"
    have rest: "?rest = ''&'' @ query_create_loop True fs" by (cases g) (simp add: Cons)
    have q': "q = ?p @ query_create_loop True fs" by (simp add: q rest)
    have split: "[length p..<length q] = [length p..<?k] @ ?k # [Suc ?k..<length q]"
      by (rule upt_split) (simp_all add: q')
    have amp: "query_step q ?k (length p, Some (length p + length name), Some (length p + length name + 1), r)
        = (length ?p, None, None, r @ [f])"
      using ok by (simp add: query_step_def q' nth_append between_def hdr_emplace_def f percent_decode_encode)
    have "Suc ?k = length ?p" by simp
    then have "fold (query_step q) [length p..<length q] (length p, None, None, r)
        = fold (query_step q) [length ?p..<length q] (length ?p, None, None, r @ [f])"
      unfolding split fold_append o_apply fold.simps field amp by metis
    moreover have "fs \<noteq> []" "list_all query_ok fs" using Cons Cons.prems(3) by simp_all
    ultimately show ?thesis using Cons.IH [OF q', of "r @ [f]"] by simp
  qed
qed simp

text \<open>Parsing the query string made from some fields gives these fields back, whatever
  their values, as long as no value contains a percent sign (which \<open>encode\<close> does not encode) and the
  names, which are not encoded, are nonempty and free of ampersands and equals signs.\<close>

theorem query_roundtrip:
  assumes "list_all query_ok fs"
  shows "mset (query_parse (query_create fs)) = mset fs"
proof (cases "fs = []")
  case True
  then show ?thesis by (simp add: query_create_def query_parse_def)
next
  case False
  then have "query_create fs \<noteq> []" by (cases fs) (auto simp: query_create_def)
  with query_loop_fields [of "query_create fs" "[]" fs "[]"] False assms
  show ?thesis by (simp add: query_parse_finish query_create_def)
qed

theorem query_roundtrip_witness:
  "mset (query_parse (query_create [(''a'', ''x & y''), (''b'', ''1+1=2'')]))
   = mset [(''a'', ''x & y''), (''b'', ''1+1=2'')]"
  by (rule query_roundtrip) (simp add: query_ok_def)

section \<open>Reading header fields\<close>

lemma stream_getline_line:
  "CHR 0x0A \<notin> set t \<Longrightarrow> stream_getline (t @ CHR 0x0A # rest, False) l = (t, (rest, False))"
  by (simp add: stream_getline_def)

lemma stream_getline_crlf:
  "CHR 0x0A \<notin> set t \<Longrightarrow> stream_getline (t @ crlf @ rest, False) l = (t @ [CHR 0x0D], (rest, False))"
  using stream_getline_line [of "t @ [CHR 0x0D]" rest l] by (simp add: crlf_def)

lemma stream_getline_end:
  "CHR 0x0A \<notin> set t \<Longrightarrow> stream_getline (t, False) l = (t, ([], True))"
  by (simp add: stream_getline_def)

text \<open>A field that can be written on a header line and read back.\<close>

definition field_ok :: "string \<times> string \<Rightarrow> bool" where
  "field_ok f \<longleftrightarrow> CHR '':'' \<notin> set (fst f) \<and> CHR 0x0A \<notin> set (fst f) \<and> CHR 0x0A \<notin> set (snd f)"

lemma header_field_line:
  "CHR '':'' \<notin> set k \<Longrightarrow>
     header_field (k @ '': '' @ v @ [CHR 0x0D]) (length k) r = hdr_emplace k v r"
  by (simp add: header_field_def Let_def nth_append)

lemma header_loop_lines:
  "list_all field_ok h \<Longrightarrow>
     (let (line, stream) = stream_getline (header_lines h @ crlf @ body, False) l
      in header_loop line stream r) = Some (r @ h, (body, False))"
proof (induction h arbitrary: r l)
  case Nil
  have "index_of CHR '':'' [CHR 0x0D] = None" by simp
  then show ?case
    using stream_getline_crlf [of "[]" body l]
    by (simp add: header_lines_def Let_def header_loop.simps [of "[CHR 0x0D]"])
next
  case (Cons f h)
  obtain k v where f: "f = (k, v)" by fastforce
  let ?t = "k @ '': '' @ v"
  from Cons.prems have ok: "CHR '':'' \<notin> set k" "CHR 0x0A \<notin> set ?t" by (simp_all add: field_ok_def f)
  have shape: "header_lines (f # h) @ crlf @ body = ?t @ crlf @ (header_lines h @ crlf @ body)"
    by (simp add: header_lines_def f)
  have line: "stream_getline (header_lines (f # h) @ crlf @ body, False) l
      = (?t @ [CHR 0x0D], (header_lines h @ crlf @ body, False))" for l
    unfolding shape by (rule stream_getline_crlf [OF ok(2)])
  have colon: "index_of CHR '':'' (?t @ [CHR 0x0D]) = Some (length k)"
    using index_of_append [OF ok(1), of "'' '' @ v @ [CHR 0x0D]"] by simp
  have "header_loop (?t @ [CHR 0x0D]) (header_lines h @ crlf @ body, False) r
      = (let (line', stream') = stream_getline (header_lines h @ crlf @ body, False) (?t @ [CHR 0x0D])
         in header_loop line' stream' (header_field (?t @ [CHR 0x0D]) (length k) r))"
    by (subst header_loop.simps) (simp only: colon option.case)
  also have "\<dots> = Some ((r @ [f]) @ h, (body, False))"
    using Cons.IH Cons.prems header_field_line [OF ok(1), of v r] by (simp add: hdr_emplace_def f)
  finally show ?case by (simp only: line Let_def prod.case) simp
qed

lemma header_parse_lines:
  "list_all field_ok h \<Longrightarrow> header_parse (header_lines h @ crlf @ body, False) = Some (h, (body, False))"
  using header_loop_lines [of h body "[]" "[]"] by (simp add: header_parse_def)

lemma header_loop_stuck:
  assumes "header_loop line stream r = Some y"
  shows "\<not> (snd stream \<and> CHR '':'' \<in> set line)"
proof (rule header_loop.raw_induct [OF _ assms, of "\<lambda>line stream r y. \<not> (snd stream \<and> CHR '':'' \<in> set line)"])
  fix loop line r y and stream :: istream
  assume IH: "\<And>line stream r y. loop line stream r = Some y \<Longrightarrow> \<not> (snd stream \<and> CHR '':'' \<in> set line)"
    and run: "(case index_of CHR '':'' line of
        None \<Rightarrow> Some (r, stream)
      | Some param_end \<Rightarrow>
          (let (line', stream') = stream_getline stream line
           in loop line' stream' (header_field line param_end r))) = Some y"
  show "\<not> (snd stream \<and> CHR '':'' \<in> set line)"
  proof
    assume stuck: "snd stream \<and> CHR '':'' \<in> set line"
    then obtain e where e: "index_of CHR '':'' line = Some e" by (cases "index_of CHR '':'' line") auto
    from stuck have "stream_getline stream line = (line, stream)"
      by (cases stream) (auto simp: stream_getline_def)
    with run e have "loop line stream (header_field line e r) = Some y" by simp
    from IH [OF this] stuck show False by blast
  qed
qed

lemma header_loop_colon:
  "CHR '':'' \<in> set line \<Longrightarrow> header_loop line stream r
     = (let (line', stream') = stream_getline stream line
        in header_loop line' stream' (header_field line (the (index_of CHR '':'' line)) r))"
  by (subst header_loop.simps) (auto split: option.splits)

lemma header_loop_None_iff:
  "(let (line, stream) = stream_getline (s, False) l in header_loop line stream r) = None
   \<longleftrightarrow> (\<forall>t \<in> set (split_lines s). CHR '':'' \<in> set t)"
proof (induction s arbitrary: l r rule: split_lines.induct)
  case (1 s)
  let ?t = "takeWhile (\<lambda>c. c \<noteq> CHR 0x0A) s" and ?rest = "tl (dropWhile (\<lambda>c. c \<noteq> CHR 0x0A) s)"
  show ?case
  proof (cases "CHR 0x0A \<in> set s")
    case True
    then have lines: "split_lines s = ?t # split_lines ?rest" by (subst split_lines.simps) simp
    have line: "stream_getline (s, False) l = (?t, (?rest, False))" for l
      using True by (simp add: stream_getline_def)
    show ?thesis
    proof (cases "CHR '':'' \<in> set ?t")
      case colon: True
      then show ?thesis
        using "1.IH" [OF True] by (simp only: line Let_def prod.case header_loop_colon lines) simp
    next
      case False
      then have "index_of CHR '':'' ?t = None" by simp
      with False show ?thesis
        by (simp add: line lines header_loop.simps [of ?t] del: index_of_None)
    qed
  next
    case False
    then have lines: "split_lines s = [s]" by (subst split_lines.simps) simp
    show ?thesis
    proof (cases "CHR '':'' \<in> set s")
      case True
      then have "header_loop s ([], True) r = None"
        using header_loop_stuck [of s "([], True)" r] by (cases "header_loop s ([], True) r") auto
      with True False show ?thesis by (simp add: lines stream_getline_end)
    next
      case nocolon: False
      then have "index_of CHR '':'' s = None" by simp
      with nocolon False show ?thesis
        by (simp add: lines stream_getline_end header_loop.simps [of s] del: index_of_None)
    qed
  qed
qed

text \<open>Property C32: parsing header fields ends exactly when some line of the input, the text behind the
  last line feed included, has no colon; on any other input, such as a last field without a line
  feed, the loop reads the same line for ever.\<close>

theorem header_parse_terminates:
  "(\<exists>result. header_parse (s, False) = Some result)
   \<longleftrightarrow> \<not> list_all (\<lambda>t. CHR '':'' \<in> set t) (split_lines s)"
proof -
  have "header_parse (s, False) = None \<longleftrightarrow> list_all (\<lambda>t. CHR '':'' \<in> set t) (split_lines s)"
    using header_loop_None_iff [of s "[]" "[]"] by (simp add: header_parse_def list_all_iff)
  then show ?thesis by (cases "header_parse (s, False)") auto
qed

section \<open>Reading a response\<close>

definition response_text :: "string \<Rightarrow> string \<Rightarrow> header \<Rightarrow> string \<Rightarrow> string" where
  "response_text version code h body =
     ''HTTP/'' @ version @ '' '' @ code @ crlf @ header_lines h @ crlf @ body"

definition status_ok :: "string \<Rightarrow> string \<Rightarrow> bool" where
  "status_ok version code \<longleftrightarrow>
     CHR '' '' \<notin> set version \<and> CHR 0x0A \<notin> set version \<and> CHR 0x0A \<notin> set code
     \<and> length version < 2 ^ 32 \<and> length code < 2 ^ 32"

lemma status_line_text:
  assumes "status_ok version code"
  shows "status_line (''HTTP/'' @ version @ '' '' @ code @ [CHR 0x0D]) msg
    = Inr (True, msg\<lparr>http_version := version, status_code_line := code\<rparr>)"
proof -
  let ?line = "''HTTP/'' @ version @ '' '' @ code @ [CHR 0x0D]"
  have len: "length version < 2 ^ 64 - 8" "length code < 2 ^ 64" "CHR '' '' \<notin> set (''HTTP/'' @ version)"
    using assms by (simp_all add: status_ok_def)
  have find: "str_find CHR '' '' ?line = of_nat (5 + length version)"
    using str_find_append [OF len(3), of "code @ [CHR 0x0D]"] by simp
  have npos: "(of_nat (5 + length version) :: size_t) \<noteq> npos"
    using len by (intro of_nat_neq_npos) simp
  have version: "str_substr ?line 5 (of_nat (5 + length version) - 5) = Inr version"
    using str_substr_middle [of "''HTTP/''" version "'' '' @ code @ [CHR 0x0D]"] len by simp
  have next_pos: "unat (of_nat (5 + length version) + 1 :: size_t) = 6 + length version"
    using unat_of_nat_size [of "6 + length version"] len by (simp add: add.commute)
  have code: "str_substr ?line (of_nat (5 + length version) + 1)
      (of_nat (length ?line) - (of_nat (5 + length version) + 1) - 1) = Inr code"
    using str_substr_middle [of "''HTTP/'' @ version @ '' ''" code "[CHR 0x0D]"] len
    by (simp add: add.commute add.left_commute)
  show ?thesis
    unfolding status_line_def Let_def find
    by (simp only: npos version code next_pos bind_res_Inr) simp
qed

lemma response_parse_text:
  assumes "status_ok version code" "list_all field_ok h"
  shows "response_parse (response_text version code h body, False) msg
      = Some (Inr (True, \<lparr>http_version = version, status_code_line = code, response_header = h\<rparr>, (body, False)))"
proof -
  have "CHR 0x0A \<notin> set (''HTTP/'' @ version @ '' '' @ code)"
    using assms by (simp add: status_ok_def)
  from stream_getline_crlf [OF this]
  have "stream_getline (response_text version code h body, False) []
      = (''HTTP/'' @ version @ '' '' @ code @ [CHR 0x0D], (header_lines h @ crlf @ body, False))"
    by (simp add: response_text_def)
  moreover note status_line_text [OF assms(1)]
  ultimately show ?thesis
    unfolding response_parse_def
    by (simp only: Let_def prod.case noexcept_def sum.case bool.case header_parse_lines [OF assms(2)] option.map)
      simp
qed

text \<open>The parser of responses reads back the version, the status line, all header fields
  and the beginning of the body of a well-formed response.\<close>

theorem response_roundtrip:
  assumes "status_ok version code" "list_all field_ok h"
  shows "\<exists>h'. mset h' = mset h \<and>
    response_parse (response_text version code h body, False) msg
      = Some (Inr (True, \<lparr>http_version = version, status_code_line = code, response_header = h'\<rparr>, (body, False)))"
  using response_parse_text [OF assms] by blast

theorem response_roundtrip_witness:
  "\<exists>h'. mset h' = mset [(''Content-Length'', ''2'')] \<and>
    response_parse (response_text ''1.1'' ''200 OK'' [(''Content-Length'', ''2'')] ''{}'', False)
      \<lparr>http_version = [], status_code_line = [], response_header = []\<rparr>
      = Some (Inr (True, \<lparr>http_version = ''1.1'', status_code_line = ''200 OK'', response_header = h'\<rparr>,
                   (''{}'', False)))"
  by (rule response_roundtrip) (simp_all add: status_ok_def field_ok_def)

section \<open>Reading a request\<close>

lemma request_scan_plain:
  "CHR '' '' \<notin> set p \<Longrightarrow> CHR ''?'' \<notin> set p
   \<Longrightarrow> request_scan sz i (p @ CHR '' '' # rest) q = (q, of_nat (i + length p))"
  by (induction p arbitrary: i) (auto simp: add.commute add.left_commute)

lemma request_line_text:
  assumes "CHR '' '' \<notin> set meth" "CHR '' '' \<notin> set path" "CHR ''?'' \<notin> set path"
    and "length meth < 2 ^ 32" "length path < 2 ^ 32"
  shows "request_line (meth @ '' '' @ path @ '' HTTP/1.1'' @ [CHR 0x0D]) msg
    = Inr (True, msg\<lparr>req_method := meth, req_path := path, req_version := ''1.1''\<rparr>)"
proof -
  let ?line = "meth @ '' '' @ path @ '' HTTP/1.1'' @ [CHR 0x0D]"
  let ?m = "length meth" and ?e = "length meth + 1 + length path"
  have find: "str_find CHR '' '' ?line = of_nat ?m"
    using str_find_append [OF assms(1), of "path @ '' HTTP/1.1'' @ [CHR 0x0D]"] by simp
  have npos: "(of_nat ?m :: size_t) \<noteq> npos" "(of_nat ?e :: size_t) \<noteq> npos" "(of_nat (?e + 5) :: size_t) \<noteq> npos"
    using assms(4,5) by (intro of_nat_neq_npos; simp)+
  have m: "unat (of_nat ?m :: size_t) = ?m" using assms(4) by (intro unat_of_nat_size) simp
  have e1: "unat (of_nat ?e + 1 :: size_t) = ?e + 1"
    using unat_of_nat_size [of "?e + 1"] assms(4,5) by (simp add: add.commute)
  have meth: "str_substr ?line 0 (of_nat ?m) = Inr meth"
    using assms(4) by (intro str_substr_prefix) simp
  have scan: "request_scan (length ?line) (?m + 1) (drop (?m + 1) ?line) npos = (npos, of_nat ?e)"
    using request_scan_plain [OF assms(2,3), of "length ?line" "?m + 1" "''HTTP/1.1'' @ [CHR 0x0D]" npos] by simp
  have path: "str_substr ?line (of_nat ?m + 1) (of_nat ?e - of_nat ?m - 1) = Inr path"
    using str_substr_middle [of "meth @ '' ''" path "'' HTTP/1.1'' @ [CHR 0x0D]"] assms(4,5)
    by (simp add: add.commute)
  have slash: "str_find_from CHR ''/'' ?line (of_nat ?e + 1) = of_nat (?e + 5)"
    unfolding str_find_from_def e1 by (simp add: add.commute)
  have http: "str_substr ?line (of_nat ?e + 1) (of_nat (?e + 5) - of_nat ?e - 1) = Inr ''HTTP''"
    using str_substr_middle [of "meth @ '' '' @ path @ '' ''" "''HTTP''" "''/1.1'' @ [CHR 0x0D]"] assms(4,5)
    by (simp add: add.commute)
  have version: "str_substr ?line (of_nat (?e + 5) + 1) (of_nat (length ?line) - of_nat (?e + 5) - 2) = Inr ''1.1''"
    using str_substr_middle [of "meth @ '' '' @ path @ '' HTTP/''" "''1.1''" "[CHR 0x0D]"] assms(4,5)
    by (simp add: add.commute add.left_commute)
  have "request_version ?line (of_nat ?e) (msg\<lparr>req_method := meth, req_path := path\<rparr>)
      = Inr (True, msg\<lparr>req_method := meth, req_path := path, req_version := ''1.1''\<rparr>)"
    unfolding request_version_def Let_def slash
    by (simp only: npos http version bind_res_Inr not_True_eq_False if_False if_True) simp
  then show ?thesis
    unfolding request_line_def Let_def find
    by (simp only: npos meth m scan path bind_res_Inr prod.case if_False simp_thms)
qed

definition content_length_field :: "string \<Rightarrow> header \<Rightarrow> header" where
  "content_length_field content h =
     (if content \<noteq> [] \<and> hdr_find ''Content-Length'' h = None \<and> hdr_find ''Transfer-Encoding'' h \<noteq> Some ''chunked''
      then [(''Content-Length'', show_nat (length content))] else [])"

definition target_ok :: "string \<Rightarrow> bool" where
  "target_ok t \<longleftrightarrow> CHR '' '' \<notin> set t \<and> CHR ''?'' \<notin> set t \<and> CHR 0x0A \<notin> set t \<and> length t < 2 ^ 32"

lemma show_nat_no_line_feed: "CHR 0x0A \<notin> set (show_nat n)"
proof (induction "10 :: nat" n rule: show_base.induct)
  case (1 n)
  have "CHR 0x0A \<noteq> digit_char d" if "d < 10" for d
    using digit_char_neq [of d "CHR 0x0A"] that by (simp add: digit_value_def)
  with 1 show ?case by (cases "n < 10") (simp_all add: show_base_small show_base_step)
qed

lemma request_text_lines:
  "request_text c meth path content h =
     (meth @ '' '' @ (if path = [] then ''/'' else path) @ '' HTTP/1.1'') @ crlf
     @ header_lines ((''Host'', client_host c) # h @ content_length_field content h) @ crlf @ content"
  by (auto simp: request_text_def create_request_header_def header_lines_def content_length_field_def
      split: option.splits)

text \<open>Property C31: the request the client writes, read by the parser of requests, has the method, the
  path, version 1.1, all header fields with the host and the length of the content added, and is
  followed by exactly the content.\<close>

theorem request_roundtrip:
  assumes "target_ok meth" "target_ok path" "list_all field_ok h" "CHR 0x0A \<notin> set (client_host c)"
  shows "\<exists>h'. mset h' = mset ((''Host'', client_host c) # h @ content_length_field content h) \<and>
    request_parse (request_text c meth path content h, False) msg
      = Some (Inr (True, msg\<lparr>req_method := meth, req_path := (if path = [] then ''/'' else path),
                             req_version := ''1.1'', req_header := h'\<rparr>, (content, False)))"
proof -
  let ?path = "if path = [] then ''/'' else path"
  let ?h = "(''Host'', client_host c) # h @ content_length_field content h"
  have line: "CHR '' '' \<notin> set meth" "CHR '' '' \<notin> set ?path" "CHR ''?'' \<notin> set ?path"
      "length meth < 2 ^ 32" "length ?path < 2 ^ 32" "CHR 0x0A \<notin> set (meth @ '' '' @ ?path @ '' HTTP/1.1'')"
    using assms(1,2) by (simp_all add: target_ok_def)
  have h: "list_all field_ok ?h"
    using assms(3,4) show_nat_no_line_feed by (simp add: field_ok_def content_length_field_def)
  from stream_getline_crlf [OF line(6)]
  have "stream_getline (request_text c meth path content h, False) []
      = (meth @ '' '' @ ?path @ '' HTTP/1.1'' @ [CHR 0x0D], (header_lines ?h @ crlf @ content, False))"
    by (simp only: request_text_lines append_assoc)
  moreover note request_line_text [OF line(1-5)]
  ultimately show ?thesis
    unfolding request_parse_def
    by (intro exI [of _ ?h]) (simp only: Let_def prod.case noexcept_def sum.case bool.case
        header_parse_lines [OF h] option.map, simp)
qed

theorem request_roundtrip_witness:
  "\<exists>h'. mset h' = mset ((''Host'', client_host \<lparr>client_host = ''localhost'', client_port = 80, client_timeout = 0\<rparr>)
        # [(''User-Agent'', ''sentry_cpp/0.1'')] @ content_length_field ''{}'' [(''User-Agent'', ''sentry_cpp/0.1'')]) \<and>
    request_parse (request_text \<lparr>client_host = ''localhost'', client_port = 80, client_timeout = 0\<rparr>
        ''POST'' ''/api/1/store/'' ''{}'' [(''User-Agent'', ''sentry_cpp/0.1'')], False)
      \<lparr>req_method = [], req_path = [], req_query_string = [], req_version = [], req_header = []\<rparr>
      = Some (Inr (True, \<lparr>req_method = [], req_path = [], req_query_string = [], req_version = [], req_header = []\<rparr>
          \<lparr>req_method := ''POST'', req_path := (if ''/api/1/store/'' = [] then ''/'' else ''/api/1/store/''),
           req_version := ''1.1'', req_header := h'\<rparr>, (''{}'', False)))"
  by (rule request_roundtrip) (simp_all add: target_ok_def field_ok_def)

end
