(* ===== verification/Http_Client.thy ===== *)
theory Http_Client
  imports Http_Message
begin

text \<open>
  The client of \<open>externals/http-server-3.0.0/client_http.hpp\<close>: its set of connections and the handlers
  through which a request passes (resolve and connect, write, read the header, read the content).  A
  connection is an entry of a heap, since sessions and the set share pointers to it.  A handler is a
  function of the completion asio gives it: the error code, the bytes that were appended to the buffer
  of the response and, for \<open>async_read_until\<close>, the position behind the delimiter.  The result is the
  next operation that was started.
\<close>

section \<open>State\<close>

datatype error_code =
    Success
  | Message_size
  | Protocol_error
  | Operation_aborted
  | Eof
  | Not_found
  | Asio_error nat

record connection =
  in_use :: bool
  attempt_reconnect :: bool
  socket_open :: bool
  timer :: "int option"

record client_base =
  http :: http_client
  timeout_connect :: int
  max_response_streambuf_size :: nat
  heap :: "nat \<Rightarrow> connection"
  next_connection :: nat
  connections :: "nat list"
  handler_runner :: int

record session =
  sess_connection :: nat
  request_streambuf :: string
  sess_message :: response_message
  sess_content :: istream

text \<open>What asio has been asked for; the last two: the callback was called, or a handler gave up.\<close>

datatype operation =
    Resolving
  | Connecting
  | Writing
  | Reading_header
  | Reading_body nat
  | Reading_to_end
  | Reading_chunk_size string
  | Reading_chunk string u64 nat
  | Called_back error_code
  | Given_up

record completion =
  c_ec :: error_code
  c_data :: string
  c_bytes :: nat

type_synonym io = "client_base \<times> session"

section \<open>Connections\<close>

definition set_connection :: "nat \<Rightarrow> (connection \<Rightarrow> connection) \<Rightarrow> client_base \<Rightarrow> client_base" where
  "set_connection p f cl = cl\<lparr>heap := (heap cl)(p := f (heap cl p))\<rparr>"

definition set_timeout :: "int \<Rightarrow> io \<Rightarrow> io" where
  "set_timeout seconds io =
     (case io of (cl, s) \<Rightarrow>
        let seconds = (if seconds = 0 then client_timeout (http cl) else seconds)
        in (set_connection (sess_connection s) (timer_update (\<lambda>_. if seconds = 0 then None else Some seconds)) cl, s))"

definition cancel_timeout :: "io \<Rightarrow> io" where
  "cancel_timeout io = (case io of (cl, s) \<Rightarrow> (set_connection (sess_connection s) (timer_update (\<lambda>_. None)) cl, s))"

definition create_connection :: "client_base \<Rightarrow> nat \<times> client_base" where
  "create_connection cl =
     (next_connection cl,
      cl\<lparr>heap := (heap cl)(next_connection cl :=
            \<lparr>in_use = False, attempt_reconnect = True, socket_open = False, timer = None\<rparr>),
         next_connection := next_connection cl + 1\<rparr>)"

definition get_connection :: "client_base \<Rightarrow> nat \<times> client_base" where
  "get_connection cl =
     (let (p, cl) =
            (case find (\<lambda>p. \<not> in_use (heap cl p)) (connections cl) of
               Some p \<Rightarrow> (p, cl)
             | None \<Rightarrow> let (p, cl) = create_connection cl in (p, cl\<lparr>connections := p # connections cl\<rparr>))
      in (p, set_connection p (\<lambda>c. c\<lparr>attempt_reconnect := True, in_use := True\<rparr>) cl))"

text \<open>The loop of the callback: a connection that failed is dropped, of the unused ones the first is kept.\<close>

fun prune :: "bool \<Rightarrow> nat \<Rightarrow> (nat \<Rightarrow> connection) \<Rightarrow> nat \<Rightarrow> nat list \<Rightarrow> nat list" where
  "prune failed p h unused [] = []"
| "prune failed p h unused (q # qs) =
     (if failed \<and> p = q then prune failed p h unused qs
      else if in_use (h q) then q # prune failed p h unused qs
      else if unused + 1 > 1 then prune failed p h (unused + 1) qs
      else q # prune failed p h (unused + 1) qs)"

definition session_callback :: "error_code \<Rightarrow> io \<Rightarrow> operation \<times> io" where
  "session_callback ec io =
     (case io of (cl, s) \<Rightarrow>
        let cl = set_connection (sess_connection s) (in_use_update (\<lambda>_. False)) cl
        in (Called_back ec,
            (cl\<lparr>connections := prune (ec \<noteq> Success) (sess_connection s) (heap cl) 0 (connections cl)\<rparr>, s)))"

definition client_stop :: "client_base \<Rightarrow> client_base" where
  "client_stop cl = cl\<lparr>connections := []\<rparr>"

text \<open>Every handler first cancels the timer and takes a lock of the \<open>handler_runner\<close>.\<close>

definition handled :: "(io \<Rightarrow> (operation \<times> io) res) \<Rightarrow> io \<Rightarrow> (operation \<times> io) res" where
  "handled f io =
     (let io = cancel_timeout io
      in if handler_runner (fst io) < 0 then Inr (Given_up, io) else f io)"

section \<open>Connecting and writing\<close>

definition write_request :: "io \<Rightarrow> operation \<times> io" where
  "write_request io = (Writing, set_timeout 0 io)"

definition connect :: "io \<Rightarrow> operation \<times> io" where
  "connect io =
     (case io of (cl, s) \<Rightarrow>
        if \<not> socket_open (heap cl (sess_connection s)) then (Resolving, set_timeout (timeout_connect cl) io)
        else write_request io)"

definition on_resolve :: "completion \<Rightarrow> io \<Rightarrow> (operation \<times> io) res" where
  "on_resolve c = handled (\<lambda>io.
     Inr (if c_ec c = Success then (Connecting, set_timeout (timeout_connect (fst io)) io)
          else session_callback (c_ec c) io))"

text \<open>\<open>async_connect\<close> opens the socket before it tries to connect it.\<close>

definition on_connect :: "completion \<Rightarrow> io \<Rightarrow> (operation \<times> io) res" where
  "on_connect c = handled (\<lambda>(cl, s).
     let cl = set_connection (sess_connection s) (socket_open_update (\<lambda>_. True)) cl
     in Inr (if c_ec c = Success then write_request (cl, s) else session_callback (c_ec c) (cl, s)))"

definition read_response :: "io \<Rightarrow> operation \<times> io" where
  "read_response io = (Reading_header, set_timeout 0 io)"

definition on_write :: "completion \<Rightarrow> io \<Rightarrow> (operation \<times> io) res" where
  "on_write c = handled (\<lambda>io.
     Inr (if c_ec c = Success then read_response io else session_callback (c_ec c) io))"

section \<open>Reading\<close>

definition streambuf_size :: "io \<Rightarrow> nat" where
  "streambuf_size io = length (fst (sess_content (snd io)))"

definition streambuf_full :: "io \<Rightarrow> bool" where
  "streambuf_full io \<longleftrightarrow> streambuf_size io = max_response_streambuf_size (fst io)"

definition append_streambuf :: "string \<Rightarrow> io \<Rightarrow> io" where
  "append_streambuf d io =
     (case io of (cl, s) \<Rightarrow> (cl, s\<lparr>sess_content := (fst (sess_content s) @ d, snd (sess_content s))\<rparr>))"

definition read_chunked_transfer_encoded :: "string \<Rightarrow> io \<Rightarrow> operation \<times> io" where
  "read_chunked_transfer_encoded chunks io = (Reading_chunk_size chunks, set_timeout 0 io)"

definition on_header_parsed :: "nat \<Rightarrow> io \<Rightarrow> (operation \<times> io) res" where
  "on_header_parsed num_additional_bytes io =
     (let h = response_header (sess_message (snd io))
      in case hdr_find ''Content-Length'' h of
           Some len \<Rightarrow>
             bind_res (stoul 10 len) (\<lambda>content_length.
             Inr (if num_additional_bytes < unat content_length
                  then (Reading_body (unat content_length - num_additional_bytes), set_timeout 0 io)
                  else session_callback Success io))
         | None \<Rightarrow>
             Inr (if hdr_find ''Transfer-Encoding'' h = Some ''chunked''
                  then read_chunked_transfer_encoded [] io
                  else if http_version (sess_message (snd io)) < ''1.1'' \<or> hdr_find ''Session'' h = Some ''close''
                  then (Reading_to_end, set_timeout 0 io)
                  else session_callback Success io))"

definition on_header_failed :: "error_code \<Rightarrow> io \<Rightarrow> (operation \<times> io) res" where
  "on_header_failed ec io =
     (case io of (cl, s) \<Rightarrow>
        if attempt_reconnect (heap cl (sess_connection s)) \<and> ec \<noteq> Operation_aborted
           \<and> sess_connection s \<in> set (connections cl)
        then let cl = cl\<lparr>connections := removeAll (sess_connection s) (connections cl)\<rparr>;
                 (p, cl) = create_connection cl;
                 cl = set_connection p (\<lambda>c. c\<lparr>attempt_reconnect := False, in_use := True\<rparr>) cl
             in Inr (connect (cl\<lparr>connections := p # connections cl\<rparr>, s\<lparr>sess_connection := p\<rparr>))
        else Inr (session_callback ec io))"

definition on_header :: "completion \<Rightarrow> io \<Rightarrow> (operation \<times> io) res option" where
  "on_header c io =
     (let io = append_streambuf (c_data c) io; io = cancel_timeout io
      in if handler_runner (fst io) < 0 then Some (Inr (Given_up, io))
         else if (c_ec c = Success \<or> c_ec c = Not_found) \<and> streambuf_full io
         then Some (Inr (session_callback Message_size io))
         else if c_ec c \<noteq> Success then Some (on_header_failed (c_ec c) io)
         else
           let (cl, s) = io;
               cl = set_connection (sess_connection s) (attempt_reconnect_update (\<lambda>_. True)) cl;
               num_additional_bytes = streambuf_size (cl, s) - c_bytes c
           in map_option (\<lambda>r. bind_res r (\<lambda>(ok, msg, content).
                let io = (cl, s\<lparr>sess_message := msg, sess_content := content\<rparr>)
                in if ok then on_header_parsed num_additional_bytes io
                   else Inr (session_callback Protocol_error io)))
              (response_parse (sess_content s) (sess_message s)))"

definition on_body :: "completion \<Rightarrow> io \<Rightarrow> (operation \<times> io) res" where
  "on_body c io = handled (\<lambda>io.
     Inr (if c_ec c = Success \<and> streambuf_full io then session_callback Message_size io
          else session_callback (c_ec c) io)) (append_streambuf (c_data c) io)"

definition on_end :: "completion \<Rightarrow> io \<Rightarrow> (operation \<times> io) res" where
  "on_end c io = handled (\<lambda>io.
     Inr (if c_ec c = Success
          then (if streambuf_full io then session_callback Message_size io else session_callback (c_ec c) io)
          else session_callback (if c_ec c = Eof then Success else c_ec c) io)) (append_streambuf (c_data c) io)"

section \<open>Chunks\<close>

text \<open>
  \<open>alloc\<close> is the largest array \<open>new char[length]\<close> can allocate; beyond it the allocation throws.
\<close>

definition read_chunked_transfer_encoded_chunk ::
    "nat \<Rightarrow> string \<Rightarrow> u64 \<Rightarrow> io \<Rightarrow> (operation \<times> io) res" where
  "read_chunked_transfer_encoded_chunk alloc chunks len io =
     (case io of (cl, s) \<Rightarrow>
        if 0 < len \<and> alloc < unat len then Inl (Bad_alloc ''new char[length]'')
        else
          let (buf, eof) = sess_content s;
              chunks = chunks @ take (unat len) buf
          in if 0 < len \<and> length chunks = max_response_streambuf_size cl
             then Inr (session_callback Message_size (cl, s\<lparr>sess_content := (drop (unat len) buf, eof)\<rparr>))
             else
               let io = (cl, s\<lparr>sess_content := (drop 2 (drop (unat len) buf), eof \<or> length buf < unat len + 2)\<rparr>)
               in Inr (if 0 < len then read_chunked_transfer_encoded chunks io
                       else session_callback Success (append_streambuf chunks io)))"

definition on_chunk_size :: "nat \<Rightarrow> string \<Rightarrow> completion \<Rightarrow> io \<Rightarrow> (operation \<times> io) res" where
  "on_chunk_size alloc chunks c io = handled (\<lambda>io.
     if (c_ec c = Success \<or> c_ec c = Not_found) \<and> streambuf_full io
     then Inr (session_callback Message_size io)
     else if c_ec c \<noteq> Success then Inr (session_callback (c_ec c) io)
     else
       let (cl, s) = io;
           (line, content) = stream_getline (sess_content s) [];
           io = (cl, s\<lparr>sess_content := content\<rparr>);
           bytes_transferred = of_nat (c_bytes c) - (of_nat (length line) + 1 :: u64)
       in if line = [] then Inl (Undefined_behaviour ''pop_back of an empty string'')
          else case stoul 16 (butlast line) of
                 Inl e \<Rightarrow> Inr (session_callback Protocol_error io)
               | Inr len \<Rightarrow>
                   let num_additional_bytes = of_nat (streambuf_size io) - bytes_transferred
                   in if 2 + len > num_additional_bytes
                      then Inr (Reading_chunk chunks len (unat (2 + len - num_additional_bytes)), set_timeout 0 io)
                      else read_chunked_transfer_encoded_chunk alloc chunks len io)
     (append_streambuf (c_data c) io)"

definition on_chunk :: "nat \<Rightarrow> string \<Rightarrow> u64 \<Rightarrow> completion \<Rightarrow> io \<Rightarrow> (operation \<times> io) res" where
  "on_chunk alloc chunks len c io = handled (\<lambda>io.
     if c_ec c = Success
     then (if streambuf_full io then Inr (session_callback Message_size io)
           else read_chunked_transfer_encoded_chunk alloc chunks len io)
     else Inr (session_callback (c_ec c) io)) (append_streambuf (c_data c) io)"

section \<open>A request\<close>

text \<open>The handler of a completed operation; \<open>None\<close> when parsing a header does not end.\<close>

definition complete :: "nat \<Rightarrow> operation \<Rightarrow> completion \<Rightarrow> io \<Rightarrow> (operation \<times> io) res option" where
  "complete alloc op c io =
     (case op of
        Resolving \<Rightarrow> Some (on_resolve c io)
      | Connecting \<Rightarrow> Some (on_connect c io)
      | Writing \<Rightarrow> Some (on_write c io)
      | Reading_header \<Rightarrow> on_header c io
      | Reading_body n \<Rightarrow> Some (on_body c io)
      | Reading_to_end \<Rightarrow> Some (on_end c io)
      | Reading_chunk_size chunks \<Rightarrow> Some (on_chunk_size alloc chunks c io)
      | Reading_chunk chunks len n \<Rightarrow> Some (on_chunk alloc chunks len c io)
      | Called_back ec \<Rightarrow> Some (Inr (op, io))
      | Given_up \<Rightarrow> Some (Inr (op, io)))"

text \<open>The asynchronous \<open>request\<close> up to \<open>connect\<close>.\<close>

definition request_start :: "string \<Rightarrow> string \<Rightarrow> string \<Rightarrow> header \<Rightarrow> client_base \<Rightarrow> operation \<times> io" where
  "request_start meth path content h cl =
     (let (p, cl) = get_connection cl
      in connect (cl, \<lparr>sess_connection = p, request_streambuf = request_text (http cl) meth path content h,
                       sess_message = \<lparr>http_version = [], status_code_line = [], response_header = []\<rparr>,
                       sess_content = ([], False)\<rparr>))"

section \<open>The network\<close>

text \<open>
  What asio promises about its operations, over a peer that sends finitely many bytes on each connection.
  Where these do not suffice, and where resolving, connecting or writing does not succeed, the operation
  completes with an error; but over a silent peer it never completes by itself.  \<open>async_read_until\<close> may
  read any number \<open>over\<close> of bytes behind the delimiter; the limit of the buffer is not reached.
\<close>

record peer =
  peer_resolve :: error_code
  peer_connect :: error_code
  peer_write :: error_code
  peer_close :: error_code
  peer_silent :: bool

definition closing :: "peer \<Rightarrow> error_code" where
  "closing p = (if peer_close p = Success then Eof else peer_close p)"

fun after_delim :: "string \<Rightarrow> string \<Rightarrow> nat option" where
  "after_delim d [] = (if d = [] then Some 0 else None)"
| "after_delim d (c # cs) =
     (if take (length d) (c # cs) = d then Some (length d) else map_option Suc (after_delim d cs))"

definition asio_read_until :: "string \<Rightarrow> nat \<Rightarrow> string \<Rightarrow> string \<Rightarrow> error_code \<Rightarrow> completion" where
  "asio_read_until d over buf rest ec =
     (case after_delim d (buf @ rest) of
        Some n \<Rightarrow> \<lparr>c_ec = Success,
                   c_data = (if n \<le> length buf then [] else take (n - length buf + over) rest), c_bytes = n\<rparr>
      | None \<Rightarrow> \<lparr>c_ec = ec, c_data = rest, c_bytes = 0\<rparr>)"

definition asio_read_exactly :: "nat \<Rightarrow> string \<Rightarrow> error_code \<Rightarrow> completion" where
  "asio_read_exactly n rest ec =
     (if n \<le> length rest then \<lparr>c_ec = Success, c_data = take n rest, c_bytes = n\<rparr>
      else \<lparr>c_ec = ec, c_data = rest, c_bytes = length rest\<rparr>)"

definition asio :: "peer \<Rightarrow> nat \<Rightarrow> operation \<Rightarrow> string \<Rightarrow> string \<Rightarrow> completion" where
  "asio p over op buf rest =
     (case op of
        Resolving \<Rightarrow> \<lparr>c_ec = peer_resolve p, c_data = [], c_bytes = 0\<rparr>
      | Connecting \<Rightarrow> \<lparr>c_ec = peer_connect p, c_data = [], c_bytes = 0\<rparr>
      | Writing \<Rightarrow> \<lparr>c_ec = peer_write p, c_data = [], c_bytes = 0\<rparr>
      | Reading_header \<Rightarrow> asio_read_until (crlf @ crlf) over buf rest (closing p)
      | Reading_body n \<Rightarrow> asio_read_exactly n rest (closing p)
      | Reading_to_end \<Rightarrow> \<lparr>c_ec = closing p, c_data = rest, c_bytes = length rest\<rparr>
      | Reading_chunk_size chunks \<Rightarrow> asio_read_until crlf over buf rest (closing p)
      | Reading_chunk chunks len n \<Rightarrow> asio_read_exactly n rest (closing p)
      | Called_back ec \<Rightarrow> \<lparr>c_ec = ec, c_data = [], c_bytes = 0\<rparr>
      | Given_up \<Rightarrow> \<lparr>c_ec = Success, c_data = [], c_bytes = 0\<rparr>)"

text \<open>
  The state of the network: what each connection still delivers, and the requests that were written
  to each connection, successfully or not.
\<close>

type_synonym net = "(nat \<Rightarrow> string) \<times> (nat \<times> string) list"

definition net_step :: "operation \<Rightarrow> completion \<Rightarrow> session \<Rightarrow> net \<Rightarrow> net" where
  "net_step op c s n =
     (case n of (rest, written) \<Rightarrow>
        (rest(sess_connection s := drop (length (c_data c)) (rest (sess_connection s))),
         if op = Writing then written @ [(sess_connection s, request_streambuf s)] else written))"

type_synonym io_state = "operation \<times> io \<times> net"

text \<open>
  An operation a silent peer leaves pending is cancelled by the timer of its connection, as \<open>set_timeout\<close>
  has asked for; without a timer nothing ends it (\<open>None\<close>).
\<close>

definition await :: "peer \<Rightarrow> int option \<Rightarrow> completion \<Rightarrow> completion option" where
  "await p pending_timer c =
     (if c_ec c = Success \<or> \<not> peer_silent p then Some c
      else map_option (\<lambda>seconds. c\<lparr>c_ec := Operation_aborted\<rparr>) pending_timer)"

definition io_step ::
    "nat \<Rightarrow> (nat \<Rightarrow> peer) \<Rightarrow> nat \<Rightarrow> io_state \<Rightarrow> io_state res option" where
  "io_step alloc peers over st =
     (case st of (op, io, n) \<Rightarrow>
        let p = sess_connection (snd io)
        in Option.bind (await (peers p) (timer (heap (fst io) p))
                          (asio (peers p) over op (fst (sess_content (snd io))) (fst n p)))
             (\<lambda>c. let n = net_step op c (snd io) n
                  in map_option (\<lambda>r. bind_res r (\<lambda>(op, io). Inr (op, io, n))) (complete alloc op c io)))"

fun finished :: "operation \<Rightarrow> bool" where
  "finished (Called_back ec) = True"
| "finished Given_up = True"
| "finished _ = False"

text \<open>\<open>io_service::run\<close>: operations complete and their handlers start others until none is left.\<close>

partial_function (option) io_run ::
    "nat \<Rightarrow> (nat \<Rightarrow> peer) \<Rightarrow> (nat \<Rightarrow> nat) \<Rightarrow> nat \<Rightarrow> io_state \<Rightarrow> io_state res option" where
  "io_run alloc peers over i st =
     (if finished (fst st) then Some (Inr st)
      else Option.bind (io_step alloc peers (over i) st)
             (\<lambda>r. case r of Inl e \<Rightarrow> Some (Inl e) | Inr st' \<Rightarrow> io_run alloc peers over (i + 1) st'))"

text \<open>
  The synchronous \<open>request\<close>: an error code becomes a \<open>system_error\<close>, and no response is a null
  pointer; exceptions of a handler leave \<open>io_service::run\<close>.  The response comes with what its content
  holds, and with the client and the network as they are afterwards.
\<close>

definition request_outcome :: "operation \<Rightarrow> session \<Rightarrow> (response_message \<times> string) option res" where
  "request_outcome op s =
     (case op of
        Called_back ec \<Rightarrow>
          if ec = Success then Inr (Some (sess_message s, fst (sess_content s)))
          else Inl (System_error ''request'')
      | _ \<Rightarrow> Inr None)"

definition http_request ::
    "nat \<Rightarrow> (nat \<Rightarrow> peer) \<Rightarrow> (nat \<Rightarrow> nat) \<Rightarrow> string \<Rightarrow> string \<Rightarrow> string \<Rightarrow> header \<Rightarrow> client_base \<Rightarrow> net
     \<Rightarrow> ((response_message \<times> string) option res \<times> client_base \<times> net) res option" where
  "http_request alloc peers over meth path content h cl n =
     (let (op, io) = request_start meth path content h cl
      in map_option (\<lambda>r. bind_res r (\<lambda>(op, (cl, s), n). Inr (request_outcome op s, cl, n)))
           (io_run alloc peers over 0 (op, io, n)))"

end
