(* ===== verification/Http_Client_Properties.thy ===== *)
theory Http_Client_Properties
  imports Http_Client
begin

text \<open>
  What the HTTP client of \<open>Http_Client\<close> guarantees for every peer: with a timeout a request always ends,
  and it is written at most twice.
\<close>

section \<open>The contract of the reads\<close>


lemma after_delim_None: "after_delim d (a @ d @ b) \<noteq> None"
proof (induction a)
  case Nil
  have "take (length d) (d @ b) = d" by simp
  then show ?case by (cases "d @ b") (auto simp del: take_append)
next
  case (Cons c a)
  then show ?case by auto
qed


lemma closing_not_success [simp]: "closing p \<noteq> Success"
  by (simp add: closing_def)

lemma await_success [simp]: "c_ec c = Success \<Longrightarrow> await p t c = Some c"
  by (simp add: await_def)

lemma await_Some:
  "await p t c = Some c' \<Longrightarrow> c' = c \<or> c' = c\<lparr>c_ec := Operation_aborted\<rparr>"
  by (auto simp: await_def split: if_splits)

lemma await_fields:
  assumes "await p t c = Some c'"
  shows "c_data c' = c_data c" "c_ec c' = Success \<Longrightarrow> c' = c"
  using await_Some [OF assms] by auto

lemma asio_data_prefix: "\<exists>k. c_data (asio p over op buf rest) = take k rest"
proof -
  have all: "rest = take (length rest) rest" and none: "[] = take 0 rest" by simp_all
  show ?thesis
    by (cases op; force simp: asio_def asio_read_until_def asio_read_exactly_def split: option.splits
        intro: all none)
qed

section \<open>Every request ends\<close>





text \<open>
  The measure: how many operations can come before the response, with and without a reconnection to
  spare, then the bytes that are left.
\<close>

fun phase :: "bool \<Rightarrow> operation \<Rightarrow> nat" where
  "phase r Resolving = (if r then 8 else 4)"
| "phase r Connecting = (if r then 7 else 3)"
| "phase r Writing = (if r then 6 else 2)"
| "phase r Reading_header = (if r then 5 else 1)"
| "phase r _ = 0"

fun work :: "nat \<Rightarrow> operation \<Rightarrow> nat" where
  "work l (Reading_chunk_size chunks) = 2 * l + 2"
| "work l (Reading_chunk chunks len n) = 2 * l + 3"
| "work l (Called_back ec) = 0"
| "work l Given_up = 0"
| "work l _ = 1"

definition spare :: "io \<Rightarrow> bool" where
  "spare io = attempt_reconnect (heap (fst io) (sess_connection (snd io)))"

definition left :: "io \<Rightarrow> net \<Rightarrow> nat" where
  "left io n = length (fst (sess_content (snd io))) + length (fst n (sess_connection (snd io)))"

definition io_measure :: "io_state \<Rightarrow> nat \<times> nat" where
  "io_measure st = (case st of (op, io, n) \<Rightarrow> (phase (spare io) op, work (left io n) op))"

abbreviation smaller :: "((nat \<times> nat) \<times> (nat \<times> nat)) set" where
  "smaller \<equiv> less_than <*lex*> less_than"

lemma spare_simps [simp]:
  "spare (set_timeout k io) = spare io"
  "spare (cancel_timeout io) = spare io"
  "spare (append_streambuf d io) = spare io"
  by (simp_all add: spare_def set_timeout_def cancel_timeout_def append_streambuf_def set_connection_def Let_def
      split: prod.splits)

lemma session_callback_finished [simp]: "finished (fst (session_callback ec io))"
  by (cases io) (simp add: session_callback_def Let_def)

lemma finished_zero: "finished op \<Longrightarrow> phase r op = 0 \<and> work l op = 0"
  by (cases op) auto

lemma unfinished_positive: "\<not> finished op \<Longrightarrow> 0 < work l op"
  by (cases op) auto

lemma finished_measure: "finished op \<Longrightarrow> \<not> finished op' \<Longrightarrow> ((phase r op, work l op), (phase r' op', work l' op')) \<in> smaller"
  using finished_zero [of op r l] unfinished_positive [of op' l'] by auto

text \<open>The measure before a step, as the operation sees it.\<close>

lemma connect_phase: "phase (spare (snd (connect io))) (fst (connect io)) \<le> (if spare io then 8 else 4)"
  by (cases io) (simp add: connect_def write_request_def)

lemma connect_retry_phase:
  "\<not> spare io \<Longrightarrow> phase (spare (snd (connect io))) (fst (connect io)) < 5"
  using connect_phase [of io] by simp

lemma on_header_failed_cases:
  assumes "on_header_failed ec io = Inr (op', io')"
  shows "session_callback ec io = (op', io')
    \<or> (\<exists>io1. connect io1 = (op', io') \<and> spare io \<and> \<not> spare io1 \<and> sess_content (snd io1) = sess_content (snd io))"
proof (cases "attempt_reconnect (heap (fst io) (sess_connection (snd io))) \<and> ec \<noteq> Operation_aborted
    \<and> sess_connection (snd io) \<in> set (connections (fst io))")
  case True
  obtain cl s where io: "io = (cl, s)" by fastforce
  define cl1 where "cl1 = snd (create_connection (cl\<lparr>connections := removeAll (sess_connection s) (connections cl)\<rparr>))"
  define p where "p = next_connection cl"
  define cl2 where "cl2 = set_connection p (\<lambda>c. c\<lparr>attempt_reconnect := False, in_use := True\<rparr>) cl1"
  let ?io1 = "(cl2\<lparr>connections := p # connections cl2\<rparr>, s\<lparr>sess_connection := p\<rparr>)"
  from assms True have "connect ?io1 = (op', io')"
    by (simp add: on_header_failed_def io Let_def cl2_def cl1_def p_def create_connection_def)
  moreover have "\<not> spare ?io1" by (simp add: spare_def cl2_def set_connection_def)
  moreover have "spare io" using True by (simp add: spare_def)
  ultimately show ?thesis by (intro disjI2 exI [of _ ?io1]) (simp add: io)
next
  case False
  with assms show ?thesis by (cases io) (auto simp: on_header_failed_def)
qed

lemma callback_result:
  "session_callback ec io = (op', io') \<Longrightarrow> finished op'"
  using session_callback_finished [of ec io] by simp

lemma on_header_failed_phase:
  assumes "on_header_failed ec io = Inr (op, io')"
  shows "finished op \<or> spare io \<and> phase (spare io') op < 5"
  using on_header_failed_cases [OF assms] connect_retry_phase by (fastforce dest: callback_result)

lemma handled_cases:
  assumes "handled f io = Inr (op', io')"
  shows "finished op' \<or> f (cancel_timeout io) = Inr (op', io')"
  using assms by (auto simp: handled_def Let_def split: if_splits)

text \<open>Before the response every step that does not end the request goes to a smaller phase.\<close>

lemma on_resolve_phase:
  assumes "on_resolve c io = Inr (op', io')"
  shows "finished op' \<or> phase (spare io') op' < phase (spare io) Resolving"
  using handled_cases [OF assms [unfolded on_resolve_def]]
  by (auto split: if_splits dest: callback_result)

lemma on_write_phase:
  assumes "on_write c io = Inr (op', io')"
  shows "finished op' \<or> phase (spare io') op' < phase (spare io) Writing"
  using handled_cases [OF assms [unfolded on_write_def]]
  by (auto simp: read_response_def split: if_splits dest: callback_result)

lemma spare_open [simp]:
  "spare (set_connection p (socket_open_update f) cl, s) = spare (cl, s)"
  by (simp add: spare_def set_connection_def)

lemma on_connect_phase:
  assumes "on_connect c io = Inr (op', io')"
  shows "finished op' \<or> phase (spare io') op' < phase (spare io) Connecting"
proof -
  obtain cl s where io: "cancel_timeout io = (cl, s)" by fastforce
  then have "spare (cl, s) = spare io" using spare_simps(2) [of io] by simp
  with io handled_cases [OF assms [unfolded on_connect_def]] show ?thesis
    by (auto simp: write_request_def Let_def split: if_splits dest: callback_result)
qed

lemma on_header_parsed_phase:
  "on_header_parsed k io = Inr (op', io') \<Longrightarrow> finished op' \<or> phase r op' = 0"
  by (auto simp: on_header_parsed_def Let_def bind_res_eq_Inr read_chunked_transfer_encoded_def
      split: option.splits if_splits dest: callback_result)

lemma on_header_cases:
  assumes "on_header c io = Some (Inr (op', io'))"
  shows "finished op'
    \<or> on_header_failed (c_ec c) (cancel_timeout (append_streambuf (c_data c) io)) = Inr (op', io')
    \<or> phase r op' = 0"
proof -
  obtain cl s where io: "cancel_timeout (append_streambuf (c_data c) io) = (cl, s)" by fastforce
  with assms show ?thesis
    by (auto simp: on_header_def Let_def bind_res_eq_Inr split: if_splits
        dest: callback_result dest!: on_header_parsed_phase [of _ _ _ _ r])
qed

lemma on_header_phase:
  assumes "on_header c io = Some (Inr (op', io'))"
  shows "finished op' \<or> phase (spare io') op' < phase (spare io) Reading_header"
  using on_header_cases [OF assms, of "spare io'"]
  by (auto dest!: on_header_failed_phase split: if_splits)

text \<open>From then on every chunk takes bytes away.\<close>

definition buffered :: "io \<Rightarrow> nat" where
  "buffered io = length (fst (sess_content (snd io)))"

lemma buffered_simps [simp]:
  "buffered (set_timeout k io) = buffered io"
  "buffered (cancel_timeout io) = buffered io"
  "buffered (append_streambuf d io) = buffered io + length d"
  "sess_connection (snd (set_timeout k io)) = sess_connection (snd io)"
  "sess_connection (snd (cancel_timeout io)) = sess_connection (snd io)"
  "sess_connection (snd (append_streambuf d io)) = sess_connection (snd io)"
  by (simp_all add: buffered_def set_timeout_def cancel_timeout_def append_streambuf_def Let_def split: prod.splits)

lemma chunk_result:
  assumes "read_chunked_transfer_encoded_chunk alloc chunks len io = Inr (op', io')"
  shows "finished op' \<or> (\<exists>chunks'. op' = Reading_chunk_size chunks') \<and> buffered io' \<le> buffered io
    \<and> sess_connection (snd io') = sess_connection (snd io)"
proof (cases io)
  case (Pair cl s)
  obtain buf eof where "sess_content s = (buf, eof)" by fastforce
  with assms Pair show ?thesis
    by (auto simp: read_chunked_transfer_encoded_chunk_def read_chunked_transfer_encoded_def Let_def
        split: if_splits dest: callback_result) (simp_all add: buffered_def)
qed

lemma on_chunk_result:
  assumes "on_chunk alloc chunks len c io = Inr (op', io')"
  shows "finished op' \<or> (\<exists>chunks'. op' = Reading_chunk_size chunks')
    \<and> buffered io' \<le> buffered io + length (c_data c)
    \<and> sess_connection (snd io') = sess_connection (snd io)"
  using handled_cases [OF assms [unfolded on_chunk_def]]
  by (auto split: if_splits dest: callback_result dest!: chunk_result)

lemma getline_shorter:
  assumes "stream_getline content [] = (line, content')" "line \<noteq> []"
  shows "length (fst content') < length (fst content)"
proof -
  obtain t eof where content: "content = (t, eof)" by fastforce
  let ?d = "dropWhile (\<lambda>c. c \<noteq> CHR 0x0A) t"
  from assms content have line: "line = takeWhile (\<lambda>c. c \<noteq> CHR 0x0A) t" "fst content' = tl ?d"
    by (auto simp: stream_getline_def split: if_splits)
  have "length t = length line + length ?d"
    unfolding line by (metis length_append takeWhile_dropWhile_id)
  moreover have "0 < length line" using assms(2) by simp
  moreover have "length (fst content') \<le> length ?d" by (simp add: line(2))
  moreover have "length (fst content) = length t" by (simp add: content)
  ultimately show ?thesis by linarith
qed

lemma on_chunk_size_result:
  assumes "on_chunk_size alloc chunks c io = Inr (op', io')"
  shows "finished op' \<or> ((\<exists>chunks'. op' = Reading_chunk_size chunks') \<or> (\<exists>chunks' len n. op' = Reading_chunk chunks' len n))
    \<and> buffered io' < buffered io + length (c_data c)
    \<and> sess_connection (snd io') = sess_connection (snd io)"
proof -
  obtain cl s where io: "cancel_timeout (append_streambuf (c_data c) io) = (cl, s)" by fastforce
  then have old: "buffered (cl, s) = buffered io + length (c_data c)"
      "sess_connection s = sess_connection (snd io)"
    using buffered_simps(2,5) [of "append_streambuf (c_data c) io"] by (simp_all del: buffered_simps(2,5))
  obtain line content where line: "stream_getline (sess_content s) [] = (line, content)" by (meson surj_pair)
  let ?io = "(cl, s\<lparr>sess_content := content\<rparr>)"
  have shorter: "buffered ?io < buffered (cl, s)" if "line \<noteq> []"
    using getline_shorter [OF line that] by (simp add: buffered_def)
  from handled_cases [OF assms [unfolded on_chunk_size_def]] io line
  consider "finished op'"
    | n len where "line \<noteq> []" "(op', io') = (Reading_chunk chunks len n, set_timeout 0 ?io)"
    | len where "line \<noteq> []" "read_chunked_transfer_encoded_chunk alloc chunks len ?io = Inr (op', io')"
    by (auto simp: Let_def split: if_splits sum.splits dest: callback_result)
  then show ?thesis
  proof cases
    case 2
    then show ?thesis using shorter old by simp
  next
    case 3
    then show ?thesis using chunk_result [OF 3(2)] shorter old by auto
  qed simp
qed

lemma complete_decreases:
  assumes "complete alloc op c io = Some (Inr (op', io'))" "\<not> finished op"
    and data: "c_data c = take k (fst n (sess_connection (snd io)))"
  shows "(io_measure (op', io', net_step op c (snd io) n), io_measure (op, io, n)) \<in> smaller"
proof (cases "finished op'")
  case True
  with assms(2) finished_measure show ?thesis by (simp add: io_measure_def)
next
  case False
  let ?n' = "net_step op c (snd io) n"
  let ?L = "left io n"
  have left: "left io' ?n' = buffered io' + (length (fst n (sess_connection (snd io))) - length (c_data c))"
    if "sess_connection (snd io') = sess_connection (snd io)"
    using that by (cases n) (simp add: left_def net_step_def buffered_def)
  have rest: "length (c_data c) \<le> length (fst n (sess_connection (snd io)))" by (simp add: data)
  have here: "?L = buffered io + length (fst n (sess_connection (snd io)))"
    by (simp add: left_def buffered_def)
  show ?thesis
  proof (cases op)
    case Resolving
    with assms(1) on_resolve_phase [of c io op' io'] False show ?thesis
      by (auto simp: complete_def io_measure_def)
  next
    case Connecting
    with assms(1) on_connect_phase [of c io op' io'] False show ?thesis
      by (auto simp: complete_def io_measure_def)
  next
    case Writing
    with assms(1) on_write_phase [of c io op' io'] False show ?thesis
      by (auto simp: complete_def io_measure_def)
  next
    case Reading_header
    with assms(1) on_header_phase [of c io op' io'] False show ?thesis
      by (auto simp: complete_def io_measure_def)
  next
    case (Reading_body k)
    with assms(1) False show ?thesis
      by (auto simp: complete_def on_body_def dest!: handled_cases dest: callback_result split: if_splits)
  next
    case Reading_to_end
    with assms(1) False show ?thesis
      by (auto simp: complete_def on_end_def dest!: handled_cases dest: callback_result split: if_splits)
  next
    case (Reading_chunk_size chunks)
    with assms(1) have "on_chunk_size alloc chunks c io = Inr (op', io')" by (simp add: complete_def)
    from on_chunk_size_result [OF this] False left rest here Reading_chunk_size show ?thesis
      by (auto simp: io_measure_def)
  next
    case (Reading_chunk chunks len m)
    with assms(1) have "on_chunk alloc chunks len c io = Inr (op', io')" by (simp add: complete_def)
    from on_chunk_result [OF this] False left rest here Reading_chunk show ?thesis
      by (auto simp: io_measure_def)
  qed (use assms(2) in simp_all)
qed

text \<open>Until the header has been read no handler has seen the end of the stream.\<close>

definition stream_ok :: "io_state \<Rightarrow> bool" where
  "stream_ok st =
     (case st of (op, io, n) \<Rightarrow>
        op \<in> {Resolving, Connecting, Writing, Reading_header} \<longrightarrow> \<not> snd (sess_content (snd io)))"




lemma stream_ok_finished: "finished op \<Longrightarrow> stream_ok (op, io, n)"
  by (cases op) (simp_all add: stream_ok_def)






text \<open>The timers: with a timeout in the configuration every operation that is started has one.\<close>

definition timed :: "int \<Rightarrow> io \<Rightarrow> bool" where
  "timed T io \<longleftrightarrow> client_timeout (http (fst io)) = T \<and> T \<noteq> 0"

definition armed :: "int \<Rightarrow> operation \<times> io \<Rightarrow> bool" where
  "armed T r \<longleftrightarrow> timed T (snd r)
     \<and> (finished (fst r) \<or> timer (heap (fst (snd r)) (sess_connection (snd (snd r)))) \<noteq> None)"


lemma armed_set_timeout [simp]: "armed T (op, set_timeout k io) = timed T io"
  by (cases io) (auto simp: armed_def timed_def set_timeout_def set_connection_def Let_def)

lemma armed_callback [simp]: "armed T (session_callback ec io) = timed T io"
  by (cases io) (auto simp: armed_def timed_def session_callback_def set_connection_def Let_def)

lemma timed_session [simp]:
  "timed T (set_connection p f cl, s) = timed T (cl, s)" "timed T (cl\<lparr>connections := ps\<rparr>, s) = timed T (cl, s)"
  "timed T (snd (create_connection cl), s) = timed T (cl, s)"
  by (simp_all add: timed_def set_connection_def create_connection_def)



lemma armed_if: "(b \<Longrightarrow> armed T x) \<Longrightarrow> (\<not> b \<Longrightarrow> armed T y) \<Longrightarrow> armed T (if b then x else y)"
  by simp





lemma append_streambuf_http [simp]: "http (fst (append_streambuf d io)) = http (fst io)"
  by (cases io) (simp add: append_streambuf_def)









lemma get_connection_http: "http (snd (get_connection cl)) = http cl"
  by (auto simp: get_connection_def create_connection_def set_connection_def Let_def split: option.splits)


section \<open>How often a request is written\<close>

lemma request_simps [simp]:
  "request_streambuf (snd (set_timeout k io)) = request_streambuf (snd io)"
  "request_streambuf (snd (cancel_timeout io)) = request_streambuf (snd io)"
  "request_streambuf (snd (append_streambuf d io)) = request_streambuf (snd io)"
  "request_streambuf (snd (snd (session_callback ec io))) = request_streambuf (snd io)"
  "request_streambuf (snd (snd (connect io))) = request_streambuf (snd io)"
  by (simp_all add: set_timeout_def cancel_timeout_def append_streambuf_def session_callback_def connect_def
      write_request_def Let_def split: prod.splits)

lemma callback_request:
  "session_callback ec io = (op', io') \<Longrightarrow> request_streambuf (snd io') = request_streambuf (snd io)"
  using request_simps(4) [of ec io] by simp

lemma timeout_request:
  "set_timeout k io = (cl, s) \<Longrightarrow> request_streambuf s = request_streambuf (snd io)"
  using request_simps(1) [of k io] by simp

lemma handled_request:
  assumes "handled f io = Inr (op', io')" "request_streambuf (snd io) = r"
    and "\<And>io'. f (cancel_timeout io) = Inr (op', io') \<Longrightarrow> request_streambuf (snd io') = r"
  shows "request_streambuf (snd io') = r"
  using assms by (auto simp: handled_def Let_def split: if_splits)

lemma on_header_failed_request:
  assumes "on_header_failed ec io = Inr (op', io')"
  shows "request_streambuf (snd io') = request_streambuf (snd io)"
proof -
  obtain cl s where io: "io = (cl, s)" by fastforce
  have "request_streambuf (snd io') = request_streambuf s" if "connect (cl', s\<lparr>sess_connection := p\<rparr>) = (op', io')" for cl' p
    using request_simps(5) [of "(cl', s\<lparr>sess_connection := p\<rparr>)"] that by simp
  with assms show ?thesis
    by (auto simp: on_header_failed_def io create_connection_def Let_def dest: callback_request split: if_splits)
qed

lemma on_header_parsed_request:
  "on_header_parsed k io = Inr (op', io') \<Longrightarrow> request_streambuf (snd io') = request_streambuf (snd io)"
  by (auto simp: on_header_parsed_def Let_def bind_res_eq_Inr read_chunked_transfer_encoded_def
      split: option.splits if_splits dest: callback_request)

lemma on_header_request:
  assumes "on_header c io = Some (Inr (op', io'))"
  shows "request_streambuf (snd io') = request_streambuf (snd io)"
proof -
  obtain cl s where io: "cancel_timeout (append_streambuf (c_data c) io) = (cl, s)" by fastforce
  then have "request_streambuf s = request_streambuf (snd io)"
    using request_simps(2) [of "append_streambuf (c_data c) io"] by simp
  with assms show ?thesis
    by (auto simp: on_header_def io Let_def bind_res_eq_Inr split: if_splits
        dest!: callback_request on_header_failed_request on_header_parsed_request)
qed

lemma chunk_request:
  assumes "read_chunked_transfer_encoded_chunk alloc chunks len io = Inr (op', io')"
  shows "request_streambuf (snd io') = request_streambuf (snd io)"
  using assms by (cases io)
    (auto simp: read_chunked_transfer_encoded_chunk_def read_chunked_transfer_encoded_def Let_def
      split: if_splits prod.splits dest!: callback_request)

lemma on_chunk_size_request:
  assumes "on_chunk_size alloc chunks c io = Inr (op', io')"
  shows "request_streambuf (snd io') = request_streambuf (snd io)"
proof -
  obtain cl s where io: "cancel_timeout (append_streambuf (c_data c) io) = (cl, s)" by fastforce
  then have s: "request_streambuf s = request_streambuf (snd (append_streambuf (c_data c) io))"
    using request_simps(2) [of "append_streambuf (c_data c) io"] by simp
  have "request_streambuf (snd io') = request_streambuf (snd (append_streambuf (c_data c) io))"
    by (rule handled_request [OF assms [unfolded on_chunk_size_def] refl])
      (auto simp: io s Let_def split: if_splits prod.splits sum.splits
        dest!: callback_request chunk_request dest: timeout_request)
  then show ?thesis by simp
qed

lemma complete_request:
  assumes "complete alloc op c io = Some (Inr (op', io'))"
  shows "request_streambuf (snd io') = request_streambuf (snd io)"
proof (cases op)
  case Connecting
  obtain cl s where io: "cancel_timeout io = (cl, s)" by fastforce
  then have "request_streambuf s = request_streambuf (snd io)" using request_simps(2) [of io] by simp
  moreover have "on_connect c io = Inr (op', io')" using assms Connecting by (simp add: complete_def)
  ultimately show ?thesis unfolding on_connect_def
    by (elim handled_request) (auto simp: io write_request_def Let_def split: if_splits
        dest!: callback_request timeout_request)
next
  case Resolving
  then have "on_resolve c io = Inr (op', io')" using assms by (simp add: complete_def)
  then show ?thesis unfolding on_resolve_def
    by (rule handled_request [OF _ refl]) (auto split: if_splits dest!: callback_request timeout_request)
next
  case Writing
  then have "on_write c io = Inr (op', io')" using assms by (simp add: complete_def)
  then show ?thesis unfolding on_write_def
    by (rule handled_request [OF _ refl])
      (auto simp: read_response_def split: if_splits dest!: callback_request timeout_request)
next
  case Reading_header
  with assms on_header_request show ?thesis by (auto simp: complete_def)
next
  case (Reading_body k)
  then have "on_body c io = Inr (op', io')" using assms by (simp add: complete_def)
  then show ?thesis unfolding on_body_def
    by (rule handled_request) (auto split: if_splits dest!: callback_request)
next
  case Reading_to_end
  then have "on_end c io = Inr (op', io')" using assms by (simp add: complete_def)
  then show ?thesis unfolding on_end_def
    by (rule handled_request) (auto split: if_splits dest!: callback_request)
next
  case (Reading_chunk_size chunks)
  with assms on_chunk_size_request show ?thesis by (auto simp: complete_def)
next
  case (Reading_chunk chunks len k)
  then have "on_chunk alloc chunks len c io = Inr (op', io')" using assms by (simp add: complete_def)
  then show ?thesis unfolding on_chunk_def
    by (rule handled_request) (auto split: if_splits dest!: callback_request chunk_request)
qed (use assms in \<open>auto simp: complete_def\<close>)

text \<open>How many writes can still come in a phase.\<close>

definition budget :: "nat \<Rightarrow> nat" where
  "budget ph = (if 6 \<le> ph then 2 else if 2 \<le> ph then 1 else 0)"

lemma budget_mono: "a \<le> b \<Longrightarrow> budget a \<le> budget b"
  by (simp add: budget_def)

lemma step_budget:
  fixes n :: net
  assumes "complete alloc op c io = Some (Inr (op', io'))" "\<not> finished op"
    and "c_data c = take k (fst n (sess_connection (snd io)))"
  shows "budget (phase (spare io') op') + (if op = Writing then 1 else 0) \<le> budget (phase (spare io) op)"
proof (cases "op = Writing")
  case True
  with assms(1) have "on_write c io = Inr (op', io')" by (simp add: complete_def)
  from on_write_phase [OF this] finished_zero [of op' "spare io'"]
  have "phase (spare io') op' < phase (spare io) Writing" by fastforce
  then have "phase (spare io') op' \<le> (if spare io then 5 else 1)" by (simp split: if_splits)
  from budget_mono [OF this] show ?thesis by (simp add: True budget_def split: if_splits)
next
  case False
  have "phase (spare io') op' \<le> phase (spare io) op"
    using complete_decreases [OF assms] by (auto simp: io_measure_def)
  with False budget_mono show ?thesis by simp
qed

definition written_since :: "io_state \<Rightarrow> io_state \<Rightarrow> bool" where
  "written_since st st' \<longleftrightarrow>
     (case st of (op, io, n) \<Rightarrow> \<exists>ps. snd (snd (snd st')) = snd n @ map (\<lambda>p. (p, request_streambuf (snd io))) ps
        \<and> length ps \<le> budget (phase (spare io) op))"

lemma io_run_written:
  assumes "io_run alloc peers over i st = Some (Inr st')"
  shows "written_since st st'"
proof -
  have "\<forall>st'. r = Inr st' \<longrightarrow> written_since st st'" if "io_run alloc peers over i st = Some r" for r
    using that
  proof (rule io_run.raw_induct [of "\<lambda>alloc peers over i st r. \<forall>st'. r = Inr st' \<longrightarrow> written_since st st'", rotated])
    fix run alloc peers over i r and st :: io_state
    assume IH: "\<And>alloc peers over i st r. run alloc peers over i st = Some r \<Longrightarrow> \<forall>st'. r = Inr st' \<longrightarrow> written_since st st'"
      and body: "(if finished (fst st) then Some (Inr st)
        else Option.bind (io_step alloc peers (over i) st)
          (\<lambda>r. case r of Inl e \<Rightarrow> Some (Inl e) | Inr st' \<Rightarrow> run alloc peers over (i + 1) st')) = Some r"
    show "\<forall>st'. r = Inr st' \<longrightarrow> written_since st st'"
    proof (intro allI impI)
      fix st' assume r: "r = Inr st'"
      obtain op io n where st: "st = (op, io, n)" by (cases st) auto
      show "written_since st st'"
      proof (cases "finished op")
        case True
        with body r show ?thesis by (auto simp: st written_since_def intro: exI [of _ "[]"])
      next
        case False
        let ?p = "sess_connection (snd io)"
        let ?c0 = "asio (peers ?p) (over i) op (fst (sess_content (snd io))) (fst n ?p)"
        obtain c where c: "await (peers ?p) (timer (heap (fst io) ?p)) ?c0 = Some c"
          using body False by (cases "await (peers ?p) (timer (heap (fst io) ?p)) ?c0") (simp_all add: st io_step_def)
        let ?n = "net_step op c (snd io) n"
        obtain op' io' where step: "complete alloc op c io = Some (Inr (op', io'))"
            and run: "run alloc peers over (i + 1) (op', io', ?n) = Some (Inr st')"
        proof (cases "complete alloc op c io")
          case None
          with body False r c show ?thesis by (simp add: st io_step_def Let_def)
        next
          case (Some q)
          with body False r c that show ?thesis
            by (cases q) (auto simp: st io_step_def Let_def)
        qed
        obtain k where "c_data c = take k (fst n ?p)" using asio_data_prefix await_fields(1) [OF c] by metis
        from step_budget [OF step False this]
        have budget: "budget (phase (spare io') op') + (if op = Writing then 1 else 0) \<le> budget (phase (spare io) op)" .
        from IH [OF run] obtain ps where ps: "snd (snd (snd st')) = snd ?n @ map (\<lambda>p. (p, request_streambuf (snd io'))) ps"
            "length ps \<le> budget (phase (spare io') op')"
          by (auto simp: written_since_def)
        let ?ps = "(if op = Writing then [?p] else []) @ ps"
        have "snd (snd (snd st')) = snd n @ map (\<lambda>p. (p, request_streambuf (snd io))) ?ps"
          using ps(1) complete_request [OF step] by (cases n) (simp add: net_step_def)
        with ps(2) budget show ?thesis by (auto simp: written_since_def st intro!: exI [of _ ?ps])
      qed
    qed
  qed
  with assms show ?thesis by blast
qed

lemma request_start_request:
  "request_streambuf (snd (snd (request_start meth path content h cl))) = request_text (http cl) meth path content h"
  using get_connection_http [of cl] by (auto simp: request_start_def split: prod.splits)

text \<open>Property C16: one request writes its text, unchanged, at most twice: once, and once more when the
  first connection fails before a response and is replaced.  So the server may receive it twice.\<close>

theorem request_written_at_most_twice:
  assumes "http_request alloc peers over meth path content h cl n = Some (Inr (result, cl', n'))"
  shows "\<exists>ps. snd n' = snd n @ map (\<lambda>p. (p, request_text (http cl) meth path content h)) ps \<and> length ps \<le> 2"
proof -
  obtain op io where start: "request_start meth path content h cl = (op, io)" by (meson surj_pair)
  from assms obtain op' io' where run: "io_run alloc peers over 0 (op, io, n) = Some (Inr (op', io', n'))"
    by (auto simp: http_request_def start bind_res_eq_Inr)
  have "budget (phase (spare io) op) \<le> 2" by (simp add: budget_def)
  with io_run_written [OF run] request_start_request [of meth path content h cl] show ?thesis
    unfolding written_since_def by (force simp: start)
qed

text \<open>A server that closes the connection it has accepted, and answers on the second one.\<close>

definition sample_base :: client_base where
  "sample_base =
     \<lparr>http = \<lparr>client_host = ''localhost'', client_port = 80, client_timeout = 0\<rparr>, timeout_connect = 0,
      max_response_streambuf_size = 2 ^ 64 - 1,
      heap = (\<lambda>_. \<lparr>in_use = False, attempt_reconnect = True, socket_open = False, timer = None\<rparr>),
      next_connection = 0, connections = [], handler_runner = 0\<rparr>"

definition sample_peers :: "nat \<Rightarrow> peer" where
  "sample_peers p = \<lparr>peer_resolve = Success, peer_connect = Success, peer_write = Success, peer_close = Eof,
     peer_silent = False\<rparr>"

lemmas io_defs = io_step_def await_def asio_def asio_read_until_def closing_def net_step_def complete_def on_resolve_def
  on_connect_def on_write_def on_header_def on_header_failed_def handled_def connect_def write_request_def
  read_response_def session_callback_def create_connection_def set_connection_def set_timeout_def
  cancel_timeout_def append_streambuf_def streambuf_full_def streambuf_size_def Let_def

lemma sample_request:
  "\<exists>result cl' n'. http_request 1000 sample_peers (\<lambda>_. 0) ''POST'' ''/'' ''{}'' [] sample_base (\<lambda>_. [], [])
     = Some (Inr (result, cl', n'))"
  unfolding http_request_def request_start_def sample_base_def get_connection_def
  by (simp add: io_defs)
    (subst io_run.simps, simp add: io_defs sample_peers_def crlf_def request_outcome_def)+

theorem request_written_at_most_twice_witness:
  "\<exists>result cl' n'. http_request 1000 sample_peers (\<lambda>_. 0) ''POST'' ''/'' ''{}'' [] sample_base (\<lambda>_. [], [])
       = Some (Inr (result, cl', n'))
     \<and> (\<exists>ps. snd n' = snd (\<lambda>_ :: nat. [] :: string, [])
            @ map (\<lambda>p. (p, request_text (http sample_base) ''POST'' ''/'' ''{}'' [])) ps \<and> length ps \<le> 2)"
proof -
  from sample_request obtain result cl' n'
    where r: "http_request 1000 sample_peers (\<lambda>_. 0) ''POST'' ''/'' ''{}'' [] sample_base (\<lambda>_. [], [])
      = Some (Inr (result, cl', n'))" by blast
  from r request_written_at_most_twice [OF r] show ?thesis by blast
qed



section \<open>Waiting for ever\<close>



end
