(* ===== verification/Http_Client_Content.thy ===== *)
theory Http_Client_Content
  imports Http_Client_Properties
begin

text \<open>
  Which content a request returns: the bytes behind the header when their number is given by
  \<open>Content-Length\<close>, the decoded chunks when they come with \<open>Transfer-Encoding: chunked\<close>, for every way
  to cut the response into reads.
\<close>

section \<open>Where the header ends\<close>

lemma length_crlf: "length crlf = 2"
  by (simp add: crlf_def)

lemma length_crlf_crlf: "length (crlf @ crlf) = 4"
  by (simp add: crlf_def)

lemma after_delim_line:
  assumes "CHR 0x0A \<notin> set line"
  shows "after_delim (crlf @ crlf) (line @ crlf @ rest) =
    (if take 2 rest = crlf then Some (length line + 4)
     else map_option (\<lambda>m. length line + 2 + m) (after_delim (crlf @ crlf) rest))"
  using assms
proof (induction line)
  case Nil
  show ?case
  proof (cases "take 2 rest = crlf")
    case True
    then show ?thesis by (simp add: crlf_def numeral_eq_Suc)
  next
    case False
    then have "take 4 (crlf @ rest) \<noteq> crlf @ crlf" by (simp add: crlf_def numeral_eq_Suc)
    with False show ?thesis
      by (cases "after_delim (crlf @ crlf) rest") (simp_all add: crlf_def numeral_eq_Suc)
  qed
next
  case (Cons c line)
  have "take 4 ((c # line) @ crlf @ rest) \<noteq> crlf @ crlf"
    using Cons.prems by (cases line) (auto simp: crlf_def numeral_eq_Suc)
  then have "after_delim (crlf @ crlf) ((c # line) @ crlf @ rest)
      = map_option Suc (after_delim (crlf @ crlf) (line @ crlf @ rest))"
    by (simp only: append_Cons after_delim.simps length_crlf_crlf if_False)
  with Cons show ?case by (auto simp: option.map_comp comp_def)
qed

lemma header_lines_no_blank:
  "list_all field_ok h \<Longrightarrow> take 2 (header_lines h @ crlf @ body) = crlf \<longleftrightarrow> h = []"
proof (cases h)
  case (Cons f fs)
  assume "list_all field_ok h"
  with Cons obtain k v where f: "f = (k, v)" "CHR 0x0A \<notin> set k" by (cases f) (auto simp: field_ok_def)
  then show ?thesis
    by (cases k rule: list.exhaust; cases "tl k")
      (auto simp: Cons header_lines_def crlf_def numeral_eq_Suc)
qed (simp add: header_lines_def crlf_def numeral_eq_Suc)

lemma after_delim_header:
  "list_all field_ok h \<Longrightarrow> CHR 0x0A \<notin> set line \<Longrightarrow>
     after_delim (crlf @ crlf) (line @ crlf @ header_lines h @ crlf @ body)
       = Some (length (line @ crlf @ header_lines h @ crlf))"
proof (induction h arbitrary: line)
  case Nil
  then show ?case by (simp add: after_delim_line header_lines_def) (simp add: crlf_def numeral_eq_Suc)
next
  case (Cons f h)
  obtain k v where f: "f = (k, v)" by fastforce
  have shape: "header_lines (f # h) = (k @ '': '' @ v) @ crlf @ header_lines h" by (simp add: header_lines_def f)
  have lf: "CHR 0x0A \<notin> set (k @ '': '' @ v)" using Cons.prems(1) by (simp add: f field_ok_def)
  have "take 2 (header_lines (f # h) @ crlf @ body) \<noteq> crlf"
    using header_lines_no_blank [OF Cons.prems(1)] by simp
  then show ?case
    using Cons.IH [OF _ lf] Cons.prems
    by (simp only: after_delim_line [OF Cons.prems(2)] shape append_assoc)
      (simp add: crlf_def)
qed

section \<open>Steps of a session\<close>

text \<open>What the handlers look at, apart from the connection.\<close>

definition view :: "io \<Rightarrow> nat \<times> string \<times> response_message \<times> istream \<times> int \<times> nat" where
  "view io = (case io of (cl, s) \<Rightarrow>
     (sess_connection s, request_streambuf s, sess_message s, sess_content s, handler_runner cl,
      max_response_streambuf_size cl))"

lemma view_simps [simp]:
  "view (set_connection p f cl, s) = view (cl, s)"
  "view (set_timeout k io) = view io"
  "view (cancel_timeout io) = view io"
  by (simp_all add: view_def set_connection_def set_timeout_def cancel_timeout_def Let_def split: prod.splits)

text \<open>
  A session on connection \<open>p\<close> whose handlers run, with the default limit of the buffer, that holds
  \<open>buf\<close> while \<open>rest\<close> is still to come.
\<close>

definition session_at :: "nat \<Rightarrow> response_message \<Rightarrow> string \<Rightarrow> string \<Rightarrow> io \<Rightarrow> net \<Rightarrow> bool" where
  "session_at p msg buf rest io n \<longleftrightarrow>
     sess_connection (snd io) = p \<and> sess_message (snd io) = msg \<and> sess_content (snd io) = (buf, False)
     \<and> 0 \<le> handler_runner (fst io) \<and> max_response_streambuf_size (fst io) = 2 ^ 64 - 1
     \<and> fst n p = rest \<and> length buf + length rest < 2 ^ 62"

definition returns_content :: "response_message \<Rightarrow> string \<Rightarrow> io_state res option \<Rightarrow> bool" where
  "returns_content msg content r \<longleftrightarrow>
     (\<exists>cl s n. r = Some (Inr (Called_back Success, (cl, s), n))
        \<and> sess_message s = msg \<and> fst (sess_content s) = content)"

lemma session_at_view:
  "session_at p msg buf rest io n \<Longrightarrow> view io' = view io \<Longrightarrow> session_at p msg buf rest io' n"
  by (auto simp: session_at_def view_def split: prod.splits)

lemma io_run_step:
  assumes "complete alloc op (asio (peers (sess_connection (snd io))) (over i) op (fst (sess_content (snd io)))
      (fst n (sess_connection (snd io)))) io = Some (Inr (op', io'))" "\<not> finished op"
    and "c_ec (asio (peers (sess_connection (snd io))) (over i) op (fst (sess_content (snd io)))
      (fst n (sess_connection (snd io)))) = Success"
  shows "io_run alloc peers over i (op, io, n) = io_run alloc peers over (i + 1) (op', io',
      net_step op (asio (peers (sess_connection (snd io))) (over i) op (fst (sess_content (snd io)))
        (fst n (sess_connection (snd io)))) (snd io) n)"
  using assms by (subst io_run.simps) (simp add: io_step_def Let_def)

lemma io_run_throws:
  assumes "complete alloc op (asio (peers (sess_connection (snd io))) (over i) op (fst (sess_content (snd io)))
      (fst n (sess_connection (snd io)))) io = Some (Inl e)" "\<not> finished op"
    and "c_ec (asio (peers (sess_connection (snd io))) (over i) op (fst (sess_content (snd io)))
      (fst n (sess_connection (snd io)))) = Success"
  shows "io_run alloc peers over i (op, io, n) = Some (Inl e)"
  using assms by (subst io_run.simps) (simp add: io_step_def Let_def)

lemma io_run_finished: "finished op \<Longrightarrow> io_run alloc peers over i (op, io, n) = Some (Inr (op, io, n))"
  by (subst io_run.simps) simp

lemma callback_returns:
  assumes "sess_message (snd io) = msg" "fst (sess_content (snd io)) = content"
    and "session_callback Success io = (op', io')"
  shows "returns_content msg content (io_run alloc peers over i (op', io', n))"
  using assms by (cases io)
    (auto simp: session_callback_def Let_def returns_content_def io_run_finished)

text \<open>A step that delivers some bytes of what is still to come.\<close>

lemma session_at_append:
  assumes "session_at p msg buf rest io n" "c_data c = take k rest"
  shows "session_at p msg (buf @ take k rest) (drop k rest) (append_streambuf (c_data c) io) (net_step op c (snd io) n)"
  using assms by (cases io; cases n; cases "k \<le> length rest")
    (auto simp: session_at_def append_streambuf_def net_step_def min_def)

lemma session_at_not_full: "session_at p msg buf rest io n \<Longrightarrow> \<not> streambuf_full io"
  by (simp add: session_at_def streambuf_full_def streambuf_size_def)

lemma handled_session:
  "session_at p msg buf rest io n \<Longrightarrow> handled f io = f (cancel_timeout io)"
  by (cases io) (simp add: handled_def Let_def session_at_def cancel_timeout_def set_connection_def)

lemma session_at_cancel: "session_at p msg buf rest io n \<Longrightarrow> session_at p msg buf rest (cancel_timeout io) n"
  by (erule session_at_view) simp

lemma session_at_timeout: "session_at p msg buf rest io n \<Longrightarrow> session_at p msg buf rest (set_timeout k io) n"
  by (erule session_at_view) simp

section \<open>The header of the response\<close>

lemma asio_read_until_found:
  assumes "after_delim d (buf @ rest) = Some k" "k = length front" "buf @ rest = front @ back"
  shows "\<exists>j e1. asio_read_until d over buf rest ec = \<lparr>c_ec = Success, c_data = take j rest, c_bytes = k\<rparr>
    \<and> buf @ take j rest = front @ e1 \<and> back = e1 @ drop j rest"
proof -
  define j where "j = (if k \<le> length buf then 0 else k - length buf + over)"
  have c: "asio_read_until d over buf rest ec = \<lparr>c_ec = Success, c_data = take j rest, c_bytes = k\<rparr>"
    using assms(1) by (simp add: asio_read_until_def j_def)
  have k: "k \<le> length (buf @ take j rest)"
    using arg_cong [OF assms(3), of length] assms(2) by (auto simp: j_def)
  have whole: "(buf @ take j rest) @ drop j rest = front @ back" using assms(3) by simp
  then have "take k (buf @ take j rest) = front"
    using k assms(2) by (metis append_eq_conv_conj take_append diff_is_0_eq' take0 append_Nil2)
  then have "buf @ take j rest = front @ drop k (buf @ take j rest)" by (metis append_take_drop_id)
  moreover from this whole have "back = drop k (buf @ take j rest) @ drop j rest"
    by (metis append_assoc same_append_eq)
  ultimately show ?thesis using c by blast
qed

lemma header_step:
  assumes st: "session_at p msg buf rest io n"
    and response: "buf @ rest = response_text version code h body"
    and ok: "status_ok version code" "list_all field_ok h"
  shows "\<exists>io' n' e1 e2. body = e1 @ e2
    \<and> session_at p \<lparr>http_version = version, status_code_line = code, response_header = h\<rparr> e1 e2 io' n'
    \<and> (\<forall>op'' io''. on_header_parsed (length e1) io' = Inr (op'', io'') \<longrightarrow>
         io_run alloc peers over i (Reading_header, io, n) = io_run alloc peers over (i + 1) (op'', io'', n'))
    \<and> (\<forall>e. on_header_parsed (length e1) io' = Inl e \<longrightarrow>
         io_run alloc peers over i (Reading_header, io, n) = Some (Inl e))"
proof -
  let ?front = "''HTTP/'' @ version @ '' '' @ code @ crlf @ header_lines h @ crlf"
  let ?msg = "\<lparr>http_version = version, status_code_line = code, response_header = h\<rparr>"
  have lf: "CHR 0x0A \<notin> set (''HTTP/'' @ version @ '' '' @ code)" using ok by (simp add: status_ok_def)
  have "after_delim (crlf @ crlf) (buf @ rest) = Some (length ?front)"
    using after_delim_header [OF ok(2) lf, of body] by (simp add: response response_text_def)
  from asio_read_until_found [OF this refl, of body "over i" "closing (peers p)"]
  obtain j e1 where c: "asio_read_until (crlf @ crlf) (over i) buf rest (closing (peers p))
        = \<lparr>c_ec = Success, c_data = take j rest, c_bytes = length ?front\<rparr>"
      and buf: "buf @ take j rest = ?front @ e1" and body: "body = e1 @ drop j rest"
    by (auto simp: response response_text_def)
  let ?c = "\<lparr>c_ec = Success, c_data = take j rest, c_bytes = length ?front\<rparr>"
  let ?n = "net_step Reading_header ?c (snd io) n"
  have conn: "sess_connection (snd io) = p" "fst (sess_content (snd io)) = buf" "fst n p = rest"
    using st by (simp_all add: session_at_def)
  obtain cl s where io1: "cancel_timeout (append_streambuf (take j rest) io) = (cl, s)" by fastforce
  have st1: "session_at p msg (?front @ e1) (drop j rest) (cl, s) ?n"
    using session_at_cancel [OF session_at_append [OF st, of ?c j Reading_header]] by (simp add: io1 buf)
  let ?cl = "set_connection (sess_connection s) (attempt_reconnect_update (\<lambda>_. True)) cl"
  let ?io = "(?cl, s\<lparr>sess_message := ?msg, sess_content := (e1, False)\<rparr>)"
  have s: "sess_content s = (response_text version code h e1, False)"
    using st1 by (simp add: session_at_def response_text_def)
  have size: "streambuf_size (?cl, s) - length ?front = length e1"
    by (simp add: streambuf_size_def s response_text_def)
  have "on_header ?c io = Some (on_header_parsed (length e1) ?io)"
    using session_at_not_full [OF st1] st1 size response_parse_text [OF ok, of e1 "sess_message s"]
    by (simp add: on_header_def io1 s session_at_def Let_def)
  then have "\<forall>op'' io''. on_header_parsed (length e1) ?io = Inr (op'', io'') \<longrightarrow>
         io_run alloc peers over i (Reading_header, io, n) = io_run alloc peers over (i + 1) (op'', io'', ?n)"
    and "\<forall>e. on_header_parsed (length e1) ?io = Inl e \<longrightarrow>
         io_run alloc peers over i (Reading_header, io, n) = Some (Inl e)"
    using io_run_step [of alloc Reading_header peers io over i n] io_run_throws [of alloc Reading_header peers io over i n]
    by (simp_all add: conn asio_def c complete_def)
  moreover have "session_at p ?msg e1 (drop j rest) ?io ?n"
    using st1 by (auto simp: session_at_def set_connection_def)
  ultimately show ?thesis using body by blast
qed

section \<open>A body of known length\<close>

lemma session_at_conn:
  assumes "session_at p msg buf rest io n"
  shows "sess_connection (snd io) = p" "fst (sess_content (snd io)) = buf" "fst n p = rest" "sess_message (snd io) = msg"
  using assms by (simp_all add: session_at_def)

lemma body_returns:
  assumes st: "session_at p msg buf rest io n"
  shows "returns_content msg (buf @ rest) (io_run alloc peers over i (Reading_body (length rest), io, n))"
proof -
  let ?c = "\<lparr>c_ec = Success, c_data = take (length rest) rest, c_bytes = length rest\<rparr>"
  let ?n = "net_step (Reading_body (length rest)) ?c (snd io) n"
  let ?io = "cancel_timeout (append_streambuf (c_data ?c) io)"
  have st1: "session_at p msg (buf @ rest) [] (append_streambuf (c_data ?c) io) ?n"
    using session_at_append [OF st, of ?c "length rest"] by simp
  obtain op' io' where cb: "session_callback Success ?io = (op', io')" by (meson surj_pair)
  have "on_body ?c io = Inr (op', io')"
    using handled_session [OF st1] session_at_not_full [OF session_at_cancel [OF st1]] cb
    by (simp add: on_body_def)
  then have "io_run alloc peers over i (Reading_body (length rest), io, n)
      = io_run alloc peers over (i + 1) (op', io', ?n)"
    using io_run_step [of alloc "Reading_body (length rest)" peers io over i n]
    by (simp add: session_at_conn [OF st] asio_def asio_read_exactly_def complete_def)
  then show ?thesis
    using callback_returns [OF _ _ cb] session_at_conn [OF session_at_cancel [OF st1]] by simp
qed

text \<open>With \<open>Content-Length\<close> the rest of the body is read, however much of it came with the header.\<close>

lemma content_length_returns:
  assumes st: "session_at p msg buf rest io n"
    and response: "buf @ rest = response_text version code h body"
    and ok: "status_ok version code" "list_all field_ok h"
    and len: "hdr_find ''Content-Length'' h = Some (show_nat (length body))"
  shows "returns_content \<lparr>http_version = version, status_code_line = code, response_header = h\<rparr> body
    (io_run alloc peers over i (Reading_header, io, n))"
proof -
  let ?msg = "\<lparr>http_version = version, status_code_line = code, response_header = h\<rparr>"
  obtain io' n' e1 e2 where body: "body = e1 @ e2" and st': "session_at p ?msg e1 e2 io' n'"
    and run: "\<And>op'' io''. on_header_parsed (length e1) io' = Inr (op'', io'') \<Longrightarrow>
         io_run alloc peers over i (Reading_header, io, n) = io_run alloc peers over (i + 1) (op'', io'', n')"
    using header_step [OF st response ok, of alloc peers over i] by (elim exE conjE) (rule that, auto)
  have small: "length body < 2 ^ 64" using st' by (simp add: session_at_def body)
  then have number: "stoul 10 (show_nat (length body)) = Inr (of_nat (length body))"
    using stoul_show_nat [of "[]" "length body"] by simp
  have parsed: "on_header_parsed (length e1) io'
      = Inr (if e2 \<noteq> [] then (Reading_body (length e2), set_timeout 0 io') else session_callback Success io')"
  proof -
    have "length body - length e1 = length e2" "length e1 < length body \<longleftrightarrow> e2 \<noteq> []" by (simp_all add: body)
    moreover have "response_header (sess_message (snd io')) = h" by (simp add: session_at_conn(4) [OF st'])
    ultimately show ?thesis
      unfolding on_header_parsed_def Let_def by (simp only: len number option.case bind_res_Inr unat_of_nat_size [OF small])
  qed
  show ?thesis
  proof (cases "e2 = []")
    case True
    obtain op'' io'' where cb: "session_callback Success io' = (op'', io'')" by (meson surj_pair)
    with parsed True run [of op'' io''] show ?thesis
      using callback_returns [OF _ _ cb] session_at_conn [OF st'] body by simp
  next
    case False
    with parsed run [of "Reading_body (length e2)" "set_timeout 0 io'"] show ?thesis
      using body_returns [OF session_at_timeout [OF st']] body by simp
  qed
qed

section \<open>A body in chunks\<close>

definition chunk_text :: "string \<Rightarrow> string" where
  "chunk_text c = show_hex (length c) @ crlf @ c @ crlf"

definition chunked_text :: "string list \<Rightarrow> string" where
  "chunked_text cs = concat (map chunk_text cs) @ chunk_text []"

lemma stoul_show_hex:
  assumes "n < 2 ^ 64"
  shows "stoul 16 (show_hex n) = Inr (of_nat n)"
proof -
  have "stoul_prefix 16 (show_hex n) = (16, show_hex n)"
  proof (cases "n = 0")
    case True
    then show ?thesis by (simp add: show_base_small stoul_prefix_def)
  next
    case False
    then obtain d where d: "d < 16" "hd (show_hex n) = digit_char d" "0 < d"
      using show_base_hd [of 16 n] by auto
    then have "hd (show_hex n) \<noteq> CHR ''0''" using digit_char_inj [of d 0] by auto
    then show ?thesis by (simp add: stoul_prefix_def)
  qed
  with assms stoul_show_base [of 16 "[]" n 16] show ?thesis by simp
qed

lemma show_hex_no_control: "CHR 0x0A \<notin> set (show_hex n)" "CHR 0x0D \<notin> set (show_hex n)"
proof -
  have "CHR 0x0A \<noteq> digit_char d" "CHR 0x0D \<noteq> digit_char d" if "d < 16" for d
    using digit_char_neq [of d "CHR 0x0A"] digit_char_neq [of d "CHR 0x0D"] that
    by (simp_all add: digit_value_def)
  then have "CHR 0x0A \<notin> set (show_hex n) \<and> CHR 0x0D \<notin> set (show_hex n)"
  proof (induction "16 :: nat" n rule: show_base.induct)
    case (1 n)
    then show ?case by (cases "n < 16") (simp_all add: show_base_small show_base_step)
  qed
  then show "CHR 0x0A \<notin> set (show_hex n)" "CHR 0x0D \<notin> set (show_hex n)" by simp_all
qed

lemma after_delim_crlf:
  "CHR 0x0D \<notin> set line \<Longrightarrow> after_delim crlf (line @ crlf @ rest) = Some (length (line @ crlf))"
  by (induction line) (auto simp: crlf_def numeral_eq_Suc)

lemma chunk_done:
  assumes st: "session_at p msg (c @ crlf @ b) r io n"
    and small: "length c \<le> alloc" "length acc + length c < 2 ^ 62"
  shows "\<exists>io1. session_at p msg b r io1 n \<and>
    read_chunked_transfer_encoded_chunk alloc acc (of_nat (length c)) io
      = Inr (if c \<noteq> [] then read_chunked_transfer_encoded (acc @ c) io1
             else session_callback Success (append_streambuf acc io1))"
proof -
  obtain cl s where io: "io = (cl, s)" by fastforce
  have len: "unat (of_nat (length c) :: u64) = length c"
    using small(2) by (intro unat_of_nat_size) simp
  then have pos: "(0 :: u64) < of_nat (length c) \<longleftrightarrow> c \<noteq> []"
    by (metis length_greater_0_conv unat_gt_0 word_neq_0_conv)
  let ?io1 = "(cl, s\<lparr>sess_content := (b, False)\<rparr>)"
  have "session_at p msg b r ?io1 n" using st by (auto simp: session_at_def io)
  moreover have "sess_content s = (c @ crlf @ b, False)" "max_response_streambuf_size cl = 2 ^ 64 - 1"
    using st by (simp_all add: session_at_def io)
  then have "read_chunked_transfer_encoded_chunk alloc acc (of_nat (length c)) io
      = Inr (if c \<noteq> [] then read_chunked_transfer_encoded (acc @ c) ?io1
             else session_callback Success (append_streambuf acc ?io1))"
    using small len pos by (simp add: read_chunked_transfer_encoded_chunk_def io Let_def crlf_def)
  ultimately show ?thesis by blast
qed

definition after_chunk :: "string \<Rightarrow> string \<Rightarrow> io \<Rightarrow> operation \<times> io" where
  "after_chunk acc c io =
     (if c \<noteq> [] then read_chunked_transfer_encoded (acc @ c) io
      else session_callback Success (append_streambuf acc io))"

text \<open>The chunk has come whole, or the rest of it is read first.\<close>

lemma chunk_rest:
  assumes st: "session_at p msg buf rest io n"
    and bytes: "buf @ rest = c @ crlf @ rem" "length buf < length c + 2"
    and small: "length c \<le> alloc" "length acc + length c < 2 ^ 62"
  shows "\<exists>io1 n1. session_at p msg [] rem io1 n1 \<and>
    io_run alloc peers over i (Reading_chunk acc (of_nat (length c)) (length c + 2 - length buf), io, n)
      = io_run alloc peers over (i + 1) (fst (after_chunk acc c io1), snd (after_chunk acc c io1), n1)"
proof -
  let ?m = "length c + 2 - length buf"
  let ?op = "Reading_chunk acc (of_nat (length c)) ?m"
  let ?c = "\<lparr>c_ec = Success, c_data = take ?m rest, c_bytes = ?m\<rparr>"
  let ?n = "net_step ?op ?c (snd io) n"
  have len: "length buf + length rest = length c + 2 + length rem"
    using arg_cong [OF bytes(1), of length] by (simp add: crlf_def)
  have "length buf + ?m = length (c @ crlf)" using bytes(2) by (simp add: crlf_def)
  then have "take (length buf + ?m) (buf @ rest) = c @ crlf" "drop (length buf + ?m) (buf @ rest) = rem"
    using bytes(1) by simp_all
  then have buf: "buf @ take ?m rest = c @ crlf" and rem: "drop ?m rest = rem" by simp_all
  have st1: "session_at p msg (c @ crlf @ []) rem (append_streambuf (c_data ?c) io) ?n"
    using session_at_append [OF st, of ?c ?m ?op] buf rem by simp
  note st2 = session_at_cancel [OF st1]
  obtain io1 where io1: "session_at p msg [] rem io1 ?n"
      and chunk: "read_chunked_transfer_encoded_chunk alloc acc (of_nat (length c))
          (cancel_timeout (append_streambuf (c_data ?c) io)) = Inr (after_chunk acc c io1)"
    using chunk_done [OF st2 small] unfolding after_chunk_def by blast
  have "on_chunk alloc acc (of_nat (length c)) ?c io = Inr (after_chunk acc c io1)"
    using handled_session [OF st1] session_at_not_full [OF st2] chunk by (simp add: on_chunk_def)
  moreover have "?m \<le> length rest" using len by simp
  ultimately have "io_run alloc peers over i (?op, io, n)
      = io_run alloc peers over (i + 1) (fst (after_chunk acc c io1), snd (after_chunk acc c io1), ?n)"
    using io_run_step [of alloc ?op peers io over i n]
    by (simp add: session_at_conn [OF st] asio_def asio_read_exactly_def complete_def)
  with io1 show ?thesis by blast
qed

lemma chunk_size_line:
  assumes st: "session_at p msg (show_hex (length c) @ crlf @ e1) rest (cl, s) n"
    and small: "length c < 2 ^ 62"
  shows "\<exists>line content. stream_getline (sess_content s) [] = (line, content) \<and> line \<noteq> []
    \<and> stoul 16 (butlast line) = Inr (of_nat (length c)) \<and> length line = length (show_hex (length c)) + 1
    \<and> session_at p msg e1 rest (cl, s\<lparr>sess_content := content\<rparr>) n"
proof -
  have "stream_getline (show_hex (length c) @ crlf @ e1, False) [] = (show_hex (length c) @ [CHR 0x0D], (e1, False))"
    by (rule stream_getline_crlf) (rule show_hex_no_control)
  moreover have "sess_content s = (show_hex (length c) @ crlf @ e1, False)"
    using st by (simp add: session_at_def)
  moreover have "session_at p msg e1 rest (cl, s\<lparr>sess_content := (e1, False)\<rparr>) n"
    using st by (auto simp: session_at_def)
  ultimately show ?thesis
    using stoul_show_hex [of "length c"] small by (simp add: butlast_append)
qed

lemma chunk_step:
  assumes st: "session_at p msg buf rest io n"
    and bytes: "buf @ rest = chunk_text c @ rem"
    and small: "length c \<le> alloc" "length acc + length c < 2 ^ 62"
  shows "\<exists>i' io1 n1 b r. session_at p msg b r io1 n1 \<and> b @ r = rem \<and>
    io_run alloc peers over i (Reading_chunk_size acc, io, n)
      = io_run alloc peers over i' (fst (after_chunk acc c io1), snd (after_chunk acc c io1), n1)"
proof -
  let ?front = "show_hex (length c) @ crlf"
  have "after_delim crlf (buf @ rest) = Some (length ?front)"
    using after_delim_crlf [OF show_hex_no_control(2), of "length c" "c @ crlf @ rem"]
    by (simp add: bytes chunk_text_def)
  from asio_read_until_found [OF this refl, of "c @ crlf @ rem" "over i" "closing (peers p)"]
  obtain j e1 where c: "asio_read_until crlf (over i) buf rest (closing (peers p))
        = \<lparr>c_ec = Success, c_data = take j rest, c_bytes = length ?front\<rparr>"
      and buf: "buf @ take j rest = ?front @ e1" and e1: "c @ crlf @ rem = e1 @ drop j rest"
    by (auto simp: bytes chunk_text_def)
  let ?op = "Reading_chunk_size acc"
  let ?c = "\<lparr>c_ec = Success, c_data = take j rest, c_bytes = length ?front\<rparr>"
  let ?n = "net_step ?op ?c (snd io) n"
  let ?len = "of_nat (length c) :: u64"
  have st1: "session_at p msg (show_hex (length c) @ crlf @ e1) (drop j rest) (append_streambuf (c_data ?c) io) ?n"
    using session_at_append [OF st, of ?c j ?op] buf by simp
  note st2 = session_at_cancel [OF st1]
  obtain cl s where io2: "cancel_timeout (append_streambuf (take j rest) io) = (cl, s)" by fastforce
  have st2': "session_at p msg (show_hex (length c) @ crlf @ e1) (drop j rest) (cl, s) ?n"
    using st2 by (simp add: io2)
  have "length c < 2 ^ 62" using small by simp
  from chunk_size_line [OF st2' this] obtain line content
    where line: "stream_getline (sess_content s) [] = (line, content)" "line \<noteq> []"
        "stoul 16 (butlast line) = Inr ?len" "length line = length (show_hex (length c)) + 1"
      and st3: "session_at p msg e1 (drop j rest) (cl, s\<lparr>sess_content := content\<rparr>) ?n"
    by blast
  let ?io3 = "(cl, s\<lparr>sess_content := content\<rparr>)"
  have size: "streambuf_size ?io3 = length e1" using st3 by (simp add: session_at_def streambuf_size_def)
  have bound: "length e1 < 2 ^ 62" using st3 by (simp add: session_at_def)
  have sum: "unat (2 + ?len) = length c + 2"
    using unat_of_nat_size [of "length c + 2"] small by (simp add: add.commute)
  have e1_len: "unat (of_nat (length e1) :: u64) = length e1" using bound by (intro unat_of_nat_size) simp
  have less: "of_nat (length e1) < 2 + ?len \<longleftrightarrow> length e1 < length c + 2"
    by (simp add: word_less_nat_alt sum e1_len)
  have diff: "unat (2 + ?len - of_nat (length e1)) = length c + 2 - length e1" if "length e1 < length c + 2"
    using that unat_sub [of "of_nat (length e1)" "2 + ?len"] by (simp add: word_le_nat_alt sum e1_len)
  have step: "on_chunk_size alloc acc ?c io =
      (if length e1 < length c + 2
       then Inr (Reading_chunk acc ?len (length c + 2 - length e1), set_timeout 0 ?io3)
       else read_chunked_transfer_encoded_chunk alloc acc ?len ?io3)"
    using handled_session [OF st1] session_at_not_full [OF st2] diff
    by (simp add: on_chunk_size_def io2 line size less Let_def length_crlf)
  show ?thesis
  proof (cases "length e1 < length c + 2")
    case True
    have "io_run alloc peers over i (?op, io, n)
        = io_run alloc peers over (i + 1) (Reading_chunk acc ?len (length c + 2 - length e1), set_timeout 0 ?io3, ?n)"
      using io_run_step [of alloc ?op peers io over i n] step True
      by (simp add: session_at_conn [OF st] asio_def c complete_def)
    with chunk_rest [OF session_at_timeout [OF st3] e1 [symmetric] True small, where peers = peers and over = over and i = "i + 1"]
    show ?thesis by (metis append_Nil)
  next
    case False
    then obtain b where b: "e1 = c @ crlf @ b" "b @ drop j rest = rem"
    proof -
      have "take (length e1) (c @ crlf @ rem) = e1" using e1 by simp
      moreover obtain k where "length e1 = length c + 2 + k"
        using False le_Suc_ex [of "length c + 2" "length e1"] by auto
      ultimately have "e1 = c @ crlf @ take k rem"
        by (simp add: crlf_def numeral_eq_Suc)
      with e1 that show ?thesis by (metis append_assoc same_append_eq)
    qed
    obtain io4 where io4: "session_at p msg b (drop j rest) io4 ?n"
        "read_chunked_transfer_encoded_chunk alloc acc ?len ?io3 = Inr (after_chunk acc c io4)"
      using chunk_done [OF st3 [unfolded b(1)] small] unfolding after_chunk_def by blast
    have "io_run alloc peers over i (?op, io, n)
        = io_run alloc peers over (i + 1) (fst (after_chunk acc c io4), snd (after_chunk acc c io4), ?n)"
      using io_run_step [of alloc ?op peers io over i n] step False io4(2)
      by (simp add: session_at_conn [OF st] asio_def c complete_def)
    with io4(1) b(2) show ?thesis by blast
  qed
qed

lemma chunks_return:
  "\<lbrakk>session_at p msg buf rest io n; buf @ rest = chunked_text cs; \<forall>c \<in> set cs. c \<noteq> [] \<and> length c \<le> alloc;
    length acc + length (concat cs) < 2 ^ 62\<rbrakk>
   \<Longrightarrow> returns_content msg (acc @ concat cs) (io_run alloc peers over i (Reading_chunk_size acc, io, n))"
proof (induction cs arbitrary: buf rest io n acc i)
  case Nil
  from chunk_step [OF Nil(1), of "[]" "[]" alloc acc peers over i] Nil(2,4)
  obtain i' io1 n1 where io1: "session_at p msg [] [] io1 n1"
    and run: "io_run alloc peers over i (Reading_chunk_size acc, io, n)
      = io_run alloc peers over i' (fst (after_chunk acc [] io1), snd (after_chunk acc [] io1), n1)"
    by (auto simp: chunked_text_def)
  let ?io = "append_streambuf acc io1"
  have content: "sess_message (snd ?io) = msg" "fst (sess_content (snd ?io)) = acc"
    using io1 by (cases io1; auto simp: session_at_def append_streambuf_def)+
  obtain op' io' where cb: "session_callback Success ?io = (op', io')" by (meson surj_pair)
  then show ?case
    using callback_returns [OF content cb] by (simp add: run after_chunk_def)
next
  case (Cons c cs)
  have shape: "buf @ rest = chunk_text c @ chunked_text cs" using Cons.prems(2) by (simp add: chunked_text_def)
  from chunk_step [OF Cons.prems(1) shape, of alloc acc peers over i] Cons.prems(3,4)
  obtain i' io1 n1 b r where io1: "session_at p msg b r io1 n1" "b @ r = chunked_text cs"
    and run: "io_run alloc peers over i (Reading_chunk_size acc, io, n)
      = io_run alloc peers over i' (fst (after_chunk acc c io1), snd (after_chunk acc c io1), n1)"
    by auto
  have "c \<noteq> []" using Cons.prems(3) by simp
  then have "after_chunk acc c io1 = (Reading_chunk_size (acc @ c), set_timeout 0 io1)"
    by (simp add: after_chunk_def read_chunked_transfer_encoded_def)
  moreover have "returns_content msg ((acc @ c) @ concat cs)
      (io_run alloc peers over i' (Reading_chunk_size (acc @ c), set_timeout 0 io1, n1))"
    using Cons.prems(3,4) by (intro Cons.IH [OF session_at_timeout [OF io1(1)] io1(2)]) auto
  ultimately show ?case by (simp add: run)
qed

lemma chunked_returns:
  assumes st: "session_at p msg buf rest io n"
    and response: "buf @ rest = response_text version code h (chunked_text cs)"
    and ok: "status_ok version code" "list_all field_ok h"
    and chunked: "hdr_find ''Content-Length'' h = None" "hdr_find ''Transfer-Encoding'' h = Some ''chunked''"
    and cs: "\<forall>c \<in> set cs. c \<noteq> [] \<and> length c \<le> alloc"
  shows "returns_content \<lparr>http_version = version, status_code_line = code, response_header = h\<rparr> (concat cs)
    (io_run alloc peers over i (Reading_header, io, n))"
proof -
  let ?msg = "\<lparr>http_version = version, status_code_line = code, response_header = h\<rparr>"
  obtain io' n' e1 e2 where body: "chunked_text cs = e1 @ e2" and st': "session_at p ?msg e1 e2 io' n'"
    and run: "\<And>op'' io''. on_header_parsed (length e1) io' = Inr (op'', io'') \<Longrightarrow>
         io_run alloc peers over i (Reading_header, io, n) = io_run alloc peers over (i + 1) (op'', io'', n')"
    using header_step [OF st response ok, of alloc peers over i] by (elim exE conjE) (rule that, auto)
  have "length (concat cs) \<le> length (chunked_text cs)"
    unfolding chunked_text_def by (induction cs) (simp_all add: chunk_text_def)
  moreover have "length (chunked_text cs) < 2 ^ 62" using st' by (simp add: session_at_def body)
  ultimately have small: "length [] + length (concat cs) < (2 ^ 62 :: nat)" by simp
  have "on_header_parsed (length e1) io' = Inr (Reading_chunk_size [], set_timeout 0 io')"
    using session_at_conn(4) [OF st'] chunked
    by (simp add: on_header_parsed_def read_chunked_transfer_encoded_def)
  from run [OF this] chunks_return [OF session_at_timeout [OF st'] body [symmetric] cs small]
  show ?thesis by simp
qed

section \<open>A whole request\<close>

text \<open>A client without connections whose next connection is accepted, with the default limits.\<close>

definition reachable_peer :: "(nat \<Rightarrow> peer) \<Rightarrow> client_base \<Rightarrow> bool" where
  "reachable_peer peers cl \<longleftrightarrow>
     connections cl = [] \<and> 0 \<le> handler_runner cl \<and> max_response_streambuf_size cl = 2 ^ 64 - 1
     \<and> peer_resolve (peers (next_connection cl)) = Success \<and> peer_connect (peers (next_connection cl)) = Success
     \<and> peer_write (peers (next_connection cl)) = Success"

definition no_message :: response_message where
  "no_message = \<lparr>http_version = [], status_code_line = [], response_header = []\<rparr>"

lemma io_run_handler:
  assumes "complete alloc op c io = Some (Inr (op', io'))" "\<not> finished op"
    and "c = asio (peers (sess_connection (snd io))) (over i) op (fst (sess_content (snd io)))
      (fst n (sess_connection (snd io)))" "c_ec c = Success"
  shows "io_run alloc peers over i (op, io, n) = io_run alloc peers over (i + 1) (op', io', net_step op c (snd io) n)"
  using io_run_step [of alloc op peers io over i n op' io'] assms by simp

lemma connecting_steps:
  assumes st: "session_at p msg [] rest io n"
    and peer: "peer_resolve (peers p) = Success" "peer_connect (peers p) = Success" "peer_write (peers p) = Success"
  shows "\<exists>io1 n1. session_at p msg [] rest io1 n1 \<and>
    io_run alloc peers over i (Resolving, io, n) = io_run alloc peers over (i + 3) (Reading_header, io1, n1)"
proof -
  let ?c = "\<lparr>c_ec = Success, c_data = [], c_bytes = 0\<rparr>"
  have keep: "session_at p msg [] rest io' (net_step op ?c (snd io') n')" if "session_at p msg [] rest io' n'" for io' n' op
    using that by (cases n') (auto simp: session_at_def net_step_def)
  let ?io1 = "set_timeout (timeout_connect (fst (cancel_timeout io))) (cancel_timeout io)"
  let ?n1 = "net_step Resolving ?c (snd io) n"
  have st1: "session_at p msg [] rest ?io1 ?n1"
    using session_at_view [OF keep [OF st], of ?io1] by simp
  have r1: "io_run alloc peers over i (Resolving, io, n) = io_run alloc peers over (i + 1) (Connecting, ?io1, ?n1)"
    using handled_session [OF st] session_at_conn [OF st] peer
    by (intro io_run_handler) (simp_all add: complete_def on_resolve_def asio_def)
  obtain cl s where c1: "cancel_timeout ?io1 = (cl, s)" by fastforce
  let ?cl = "set_connection (sess_connection s) (socket_open_update (\<lambda>_. True)) cl"
  let ?io2 = "set_timeout 0 (?cl, s)"
  let ?n2 = "net_step Connecting ?c (snd ?io1) ?n1"
  have "view ?io2 = view ?io1" using view_simps(3) [of ?io1] by (simp add: c1 del: view_simps(3))
  then have st2: "session_at p msg [] rest ?io2 ?n2" by (rule session_at_view [OF keep [OF st1]])
  have r2: "io_run alloc peers over (i + 1) (Connecting, ?io1, ?n1) = io_run alloc peers over (i + 1 + 1) (Writing, ?io2, ?n2)"
    using handled_session [OF st1] session_at_conn [OF st1] peer
    by (intro io_run_handler) (simp_all add: complete_def on_connect_def c1 write_request_def asio_def Let_def)
  let ?io3 = "set_timeout 0 (cancel_timeout ?io2)"
  let ?n3 = "net_step Writing ?c (snd ?io2) ?n2"
  have st3: "session_at p msg [] rest ?io3 ?n3"
    using session_at_view [OF keep [OF st2], of ?io3] by simp
  have r3: "io_run alloc peers over (i + 1 + 1) (Writing, ?io2, ?n2)
      = io_run alloc peers over (i + 1 + 1 + 1) (Reading_header, ?io3, ?n3)"
    using handled_session [OF st2] session_at_conn [OF st2] peer
    by (intro io_run_handler) (simp_all add: complete_def on_write_def read_response_def asio_def)
  have "i + 1 + 1 + 1 = i + 3" by simp
  then have "io_run alloc peers over i (Resolving, io, n) = io_run alloc peers over (i + 3) (Reading_header, ?io3, ?n3)"
    using r1 r2 r3 by (simp only:)
  with st3 show ?thesis by blast
qed

lemma request_reaches_header:
  assumes peer: "reachable_peer peers cl" and size: "length (fst n (next_connection cl)) < 2 ^ 62"
  shows "\<exists>i io n'. session_at (next_connection cl) no_message [] (fst n (next_connection cl)) io n' \<and>
    http_request alloc peers over meth path content h cl n
      = map_option (\<lambda>r. bind_res r (\<lambda>(op, (cl, s), n). Inr (request_outcome op s, cl, n)))
          (io_run alloc peers over i (Reading_header, io, n'))"
proof -
  let ?p = "next_connection cl"
  obtain op io where start: "request_start meth path content h cl = (op, io)" by (meson surj_pair)
  from start peer have op: "op = Resolving"
    by (auto simp: request_start_def get_connection_def create_connection_def connect_def set_connection_def
        reachable_peer_def Let_def)
  from start peer size have st: "session_at ?p no_message [] (fst n ?p) io n"
    by (auto simp: request_start_def get_connection_def create_connection_def connect_def set_connection_def
        reachable_peer_def session_at_def set_timeout_def no_message_def Let_def)
  from connecting_steps [OF st, of peers alloc over 0] peer
  obtain io1 n1 where "session_at ?p no_message [] (fst n ?p) io1 n1"
    "io_run alloc peers over 0 (Resolving, io, n) = io_run alloc peers over 3 (Reading_header, io1, n1)"
    by (auto simp: reachable_peer_def)
  then show ?thesis by (intro exI [of _ 3] exI [of _ io1] exI [of _ n1]) (simp add: http_request_def start op)
qed

lemma request_returns:
  assumes peer: "reachable_peer peers cl" and size: "length (fst n (next_connection cl)) < 2 ^ 62"
    and returns: "\<And>i io n'. session_at (next_connection cl) no_message [] (fst n (next_connection cl)) io n'
      \<Longrightarrow> returns_content msg body (io_run alloc peers over i (Reading_header, io, n'))"
  shows "\<exists>cl' n'. http_request alloc peers over meth path content h cl n = Some (Inr (Inr (Some (msg, body)), cl', n'))"
proof -
  obtain i io n' where st: "session_at (next_connection cl) no_message [] (fst n (next_connection cl)) io n'"
    and run: "http_request alloc peers over meth path content h cl n
      = map_option (\<lambda>r. bind_res r (\<lambda>(op, (cl, s), n). Inr (request_outcome op s, cl, n)))
          (io_run alloc peers over i (Reading_header, io, n'))"
    using request_reaches_header [OF peer size] by blast
  from returns [OF st, of i] show ?thesis by (auto simp: run returns_content_def request_outcome_def)
qed

text \<open>Property C14: a request whose response gives the length of its body returns exactly this status,
  these header fields and this body, for every way to cut the bytes of the response into reads.\<close>

theorem content_length_delivered:
  assumes "reachable_peer peers cl" "length (fst n (next_connection cl)) < 2 ^ 62"
    and "fst n (next_connection cl) = response_text version code h body"
    and "status_ok version code" "list_all field_ok h"
    and "hdr_find ''Content-Length'' h = Some (show_nat (length body))"
  shows "\<exists>h' cl' n'. mset h' = mset h \<and>
    http_request alloc peers over meth path content hs cl n
      = Some (Inr (Inr (Some (\<lparr>http_version = version, status_code_line = code, response_header = h'\<rparr>, body)), cl', n'))"
  using request_returns [OF assms(1,2), of "\<lparr>http_version = version, status_code_line = code, response_header = h\<rparr>" body
      alloc over meth path content hs]
    content_length_returns [OF _ _ assms(4-6)] assms(3) by fastforce

theorem content_length_delivered_witness:
  "\<exists>h' cl' n'. mset h' = mset [(''Content-Length'', show_nat (length ''{}''))] \<and>
    http_request 1000 sample_peers (\<lambda>_. 1) ''POST'' ''/'' ''{}'' [] sample_base
        (\<lambda>_. response_text ''1.1'' ''200 OK'' [(''Content-Length'', show_nat (length ''{}''))] ''{}'', [])
      = Some (Inr (Inr (Some (\<lparr>http_version = ''1.1'', status_code_line = ''200 OK'', response_header = h'\<rparr>, ''{}'')),
          cl', n'))"
proof (rule content_length_delivered, goal_cases)
  case 2
  show ?case by (simp add: response_text_def header_lines_def crlf_def show_base_small)
next
  case 5
  show ?case by (simp add: field_ok_def show_nat_no_line_feed)
next
  case 6
  show ?case by (simp add: case_insensitive_equal_map)
qed (simp_all add: reachable_peer_def sample_base_def sample_peers_def status_ok_def)

text \<open>Property C13: a response in chunks, each with its length in hexadecimal digits, is returned as the
  concatenation of the chunks, for every way to cut its bytes into reads.\<close>

theorem chunks_delivered:
  assumes "reachable_peer peers cl" "length (fst n (next_connection cl)) < 2 ^ 62"
    and "fst n (next_connection cl) = response_text version code h (chunked_text cs)"
    and "status_ok version code" "list_all field_ok h"
    and "hdr_find ''Content-Length'' h = None" "hdr_find ''Transfer-Encoding'' h = Some ''chunked''"
    and "\<forall>c \<in> set cs. c \<noteq> [] \<and> length c \<le> alloc"
  shows "\<exists>h' cl' n'. mset h' = mset h \<and>
    http_request alloc peers over meth path content hs cl n
      = Some (Inr (Inr (Some (\<lparr>http_version = version, status_code_line = code, response_header = h'\<rparr>, concat cs)), cl', n'))"
  using request_returns [OF assms(1,2), of "\<lparr>http_version = version, status_code_line = code, response_header = h\<rparr>" "concat cs"
      alloc over meth path content hs]
    chunked_returns [OF _ _ assms(4-8)] assms(3) by fastforce

theorem chunks_delivered_witness:
  "\<exists>h' cl' n'. mset h' = mset [(''Transfer-Encoding'', ''chunked'')] \<and>
    http_request 1000 sample_peers (\<lambda>_. 3) ''POST'' ''/'' ''{}'' [] sample_base
        (\<lambda>_. response_text ''1.1'' ''200 OK'' [(''Transfer-Encoding'', ''chunked'')] (chunked_text [''abc'', ''de'']), [])
      = Some (Inr (Inr (Some (\<lparr>http_version = ''1.1'', status_code_line = ''200 OK'', response_header = h'\<rparr>,
          concat [''abc'', ''de''])), cl', n'))"
proof (rule chunks_delivered, goal_cases)
  case 2
  show ?case by (simp add: response_text_def header_lines_def chunked_text_def chunk_text_def crlf_def show_base_small)
next
  case 6
  show ?case by (simp add: case_insensitive_equal_def)
next
  case 7
  show ?case by (simp add: case_insensitive_equal_map)
qed (simp_all add: reachable_peer_def sample_base_def sample_peers_def status_ok_def field_ok_def)

text \<open>A \<open>Content-Length\<close> that is no number makes the request throw what \<open>std::stoull\<close>
  throws, which is no \<open>system_error\<close>: the one exception the transport catches around a request.\<close>

theorem bad_content_length_throws:
  assumes "reachable_peer peers cl" "length (fst n (next_connection cl)) < 2 ^ 62"
    and "fst n (next_connection cl) = response_text version code h body"
    and "status_ok version code" "list_all field_ok h"
    and "hdr_find ''Content-Length'' h = Some v" "stoul 10 v = Inl e"
  shows "http_request alloc peers over meth path content hs cl n = Some (Inl e)"
proof -
  obtain i io n' where st: "session_at (next_connection cl) no_message [] (fst n (next_connection cl)) io n'"
    and run: "http_request alloc peers over meth path content hs cl n
      = map_option (\<lambda>r. bind_res r (\<lambda>(op, (cl, s), n). Inr (request_outcome op s, cl, n)))
          (io_run alloc peers over i (Reading_header, io, n'))"
    using request_reaches_header [OF assms(1,2)] by blast
  from header_step [OF st _ assms(4,5), of body alloc peers over i] assms(3)
  obtain io' n'' e1 e2 where st': "session_at (next_connection cl)
        \<lparr>http_version = version, status_code_line = code, response_header = h\<rparr> e1 e2 io' n''"
    and throw: "\<And>e. on_header_parsed (length e1) io' = Inl e \<Longrightarrow>
         io_run alloc peers over i (Reading_header, io, n') = Some (Inl e)"
    by auto
  have "on_header_parsed (length e1) io' = Inl e"
    using session_at_conn(4) [OF st'] assms(6,7) by (simp add: on_header_parsed_def)
  from throw [OF this] show ?thesis by (simp add: run)
qed

theorem bad_content_length_throws_witness:
  "http_request 1000 sample_peers (\<lambda>_. 1) ''POST'' ''/'' ''{}'' [] sample_base
     (\<lambda>_. response_text ''1.1'' ''200 OK'' [(''Content-Length'', ''x'')] ''{}'', []) = Some (Inl (Invalid_argument ''stoul''))"
proof (rule bad_content_length_throws [where v = "''x''" and version = "''1.1''" and code = "''200 OK''"
    and h = "[(''Content-Length'', ''x'')]" and body = "''{}''"], goal_cases)
  case 2
  show ?case by (simp add: response_text_def header_lines_def crlf_def)
next
  case 6
  show ?case by (simp add: case_insensitive_equal_map)
next
  case 7
  show ?case by (rule stoul_10_no_digits) (simp_all add: is_digit_def is_space_def)
qed (simp_all add: reachable_peer_def sample_base_def sample_peers_def status_ok_def field_ok_def)

end
