(* ===== verification/Scope_Runner.thy ===== *)
theory Scope_Runner
  imports Sentry_Prelude
begin

text \<open>
  Class \<open>ScopeRunner\<close> of \<open>externals/http-server-3.0.0/utility.hpp\<close>, with which the destructor of the HTTP
  client waits for its handlers.  Any number of threads call \<open>continue_lock\<close> and release the lock, and
  \<open>stop\<close> runs beside them; a step of the relation is one atomic operation on \<open>lock_count\<close> by one thread.
  \<open>compare_exchange_weak\<close> may also fail when the values agree.  The count never exceeds the number of
  threads, so that it is an integer without a bound here.
\<close>

datatype lock_pc =
    Outside
  | Trying int
  | Holding
  | Refused

datatype stop_pc =
    Stop_trying
  | Stop_failed int
  | Stop_returned

record runner =
  lock_count :: int
  locker :: "nat \<Rightarrow> lock_pc"
  stopper :: stop_pc

definition ScopeRunner_new :: runner where
  "ScopeRunner_new = \<lparr>lock_count = 0, locker = (\<lambda>_. Outside), stopper = Stop_trying\<rparr>"

text \<open>One step of thread \<open>t\<close> in \<open>continue_lock\<close>: the load, the exchange, and the end of the loop.\<close>

inductive continue_lock :: "nat \<Rightarrow> runner \<Rightarrow> runner \<Rightarrow> bool" where
  load: "locker s t = Outside \<Longrightarrow> continue_lock t s (s\<lparr>locker := (locker s)(t := Trying (lock_count s))\<rparr>)"
| exchange: "locker s t = Trying expected \<Longrightarrow> 0 \<le> expected \<Longrightarrow> lock_count s = expected
    \<Longrightarrow> continue_lock t s (s\<lparr>lock_count := expected + 1, locker := (locker s)(t := Holding)\<rparr>)"
| fail: "locker s t = Trying expected \<Longrightarrow> 0 \<le> expected
    \<Longrightarrow> continue_lock t s (s\<lparr>locker := (locker s)(t := Trying (lock_count s))\<rparr>)"
| refuse: "locker s t = Trying expected \<Longrightarrow> expected < 0
    \<Longrightarrow> continue_lock t s (s\<lparr>locker := (locker s)(t := Refused)\<rparr>)"

text \<open>The destructor of the lock, after which the thread may come again.\<close>

inductive SharedLock_release :: "nat \<Rightarrow> runner \<Rightarrow> runner \<Rightarrow> bool" where
  "locker s t = Holding \<Longrightarrow> SharedLock_release t s (s\<lparr>lock_count := lock_count s - 1, locker := (locker s)(t := Outside)\<rparr>)"
| "locker s t = Refused \<Longrightarrow> SharedLock_release t s (s\<lparr>locker := (locker s)(t := Outside)\<rparr>)"

text \<open>\<open>stop\<close> tries to exchange 0 for -1 until it succeeds or finds a negative count.\<close>

inductive ScopeRunner_stop :: "runner \<Rightarrow> runner \<Rightarrow> bool" where
  "stopper s = Stop_trying \<Longrightarrow> lock_count s = 0 \<Longrightarrow> ScopeRunner_stop s (s\<lparr>lock_count := -1, stopper := Stop_returned\<rparr>)"
| "stopper s = Stop_trying \<Longrightarrow> ScopeRunner_stop s (s\<lparr>stopper := Stop_failed (lock_count s)\<rparr>)"
| "stopper s = Stop_failed expected \<Longrightarrow> expected < 0 \<Longrightarrow> ScopeRunner_stop s (s\<lparr>stopper := Stop_returned\<rparr>)"
| "stopper s = Stop_failed expected \<Longrightarrow> 0 \<le> expected \<Longrightarrow> ScopeRunner_stop s (s\<lparr>stopper := Stop_trying\<rparr>)"

inductive runner_step :: "runner \<Rightarrow> runner \<Rightarrow> bool" where
  "continue_lock t s s' \<Longrightarrow> runner_step s s'"
| "SharedLock_release t s s' \<Longrightarrow> runner_step s s'"
| "ScopeRunner_stop s s' \<Longrightarrow> runner_step s s'"

abbreviation runner_steps :: "runner \<Rightarrow> runner \<Rightarrow> bool" where
  "runner_steps \<equiv> runner_step\<^sup>*\<^sup>*"

inductive_cases runner_stepE: "runner_step s s'"
inductive_cases continue_lockE: "continue_lock t s s'"
inductive_cases releaseE: "SharedLock_release t s s'"
inductive_cases stopE: "ScopeRunner_stop s s'"

section \<open>The invariant\<close>

definition holders :: "runner \<Rightarrow> nat set" where
  "holders s = {t. locker s t = Holding}"

text \<open>
  The count is the number of locks that are held, or it is -1 and none is; a thread that has read a
  negative count read it after the end; \<open>stop\<close> has returned, or knows a negative count, only then.
\<close>

definition runner_ok :: "runner \<Rightarrow> bool" where
  "runner_ok s \<longleftrightarrow> finite (holders s)
     \<and> (lock_count s = int (card (holders s)) \<or> lock_count s = -1 \<and> holders s = {})
     \<and> (stopper s = Stop_returned \<longrightarrow> lock_count s = -1)
     \<and> (\<forall>e. stopper s = Stop_failed e \<longrightarrow> e < 0 \<longrightarrow> lock_count s = -1)
     \<and> (\<forall>t e. locker s t = Trying e \<longrightarrow> e < 0 \<longrightarrow> lock_count s = -1)"

lemma holders_update:
  "holders (s\<lparr>locker := (locker s)(t := Holding)\<rparr>) = insert t (holders s)"
  "pc \<noteq> Holding \<Longrightarrow> holders (s\<lparr>locker := (locker s)(t := pc)\<rparr>) = holders s - {t}"
  by (auto simp: holders_def)

lemma holders_other [simp]:
  "holders (s\<lparr>lock_count := c\<rparr>) = holders s" "holders (s\<lparr>stopper := q\<rparr>) = holders s"
  by (simp_all add: holders_def)

lemma runner_ok_new: "runner_ok ScopeRunner_new"
  by (simp add: runner_ok_def ScopeRunner_new_def holders_def)

lemma continue_lock_ok: "continue_lock t s s' \<Longrightarrow> runner_ok s \<Longrightarrow> runner_ok s'"
proof (erule continue_lockE, goal_cases)
  case 1
  then have "holders s' = holders s" by (auto simp: holders_def)
  with 1 show ?case by (auto simp: runner_ok_def)
next
  case 2
  then have "holders s' = insert t (holders s)" "t \<notin> holders s" by (auto simp: holders_def)
  with 2 show ?case by (fastforce simp: runner_ok_def)
next
  case (3 expected)
  then have "holders s' = holders s" by (auto simp: holders_def)
  with 3 show ?case by (auto simp: runner_ok_def)
next
  case (4 expected)
  then have "holders s' = holders s" by (auto simp: holders_def)
  with 4 show ?case by (auto simp: runner_ok_def)
qed

lemma release_ok: "SharedLock_release t s s' \<Longrightarrow> runner_ok s \<Longrightarrow> runner_ok s'"
proof (erule releaseE, goal_cases)
  case 1
  then have h: "holders s' = holders s - {t}" "t \<in> holders s" by (auto simp: holders_def)
  with 1 have c: "finite (holders s)" "lock_count s = int (card (holders s))" by (auto simp: runner_ok_def)
  with h have "0 < card (holders s)" "card (holders s') = card (holders s) - 1"
    by (auto simp: card_gt_0_iff)
  with 1 h c show ?case by (auto simp: runner_ok_def)
next
  case 2
  then have "holders s' = holders s" by (auto simp: holders_def)
  with 2 show ?case by (auto simp: runner_ok_def)
qed

lemma stop_ok: "ScopeRunner_stop s s' \<Longrightarrow> runner_ok s \<Longrightarrow> runner_ok s'"
  by (erule stopE) (auto simp: runner_ok_def)

lemma runner_step_ok: "runner_step s s' \<Longrightarrow> runner_ok s \<Longrightarrow> runner_ok s'"
  by (erule runner_stepE) (blast intro: continue_lock_ok release_ok stop_ok)+

lemma runner_steps_ok: "runner_steps s s' \<Longrightarrow> runner_ok s \<Longrightarrow> runner_ok s'"
  by (induction rule: rtranclp_induct) (blast intro: runner_step_ok)+

lemma stopped_stays: "runner_step s s' \<Longrightarrow> stopper s = Stop_returned \<Longrightarrow> stopper s' = Stop_returned"
  by (auto elim!: runner_stepE continue_lockE releaseE stopE)

lemma stopped_for_ever: "runner_steps s s' \<Longrightarrow> stopper s = Stop_returned \<Longrightarrow> stopper s' = Stop_returned"
  by (induction rule: rtranclp_induct) (blast intro: stopped_stays)+

definition no_lock_after :: "runner \<Rightarrow> bool" where
  "no_lock_after s \<longleftrightarrow> (\<forall>s' t. runner_steps s s' \<longrightarrow> locker s' t \<noteq> Holding)"

text \<open>Until \<open>stop\<close> succeeds the count is the number of locks held.\<close>

lemma count_is_holders:
  "runner_steps ScopeRunner_new s \<Longrightarrow> 0 \<le> lock_count s \<Longrightarrow> lock_count s = int (card (holders s))"
  using runner_steps_ok [OF _ runner_ok_new] by (fastforce simp: runner_ok_def)

text \<open>Property C17: in every interleaving, once \<open>stop\<close> has returned no thread holds a lock, the count is
  -1, and no thread will ever get a lock again.\<close>

theorem stop_excludes_handlers:
  assumes "runner_steps ScopeRunner_new s" "stopper s = Stop_returned"
  shows "lock_count s = -1 \<and> holders s = {} \<and> no_lock_after s"
proof -
  have ok: "runner_ok s" by (rule runner_steps_ok [OF assms(1) runner_ok_new])
  have "locker s' t \<noteq> Holding" if "runner_steps s s'" for s' t
  proof -
    have "runner_ok s'" "stopper s' = Stop_returned"
      using that ok assms(2) runner_steps_ok stopped_for_ever by blast+
    then show ?thesis by (auto simp: runner_ok_def holders_def)
  qed
  with ok assms(2) show ?thesis by (auto simp: runner_ok_def no_lock_after_def)
qed

text \<open>A run in which thread 3 takes and releases the lock, and \<open>stop\<close> fails once and then returns.\<close>

definition stopped_runner :: runner where
  "stopped_runner = \<lparr>lock_count = -1, locker = (\<lambda>_. Outside), stopper = Stop_returned\<rparr>"

lemma stopped_runner_reached: "runner_steps ScopeRunner_new stopped_runner"
proof -
  let ?f = "\<lambda>pc. (\<lambda>_. Outside)(3 := pc)"
  have "runner_steps ScopeRunner_new \<lparr>lock_count = 0, locker = ?f (Trying 0), stopper = Stop_trying\<rparr>"
    using continue_lock.load [of ScopeRunner_new 3] by (intro r_into_rtranclp runner_step.intros(1)) (simp add: ScopeRunner_new_def)
  also have "runner_steps \<lparr>lock_count = 0, locker = ?f (Trying 0), stopper = Stop_trying\<rparr>
      \<lparr>lock_count = 1, locker = ?f Holding, stopper = Stop_trying\<rparr>"
    using continue_lock.exchange [of "\<lparr>lock_count = 0, locker = ?f (Trying 0), stopper = Stop_trying\<rparr>" 3 0]
    by (intro r_into_rtranclp runner_step.intros(1)) simp
  also have "runner_steps \<dots> \<lparr>lock_count = 1, locker = ?f Holding, stopper = Stop_failed 1\<rparr>"
    using ScopeRunner_stop.intros(2) [of "\<lparr>lock_count = 1, locker = ?f Holding, stopper = Stop_trying\<rparr>"]
    by (intro r_into_rtranclp runner_step.intros(3)) simp
  also have "runner_steps \<dots> \<lparr>lock_count = 0, locker = ?f Outside, stopper = Stop_failed 1\<rparr>"
    using SharedLock_release.intros(1) [of "\<lparr>lock_count = 1, locker = ?f Holding, stopper = Stop_failed 1\<rparr>" 3]
    by (intro r_into_rtranclp runner_step.intros(2)) simp
  also have "runner_steps \<dots> \<lparr>lock_count = 0, locker = ?f Outside, stopper = Stop_trying\<rparr>"
    using ScopeRunner_stop.intros(4) [of "\<lparr>lock_count = 0, locker = ?f Outside, stopper = Stop_failed 1\<rparr>" 1]
    by (intro r_into_rtranclp runner_step.intros(3)) simp
  also have "runner_steps \<dots> stopped_runner"
    using ScopeRunner_stop.intros(1) [of "\<lparr>lock_count = 0, locker = ?f Outside, stopper = Stop_trying\<rparr>"]
    by (intro r_into_rtranclp runner_step.intros(3)) (simp add: stopped_runner_def fun_upd_def)
  finally show ?thesis .
qed

theorem stop_excludes_handlers_witness:
  "lock_count stopped_runner = -1 \<and> holders stopped_runner = {} \<and> no_lock_after stopped_runner"
  by (rule stop_excludes_handlers [OF stopped_runner_reached]) (simp add: stopped_runner_def)

end
