(* ===== verification/Json_Input.thy ===== *)
theory Json_Input
  imports Sentry_Prelude
begin

text \<open>
  The input adapters of \<open>externals/json-3.1.2/json.h\<close>: the abstract class \<open>input_adapter_protocol\<close> as a
  locale, its two implementations over a buffer and over a \<open>std::istream\<close>, and the virtual dispatch
  between them.  A character is a byte, and \<open>None\<close> is \<open>std::char_traits<char>::eof()\<close>.  Of the stream
  only its buffer is modelled: the bytes and the read position, with the four operations the adapter
  calls (the stream is good when the adapter is made).
\<close>

section \<open>The protocol\<close>

text \<open>
  \<open>remaining\<close> is what the adapter still delivers; the character just delivered can be given back.
\<close>

locale input_adapter_protocol =
  fixes get_char :: "'a \<Rightarrow> char option \<times> 'a"
    and unget_char :: "'a \<Rightarrow> 'a"
    and remaining :: "'a \<Rightarrow> string"
  assumes get_Cons: "remaining a = c # s \<Longrightarrow>
            fst (get_char a) = Some c \<and> remaining (snd (get_char a)) = s \<and> unget_char (snd (get_char a)) = a"
    and get_Nil: "remaining a = [] \<Longrightarrow> fst (get_char a) = None \<and> remaining (snd (get_char a)) = []"
begin

lemma get_char_eq: "fst (get_char a) = (case remaining a of [] \<Rightarrow> None | c # s \<Rightarrow> Some c)"
  using get_Cons [of a] get_Nil [of a] by (cases "remaining a") auto

lemma remaining_get: "remaining (snd (get_char a)) = tl (remaining a)"
  using get_Cons [of a] get_Nil [of a] by (cases "remaining a") auto

lemma unget_get: "fst (get_char a) \<noteq> None \<Longrightarrow> unget_char (snd (get_char a)) = a"
  using get_Cons [of a] get_Nil [of a] by (cases "remaining a") auto

text \<open>Reading on delivers exactly the remaining characters, then the end of the input for ever.\<close>

lemma nth_get: "fst (get_char (((snd \<circ> get_char) ^^ n) a))
    = (if n < length (remaining a) then Some (remaining a ! n) else None)"
proof -
  have "remaining (((snd \<circ> get_char) ^^ n) a) = drop n (remaining a)"
    by (induction n) (simp_all add: remaining_get tl_drop drop_Suc)
  then show ?thesis by (auto simp: get_char_eq split: list.split simp: Cons_nth_drop_Suc [symmetric] dest: sym)
qed

end

section \<open>input_buffer_adapter\<close>

record input_buffer_adapter =
  buf_bytes :: string
  buf_cursor :: nat

definition input_buffer_adapter_new :: "string \<Rightarrow> input_buffer_adapter" where
  "input_buffer_adapter_new b =
     \<lparr>buf_bytes = b,
      buf_cursor = (if 3 \<le> length b \<and> b ! 0 = CHR 0xEF \<and> b ! 1 = CHR 0xBB \<and> b ! 2 = CHR 0xBF then 3 else 0)\<rparr>"

definition buffer_get_character :: "input_buffer_adapter \<Rightarrow> char option \<times> input_buffer_adapter" where
  "buffer_get_character a =
     (if buf_cursor a < length (buf_bytes a)
      then (Some (buf_bytes a ! buf_cursor a), a\<lparr>buf_cursor := buf_cursor a + 1\<rparr>)
      else (None, a))"

definition buffer_unget_character :: "input_buffer_adapter \<Rightarrow> input_buffer_adapter" where
  "buffer_unget_character a = (if 0 < buf_cursor a then a\<lparr>buf_cursor := buf_cursor a - 1\<rparr> else a)"

definition buffer_remaining :: "input_buffer_adapter \<Rightarrow> string" where
  "buffer_remaining a = drop (buf_cursor a) (buf_bytes a)"

lemma drop_eq_Cons: "drop n xs = c # s \<longleftrightarrow> n < length xs \<and> xs ! n = c \<and> drop (Suc n) xs = s"
  by (metis Cons_nth_drop_Suc drop_all leI list.distinct(1) list.inject)

interpretation buffer: input_adapter_protocol buffer_get_character buffer_unget_character buffer_remaining
  by unfold_locales
    (auto simp: buffer_remaining_def buffer_get_character_def buffer_unget_character_def drop_eq_Cons)

section \<open>input_stream_adapter\<close>

record input_stream_adapter =
  sb_bytes :: string
  sb_pos :: nat

text \<open>\<open>sbumpc\<close>, \<open>sungetc\<close>, \<open>istream::unget\<close> and \<open>istream::putback\<close>.\<close>

definition stream_get_character :: "input_stream_adapter \<Rightarrow> char option \<times> input_stream_adapter" where
  "stream_get_character a =
     (if sb_pos a < length (sb_bytes a)
      then (Some (sb_bytes a ! sb_pos a), a\<lparr>sb_pos := sb_pos a + 1\<rparr>)
      else (None, a))"

definition stream_unget_character :: "input_stream_adapter \<Rightarrow> input_stream_adapter" where
  "stream_unget_character a = (if 0 < sb_pos a then a\<lparr>sb_pos := sb_pos a - 1\<rparr> else a)"

definition istream_unget :: "input_stream_adapter \<Rightarrow> input_stream_adapter" where
  "istream_unget a = stream_unget_character a"

definition istream_putback :: "char \<Rightarrow> input_stream_adapter \<Rightarrow> input_stream_adapter" where
  "istream_putback c a =
     (if 0 < sb_pos a \<and> sb_bytes a ! (sb_pos a - 1) = c then a\<lparr>sb_pos := sb_pos a - 1\<rparr> else a)"

text \<open>The constructor reads on as long as it sees a byte order mark and puts back what is none.\<close>

definition input_stream_adapter_new :: "input_stream_adapter \<Rightarrow> input_stream_adapter" where
  "input_stream_adapter_new i =
     (let (c, a) = stream_get_character i
      in if c = Some (CHR 0xEF)
         then (let (c, a) = stream_get_character a;
                   (done, a) =
                     (if c = Some (CHR 0xBB)
                      then (let (c, a) = stream_get_character a
                            in if c = Some (CHR 0xBF) then (True, a)
                               else (False, istream_putback (CHR 0xBB) (if c \<noteq> None then istream_unget a else a)))
                      else (False, if c \<noteq> None then istream_unget a else a))
               in if done then a else istream_putback (CHR 0xEF) a)
         else if c \<noteq> None then istream_unget a else a)"

definition stream_remaining :: "input_stream_adapter \<Rightarrow> string" where
  "stream_remaining a = drop (sb_pos a) (sb_bytes a)"

interpretation stream: input_adapter_protocol stream_get_character stream_unget_character stream_remaining
  by unfold_locales
    (auto simp: stream_remaining_def stream_get_character_def stream_unget_character_def drop_eq_Cons)

section \<open>input_adapter: the choice of an adapter and its virtual calls\<close>

datatype input_adapter =
    Buffer_adapter input_buffer_adapter
  | Stream_adapter input_stream_adapter

definition adapter_of_buffer :: "string \<Rightarrow> input_adapter" where
  "adapter_of_buffer b = Buffer_adapter (input_buffer_adapter_new b)"

text \<open>A string literal ends at its first null character; a container is read whole.\<close>

definition adapter_of_literal :: "string \<Rightarrow> input_adapter" where
  "adapter_of_literal b = adapter_of_buffer (takeWhile (\<lambda>c. c \<noteq> CHR 0x00) b)"

definition adapter_of_stream :: "input_stream_adapter \<Rightarrow> input_adapter" where
  "adapter_of_stream i = Stream_adapter (input_stream_adapter_new i)"

fun get_character :: "input_adapter \<Rightarrow> char option \<times> input_adapter" where
  "get_character (Buffer_adapter a) = map_prod id Buffer_adapter (buffer_get_character a)"
| "get_character (Stream_adapter a) = map_prod id Stream_adapter (stream_get_character a)"

fun unget_character :: "input_adapter \<Rightarrow> input_adapter" where
  "unget_character (Buffer_adapter a) = Buffer_adapter (buffer_unget_character a)"
| "unget_character (Stream_adapter a) = Stream_adapter (stream_unget_character a)"

fun adapter_remaining :: "input_adapter \<Rightarrow> string" where
  "adapter_remaining (Buffer_adapter a) = buffer_remaining a"
| "adapter_remaining (Stream_adapter a) = stream_remaining a"

interpretation adapter: input_adapter_protocol get_character unget_character adapter_remaining
proof
  show "fst (get_character a) = Some c \<and> adapter_remaining (snd (get_character a)) = s
      \<and> unget_character (snd (get_character a)) = a" if "adapter_remaining a = c # s" for a c s
    using that buffer.get_Cons stream.get_Cons by (cases a) auto
  show "fst (get_character a) = None \<and> adapter_remaining (snd (get_character a)) = []"
    if "adapter_remaining a = []" for a
    using that buffer.get_Nil stream.get_Nil by (cases a) auto
qed

section \<open>The byte order mark\<close>

definition skip_bom :: "string \<Rightarrow> string" where
  "skip_bom s = (if take 3 s = [CHR 0xEF, CHR 0xBB, CHR 0xBF] then drop 3 s else s)"

lemma buffer_new_remaining: "adapter_remaining (adapter_of_buffer b) = skip_bom b"
proof -
  have "3 \<le> length b \<and> b ! 0 = CHR 0xEF \<and> b ! 1 = CHR 0xBB \<and> b ! 2 = CHR 0xBF
      \<longleftrightarrow> take 3 b = [CHR 0xEF, CHR 0xBB, CHR 0xBF]"
    by (cases b; cases "tl b"; cases "tl (tl b)") (auto simp: numeral_eq_Suc)
  then show ?thesis
    by (simp add: adapter_of_buffer_def input_buffer_adapter_new_def buffer_remaining_def skip_bom_def)
qed

text \<open>
  Both adapters skip a byte order mark and nothing else, so a text read from a stream gives the
  characters it gives when read from memory.
\<close>

lemma stream_new_remaining: "adapter_remaining (adapter_of_stream i) = skip_bom (stream_remaining i)"
proof -
  obtain b p where i: "i = \<lparr>sb_bytes = b, sb_pos = p\<rparr>" by (cases i)
  define s where "s = drop p b"
  have nth: "p + n < length b \<longleftrightarrow> n < length s" "n < length s \<Longrightarrow> b ! (p + n) = s ! n" for n
    by (auto simp: s_def)
  have d: "drop (p + n) b = drop n s" for n by (simp add: s_def add.commute)
  show ?thesis
    using nth [of 0] nth [of 1] nth [of 2] d [of 0] d [of 1] d [of 2] d [of 3]
    by (cases s; cases "tl s"; cases "tl (tl s)")
      (auto simp: adapter_of_stream_def input_stream_adapter_new_def stream_remaining_def i skip_bom_def
        stream_get_character_def istream_unget_def stream_unget_character_def istream_putback_def
        numeral_eq_Suc Let_def)
qed

end
