(* ===== verification/C_Numbers.thy ===== *)
theory C_Numbers
  imports Json_Float_Roundtrip
begin

text \<open>
  The conversions of the C library the JSON lexer calls: \<open>strtoull\<close>, \<open>strtoll\<close> (base 10) and \<open>strtod\<close>.
  Each returns the value and the number of characters it has read (the \<open>endptr\<close> of the call); the
  integer ones also say whether \<open>errno\<close> is set to \<open>ERANGE\<close>.  \<open>strtod\<close> is the correctly rounding one
  (C11 annex F: to nearest, ties to even, for decimal texts of up to 17 digits) in the C locale, where a
  program runs that does not call \<open>setlocale\<close>.
\<close>

section \<open>strtoull and strtoll\<close>

definition c_integer :: "string \<Rightarrow> bool \<times> nat \<times> nat" where
  "c_integer s =
     (let ws = takeWhile is_space s;
          s1 = drop (length ws) s;
          sign = (if s1 \<noteq> [] \<and> (hd s1 = CHR ''-'' \<or> hd s1 = CHR ''+'') then 1 else 0);
          ds = take_digits 10 (drop sign s1)
      in if ds = [] then (False, 0, 0)
         else (sign = 1 \<and> hd s1 = CHR ''-'', digits_value 10 ds, length ws + sign + length ds))"

definition strtoull :: "string \<Rightarrow> u64 \<times> nat \<times> bool" where
  "strtoull s =
     (case c_integer s of (neg, m, n) \<Rightarrow>
        if 2 ^ 64 \<le> m then (- 1, n, True) else (if neg then - of_nat m else of_nat m, n, False))"

definition strtoll :: "string \<Rightarrow> u64 \<times> nat \<times> bool" where
  "strtoll s =
     (case c_integer s of (neg, m, n) \<Rightarrow>
        if neg then (if 2 ^ 63 < m then (push_bit 63 1, n, True) else (- of_nat m, n, False))
        else (if 2 ^ 63 \<le> m then (mask 63, n, True) else (of_nat m, n, False)))"

section \<open>strtod\<close>

text \<open>
  The double with bits \<open>b\<close> is \<open>significand * 2 ^ exponent\<close>; \<open>b\<close> counts the doubles from 0.  The pattern after
  the largest finite one stands for the power of two that follows, and is infinity as a result.
\<close>

definition pattern_significand :: "nat \<Rightarrow> nat" where
  "pattern_significand b = (if b < 2 ^ 52 then b else b mod 2 ^ 52 + 2 ^ 52)"

definition pattern_exponent :: "nat \<Rightarrow> int" where
  "pattern_exponent b = (if b < 2 ^ 52 then - 1074 else int (b div 2 ^ 52) - 1075)"

definition infinity_pattern :: nat where
  "infinity_pattern = 2047 * 2 ^ 52"

text \<open>To compare \<open>f * 2 ^ e\<close> with \<open>n * 10 ^ k\<close> over the integers, both are multiplied by the negative powers.\<close>

definition binary_side :: "nat \<Rightarrow> int \<Rightarrow> int \<Rightarrow> nat" where
  "binary_side f e k = f * 2 ^ nat e * 10 ^ nat (- k)"

definition decimal_side :: "nat \<Rightarrow> int \<Rightarrow> int \<Rightarrow> nat" where
  "decimal_side n k e = n * 10 ^ nat k * 2 ^ nat (- e)"

definition pattern_le :: "nat \<Rightarrow> nat \<Rightarrow> int \<Rightarrow> bool" where
  "pattern_le b n k \<longleftrightarrow>
     binary_side (pattern_significand b) (pattern_exponent b) k \<le> decimal_side n k (pattern_exponent b)"

text \<open>The largest pattern below infinity that is at most the number, bit by bit.\<close>

fun pattern_below :: "nat \<Rightarrow> nat \<Rightarrow> nat \<Rightarrow> int \<Rightarrow> nat" where
  "pattern_below 0 b n k = b"
| "pattern_below (Suc i) b n k =
     (let c = b + 2 ^ i
      in pattern_below i (if c < infinity_pattern \<and> pattern_le c n k then c else b) n k)"

text \<open>The midpoint to the next pattern is \<open>(2 * significand + 1) * 2 ^ (exponent - 1)\<close>.\<close>

definition round_decimal :: "nat \<Rightarrow> int \<Rightarrow> nat" where
  "round_decimal n k =
     (let b = pattern_below 63 0 n k;
          e = pattern_exponent b - 1;
          midpoint = binary_side (2 * pattern_significand b + 1) e k;
          v = decimal_side n k e
      in if v < midpoint then b else if v = midpoint then b + b mod 2 else b + 1)"

text \<open>Optional sign, digits with an optional fraction, optional exponent, after white space.\<close>

definition c_exponent :: "string \<Rightarrow> int \<times> nat" where
  "c_exponent s =
     (if s \<noteq> [] \<and> (hd s = CHR ''e'' \<or> hd s = CHR ''E'')
      then (let s1 = tl s;
                sign = (if s1 \<noteq> [] \<and> (hd s1 = CHR ''-'' \<or> hd s1 = CHR ''+'') then 1 else 0);
                ds = takeWhile is_digit (drop sign s1)
            in if ds = [] then (0, 0)
               else (if sign = 1 \<and> hd s1 = CHR ''-'' then - int (digits_num ds) else int (digits_num ds),
                     1 + sign + length ds))
      else (0, 0))"

definition c_decimal :: "string \<Rightarrow> nat \<times> int \<times> nat" where
  "c_decimal s =
     (let ip = takeWhile is_digit s;
          s1 = drop (length ip) s;
          point = s1 \<noteq> [] \<and> hd s1 = CHR ''.'';
          fp = (if point then takeWhile is_digit (tl s1) else []);
          (ex, n) = c_exponent (if point then drop (length fp) (tl s1) else s1)
      in if ip = [] \<and> fp = [] then (0, 0, 0)
         else (digits_num (ip @ fp), ex - int (length fp),
               length ip + (if point then 1 + length fp else 0) + n))"

definition strtod :: "string \<Rightarrow> u64 \<times> nat" where
  "strtod s =
     (let ws = takeWhile is_space s;
          s1 = drop (length ws) s;
          sign = (if s1 \<noteq> [] \<and> (hd s1 = CHR ''-'' \<or> hd s1 = CHR ''+'') then 1 else 0);
          (n, k, len) = c_decimal (drop sign s1);
          bits = round_decimal n k
      in if len = 0 then (0, 0)
         else (of_nat (if sign = 1 \<and> hd s1 = CHR ''-'' then bits + 2 ^ 63 else bits),
               length ws + sign + len))"

section \<open>Rounding\<close>

definition pattern_value :: "nat \<Rightarrow> rat" where
  "pattern_value b = of_nat (pattern_significand b) * 2 powi pattern_exponent b"

definition pattern_gap :: "nat \<Rightarrow> rat" where
  "pattern_gap b = 2 powi pattern_exponent b"

definition scaled :: "nat \<Rightarrow> int \<Rightarrow> rat" where
  "scaled n k = of_nat n * 10 powi k"

lemma powi_split: "x \<noteq> 0 \<Longrightarrow> (x :: rat) powi k * x ^ nat (- k) = x ^ nat k"
  by (cases "0 \<le> k") (simp_all add: power_int_def flip: power_mult_distrib)

lemma sides:
  defines "c k e \<equiv> (10 :: rat) ^ nat (- k) * 2 ^ nat (- e)"
  shows "of_nat (binary_side f e k) = of_nat f * 2 powi e * c k e"
    and "of_nat (decimal_side n k e) = scaled n k * c k e" and "0 < c k e"
  using powi_split [of 2 e] powi_split [of 10 k]
  by (simp_all add: binary_side_def decimal_side_def scaled_def c_def mult_ac)

lemma sides_le: "binary_side f e k \<le> decimal_side n k e \<longleftrightarrow> of_nat f * 2 powi e \<le> scaled n k"
  and sides_less: "decimal_side n k e < binary_side f e k \<longleftrightarrow> scaled n k < of_nat f * 2 powi e"
  and sides_greater: "binary_side f e k < decimal_side n k e \<longleftrightarrow> of_nat f * 2 powi e < scaled n k"
  using sides(3) [of k e] unfolding of_nat_le_iff [where 'a = rat, symmetric] of_nat_less_iff [where 'a = rat, symmetric] sides(1,2)
  by simp_all

lemma Suc_divmod:
  "Suc (b mod m) = m \<Longrightarrow> Suc b mod m = 0" "Suc (b mod m) = m \<Longrightarrow> Suc b div m = Suc (b div m)"
  "Suc (b mod m) \<noteq> m \<Longrightarrow> Suc b mod m = Suc (b mod m)" "Suc (b mod m) \<noteq> m \<Longrightarrow> Suc b div m = b div m"
  by (simp_all add: mod_Suc div_Suc)

lemma pattern_gap_positive [simp]: "0 < pattern_gap b"
  by (simp add: pattern_gap_def)

lemma pattern_Suc: "pattern_value (Suc b) = pattern_value b + pattern_gap b"
proof -
  consider "Suc b < 2 ^ 52" | "Suc b = 2 ^ 52" | "2 ^ 52 \<le> b" by linarith
  then show ?thesis
  proof cases
    case 1
    then show ?thesis by (simp add: pattern_value_def pattern_gap_def pattern_significand_def pattern_exponent_def algebra_simps)
  next
    case 2
    then have "b = 2 ^ 52 - 1" by simp
    then show ?thesis by (simp add: pattern_value_def pattern_gap_def pattern_significand_def pattern_exponent_def)
  next
    case 3
    then have n: "\<not> b < 2 ^ 52" "\<not> Suc b < 2 ^ 52" by simp_all
    show ?thesis
    proof (cases "Suc (b mod 2 ^ 52) = 2 ^ 52")
      case True
      then have m: "Suc b mod 2 ^ 52 = 0" "Suc b div 2 ^ 52 = Suc (b div 2 ^ 52)"
        using Suc_divmod(1,2) [of b "2 ^ 52"] by blast+
      have "(of_nat (b mod 2 ^ 52) :: rat) = 2 ^ 52 - 1"
        using True by (metis of_nat_Suc of_nat_numeral of_nat_power add_diff_cancel_left')
      moreover have "(2 :: rat) powi (int (Suc (b div 2 ^ 52)) - 1075) = 2 powi (int (b div 2 ^ 52) - 1075) * 2"
        using power_int_add_1 [of "2 :: rat" "int (b div 2 ^ 52) - 1075"] by (simp add: algebra_simps)
      ultimately show ?thesis
        unfolding pattern_value_def pattern_gap_def pattern_significand_def pattern_exponent_def if_not_P [OF n(1)] if_not_P [OF n(2)] m
        by (simp add: algebra_simps)
    next
      case False
      then have m: "Suc b mod 2 ^ 52 = Suc (b mod 2 ^ 52)" "Suc b div 2 ^ 52 = b div 2 ^ 52"
        using Suc_divmod(3,4) [of b "2 ^ 52"] by blast+
      show ?thesis
        unfolding pattern_value_def pattern_gap_def pattern_significand_def pattern_exponent_def if_not_P [OF n(1)] if_not_P [OF n(2)] m
        by (simp add: algebra_simps)
    qed
  qed
qed

lemma pattern_mono: "a < b \<Longrightarrow> pattern_value a < pattern_value b"
  by (rule lift_Suc_mono_less) (simp_all add: pattern_Suc)

lemma pattern_mono_le: "a \<le> b \<Longrightarrow> pattern_value a \<le> pattern_value b"
  using pattern_mono [of a b] by (cases "a = b") auto

lemma pattern_le_iff: "pattern_le b n k \<longleftrightarrow> pattern_value b \<le> scaled n k"
  by (simp add: pattern_le_def sides_le pattern_value_def)

lemma pattern_below_spec:
  assumes "b < infinity_pattern" "pattern_value b \<le> scaled n k"
  shows "pattern_below i b n k < infinity_pattern \<and> pattern_value (pattern_below i b n k) \<le> scaled n k
    \<and> (\<forall>c. pattern_below i b n k < c \<and> c < infinity_pattern \<and> c < b + 2 ^ i \<longrightarrow> scaled n k < pattern_value c)"
  using assms
proof (induction i arbitrary: b)
  case (Suc i)
  show ?case
  proof (cases "b + 2 ^ i < infinity_pattern \<and> pattern_le (b + 2 ^ i) n k")
    case True
    then have "pattern_value (b + 2 ^ i) \<le> scaled n k" by (simp add: pattern_le_iff)
    from Suc.IH [OF conjunct1 [OF True] this] True show ?thesis by (simp add: Let_def add.assoc flip: mult_2)
  next
    case False
    have above: "scaled n k < pattern_value c" if "b + 2 ^ i \<le> c" "c < infinity_pattern" for c
    proof -
      have "b + 2 ^ i < infinity_pattern" using that by simp
      then have "scaled n k < pattern_value (b + 2 ^ i)" using False by (simp add: pattern_le_iff)
      also have "\<dots> \<le> pattern_value c" using that(1) by (rule pattern_mono_le)
      finally show ?thesis .
    qed
    from Suc.IH [OF Suc.prems] above False show ?thesis
      by (auto simp: Let_def not_less) (metis linorder_not_less)+
  qed
qed auto

text \<open>A number between the midpoints around a double is rounded to it.\<close>

lemma round_decimal_interval:
  assumes p: "p < infinity_pattern" and up: "scaled n k < pattern_value p + pattern_gap p / 2"
    and low: "p = 0 \<or> pattern_value (p - 1) + pattern_gap (p - 1) / 2 < scaled n k"
  shows "round_decimal n k = p"
proof -
  define b where "b = pattern_below 63 0 n k"
  have "pattern_value 0 \<le> scaled n k" by (simp add: pattern_value_def pattern_significand_def scaled_def)
  from pattern_below_spec [OF _ this, of 63] have b: "b < infinity_pattern" "pattern_value b \<le> scaled n k"
    "\<And>c. b < c \<Longrightarrow> c < infinity_pattern \<Longrightarrow> scaled n k < pattern_value c"
    by (auto simp: b_def infinity_pattern_def)
  have mid: "of_nat (2 * pattern_significand b + 1) * 2 powi (pattern_exponent b - 1) = pattern_value b + pattern_gap b / 2"
    using power_int_add_1 [of "2 :: rat" "pattern_exponent b - 1"]
    by (simp add: pattern_value_def pattern_gap_def field_simps)
  define v where "v = decimal_side n k (pattern_exponent b - 1)"
  define m where "m = binary_side (2 * pattern_significand b + 1) (pattern_exponent b - 1) k"
  have r: "round_decimal n k = (if v < m then b else if v = m then b + b mod 2 else b + 1)"
    by (simp add: round_decimal_def Let_def b_def v_def m_def)
  have less: "v < m \<longleftrightarrow> scaled n k < pattern_value b + pattern_gap b / 2"
    unfolding v_def m_def sides_less mid ..
  have greater: "m < v \<longleftrightarrow> pattern_value b + pattern_gap b / 2 < scaled n k"
    unfolding v_def m_def sides_greater mid ..
  show ?thesis
  proof (cases "pattern_value p \<le> scaled n k")
    case True
    have "\<not> b < p" using b(3) [OF _ p] True by force
    moreover have "\<not> p < b"
    proof
      assume "p < b"
      then have "pattern_value (Suc p) \<le> pattern_value b" by (intro pattern_mono_le) simp
      with b(2) up pattern_Suc [of p] show False using pattern_gap_positive [of p] by linarith
    qed
    ultimately have "b = p" by simp
    with up less r show ?thesis by simp
  next
    case False
    then obtain q where q: "p = Suc q" "pattern_value q + pattern_gap q / 2 < scaled n k"
      using low b(2) \<open>pattern_value 0 \<le> scaled n k\<close> by (cases p) auto
    have "b = q"
    proof (rule antisym)
      show "b \<le> q" using False b(2) q(1) pattern_mono_le [of p b] by (cases "b \<le> q") auto
      have "pattern_value q < scaled n k" using q(2) pattern_gap_positive [of q] by linarith
      then show "q \<le> b" using b(3) [of q] p q(1) by force
    qed
    with q less greater r show ?thesis by auto
  qed
qed

lemma pattern_of_double:
  assumes "\<not> signbit x" "isfinite x"
  shows "unat x < infinity_pattern" "pattern_value (unat x) = double_value x"
    "pattern_value (unat x) + pattern_gap (unat x) / 2 = upper_boundary x"
    "x \<noteq> 0 \<Longrightarrow> pattern_value (unat x - 1) + pattern_gap (unat x - 1) / 2 = lower_boundary x"
proof -
  have "unat x div 2 ^ 52 < 2 ^ 11" using assms(1) by (simp add: signbit_iff div_less_iff_less_mult)
  then have e: "exponent_bits x = unat x div 2 ^ 52" by (simp add: exponent_bits_def)
  with assms(2) exponent_bits_less [of x] have "unat x div 2 ^ 52 < 2047" by (auto simp: isfinite_iff)
  then show "unat x < infinity_pattern" by (simp add: infinity_pattern_def div_less_iff_less_mult)
  have small: "unat x < 2 ^ 52 \<longleftrightarrow> exponent_bits x = 0" unfolding e by (simp add: div_eq_0_iff)
  have s: "pattern_significand (unat x) = significand x"
    unfolding pattern_significand_def significand_def fraction_bits_def small
    by (cases "exponent_bits x = 0") (simp_all add: small [symmetric])
  have ex: "pattern_exponent (unat x) = binary_exponent x"
    unfolding pattern_exponent_def binary_exponent_def small e ..
  show v: "pattern_value (unat x) = double_value x"
    using assms(1) by (simp add: pattern_value_def double_value_def s ex)
  show "pattern_value (unat x) + pattern_gap (unat x) / 2 = upper_boundary x"
    by (simp add: pattern_value_def pattern_gap_def upper_boundary_def s ex algebra_simps)
  assume "x \<noteq> 0"
  then obtain q where q: "unat x = Suc q" by (metis not0_implies_Suc unat_eq_zero)
  have "pattern_value q + pattern_gap q / 2 = pattern_value (unat x) - pattern_gap q / 2"
    unfolding q pattern_Suc by simp
  moreover have "pattern_gap q = 2 powi binary_exponent x * (if boundary_closer x then 1 / 2 else 1)"
  proof (cases "boundary_closer x")
    case True
    then have f: "Suc q mod 2 ^ 52 = 0" "1 < Suc q div 2 ^ 52"
      unfolding q [symmetric] e [symmetric] by (simp_all add: boundary_closer_def fraction_bits_def)
    have d: "Suc q div 2 ^ 52 = Suc (q div 2 ^ 52)" using f(1) Suc_divmod(2,3) [of q "2 ^ 52"] by (metis nat.distinct(1))
    with f(2) have "\<not> q < 2 ^ 52" by (metis div_less less_irrefl One_nat_def)
    moreover have be: "binary_exponent x = int (q div 2 ^ 52) - 1075 + 1"
      unfolding binary_exponent_def e q d using f(2) by simp
    have "(2 :: rat) powi binary_exponent x = 2 powi (int (q div 2 ^ 52) - 1075) * 2"
      unfolding be by (rule power_int_add_1) simp
    ultimately show ?thesis using True by (simp add: pattern_gap_def pattern_exponent_def)
  next
    case False
    have "pattern_exponent q = pattern_exponent (Suc q)"
    proof (cases "Suc q mod 2 ^ 52 = 0")
      case True
      then have "Suc q div 2 ^ 52 \<le> 1"
        using False unfolding boundary_closer_def fraction_bits_def e q by simp
      moreover have "Suc q = Suc q div 2 ^ 52 * 2 ^ 52"
        using div_mult_mod_eq [of "Suc q" "2 ^ 52"] True by linarith
      ultimately have "Suc q = 2 ^ 52" by (cases "Suc q div 2 ^ 52") auto
      then have "q = 2 ^ 52 - 1" by simp
      then show ?thesis by (simp add: pattern_exponent_def)
    next
      case nz: False
      then have "Suc q div 2 ^ 52 = q div 2 ^ 52" using Suc_divmod(1,4) [of q "2 ^ 52"] by metis
      moreover have "Suc q < 2 ^ 52 \<longleftrightarrow> q < 2 ^ 52" using nz by (metis Suc_lessI less_Suc_eq mod_self not_less_eq)
      ultimately show ?thesis unfolding pattern_exponent_def by presburger
    qed
    then show ?thesis using False ex by (simp add: pattern_gap_def q)
  qed
  ultimately show "pattern_value (unat x - 1) + pattern_gap (unat x - 1) / 2 = lower_boundary x"
    unfolding v using assms(1)
    by (cases "boundary_closer x") (simp_all add: q double_value_def lower_boundary_def algebra_simps)
qed

section \<open>Reading what was printed\<close>

lemma drop_takeWhile: "drop (length (takeWhile P s)) s = dropWhile P s"
  by (induction s) auto

lemma takeWhile_digits_text: "digits_text t \<Longrightarrow> takeWhile is_digit t = t"
  by (simp add: digits_text_def list_all_iff takeWhile_eq_all_conv)

lemma length_takeWhile_dropWhile: "length (takeWhile P s) + length (dropWhile P s) = length s"
  by (metis length_append takeWhile_dropWhile_id)

lemma c_exponent_part:
  "exponent_part t \<Longrightarrow> c_exponent t = (exponent_value (tl t), length t)"
  by (auto simp: exponent_part_def c_exponent_def exponent_value_def takeWhile_digits_text Let_def
      split: list.splits)

lemma c_decimal_number:
  assumes "unsigned_number t" "number_parts t = (ip, fp, ex)"
  shows "c_decimal t = (digits_num (ip @ fp), exponent_value (tl ex) - int (length fp), length t)"
proof -
  have "ip \<noteq> []" "exponent_part ex" using assms by (auto simp: unsigned_number_def)
  note e = c_exponent_part [OF this(2)] and ip = this(1)
  define r where "r = dropWhile is_digit t"
  have len: "length t = length (takeWhile is_digit t) + length r"
    unfolding r_def by (rule length_takeWhile_dropWhile [symmetric])
  show ?thesis
  proof (cases "r \<noteq> [] \<and> hd r = CHR ''.''")
    case True
    then have p: "ip = takeWhile is_digit t" "fp = takeWhile is_digit (tl r)" "ex = dropWhile is_digit (tl r)"
      using assms(2) by (auto simp: number_parts_def r_def Let_def split: if_splits)
    have "length r = 1 + (length fp + length ex)"
      using True unfolding p length_takeWhile_dropWhile by (cases r) auto
    with True e ip len p show ?thesis by (simp add: c_decimal_def drop_takeWhile Let_def flip: r_def)
  next
    case False
    then have p: "ip = takeWhile is_digit t" "fp = []" "ex = r" using assms(2) by (auto simp: number_parts_def r_def Let_def split: if_splits)
    with False e ip len show ?thesis by (auto simp: c_decimal_def drop_takeWhile Let_def simp flip: r_def)
  qed
qed

lemma digit_not_space_sign: "is_digit c \<Longrightarrow> \<not> is_space c \<and> c \<noteq> CHR ''-'' \<and> c \<noteq> CHR ''+''"
  by (auto simp: is_digit_def is_space_def)

lemma strtod_number:
  assumes "unsigned_number t" "t \<noteq> []" "is_digit (hd t)" "number_parts t = (ip, fp, ex)"
  defines "r \<equiv> round_decimal (digits_num (ip @ fp)) (exponent_value (tl ex) - int (length fp))"
  shows "strtod t = (of_nat r, length t)" "strtod (CHR ''-'' # t) = (of_nat (r + 2 ^ 63), Suc (length t))"
proof -
  obtain c s where t: "t = c # s" using assms(2) by (cases t) auto
  have c: "\<not> is_space c" "c \<noteq> CHR ''-''" "c \<noteq> CHR ''+''" "\<not> is_space CHR ''-''"
    using assms(3) digit_not_space_sign [of c] by (auto simp: t is_space_def)
  note d = c_decimal_number [OF assms(1,4), folded r_def]
  show "strtod t = (of_nat r, length t)"
    using c d by (simp add: strtod_def t r_def)
  show "strtod (CHR ''-'' # t) = (of_nat (r + 2 ^ 63), Suc (length t))"
    using c d by (simp add: strtod_def t r_def)
qed

text \<open>\<open>to_chars\<close> of a finite double is read back as the same 64 bits, and to its end.\<close>

lemma unsigned_reads_back:
  assumes "isfinite x" "\<not> signbit x" "unsigned_number t" "t \<noteq> []" "is_digit (hd t)"
    and "if x = 0 then unsigned_value t = 0 else lower_boundary x < unsigned_value t \<and> unsigned_value t < upper_boundary x"
  shows "strtod t = (x, length t)" "strtod (CHR ''-'' # t) = (flip_sign x, Suc (length t))"
proof -
  obtain ip fp ex where parts: "number_parts t = (ip, fp, ex)" by (cases "number_parts t") auto
  define n where "n = digits_num (ip @ fp)"
  define k where "k = exponent_value (tl ex) - int (length fp)"
  have v: "unsigned_value t = scaled n k"
    by (simp add: unsigned_value_def parts decimal_value_def scaled_def n_def k_def)
  have "round_decimal n k = unat x"
  proof (rule round_decimal_interval)
    show "unat x < infinity_pattern" by (rule pattern_of_double [OF assms(2,1)])
    show "scaled n k < pattern_value (unat x) + pattern_gap (unat x) / 2"
    proof (cases "x = 0")
      case True
      then have "scaled n k = 0" using assms(6) v by simp
      then show ?thesis using True pattern_gap_positive [of 0] by (simp add: pattern_value_def pattern_significand_def)
    next
      case False
      then show ?thesis using assms(6) v unfolding pattern_of_double(3) [OF assms(2,1)] by simp
    qed
    show "unat x = 0 \<or> pattern_value (unat x - 1) + pattern_gap (unat x - 1) / 2 < scaled n k"
      using assms(6) v pattern_of_double(4) [OF assms(2,1)] by (cases "x = 0") auto
  qed
  note r = strtod_number [OF assms(3-5) parts, folded n_def k_def, unfolded this]
  have "flip_sign x = of_nat (unat x + 2 ^ 63)"
  proof -
    have "unat (flip_sign x) = unat x + 2048 * 2 ^ 52"
      using unat_flip_sign [of "flip_sign x"] assms(2) by (simp add: signbit_flip flip_sign_flip)
    then have "unat (flip_sign x) = unat x + 2 ^ 63" by simp
    then show ?thesis by (metis of_nat_unat ucast_id)
  qed
  with r show "strtod t = (x, length t)" "strtod (CHR ''-'' # t) = (flip_sign x, Suc (length t))" by simp_all
qed

lemma float_reads_back:
  assumes "isfinite x"
  shows "strtod (float_text x) = (x, length (float_text x))"
proof -
  have zero: "strtod ''0.0'' = (0, 3)" "strtod ''-0.0'' = (flip_sign 0, 4)"
    using unsigned_reads_back [of 0 "''0.0''"] zero_text
    by (simp_all add: isfinite_def signbit_def is_digit_def)
  have main: "\<exists>t. to_chars 64 y = Inr t \<and> to_chars 64 (flip_sign y) = Inr (CHR ''-'' # t)
      \<and> strtod t = (y, length t) \<and> strtod (CHR ''-'' # t) = (flip_sign y, Suc (length t))"
    if "isfinite y" "\<not> signbit y" for y
  proof -
    have flip: "isfinite (flip_sign y)" "signbit (flip_sign y)" "flip_sign y XOR push_bit 63 1 = y"
      using that flip_negative(1) [of "flip_sign y"] flip_sign_flip [of y]
      by (simp_all add: signbit_flip) (simp add: flip_sign_def)
    show ?thesis
    proof (cases "y = 0")
      case True
      then show ?thesis using that zero flip unfolding to_chars_def by (simp add: asserting_holds)
    next
      case False
      obtain z where "double_value z \<noteq> double_value y" using some_other_value by blast
      from unsigned_text [OF that False this] obtain buf e t where t: "grisu2 y = Inr (buf, e)" "length buf \<le> 17"
        "format_buffer buf e (- 4) 15 = Inr t" "unsigned_number t" "is_digit (hd t)" "t \<noteq> []"
        "lower_boundary y < unsigned_value t" "unsigned_value t < upper_boundary y" by blast
      with that False flip have "to_chars 64 y = Inr t" "to_chars 64 (flip_sign y) = Inr (CHR ''-'' # t)"
        unfolding to_chars_def by (simp_all add: asserting_holds)
      with unsigned_reads_back [OF that t(4,6,5)] t(7,8) False show ?thesis by simp
    qed
  qed
  show ?thesis
  proof (cases "signbit x")
    case False
    from main [OF assms this] assms show ?thesis by (auto simp: float_text_def dump_float_def)
  next
    case True
    define y where "y = flip_sign x"
    have "isfinite y" "\<not> signbit y" "flip_sign y = x"
      using True assms by (simp_all add: y_def signbit_flip flip_negative flip_sign_flip)
    with main [of y] assms show ?thesis by (auto simp: float_text_def dump_float_def)
  qed
qed

end
