(* ===== verification/Json_Lexer.thy ===== *)
theory Json_Lexer
  imports Json_Input C_Numbers
begin

text \<open>
  The class \<open>lexer\<close> of \<open>externals/json-3.1.2/json.h\<close>: its state, the reading of characters, and the
  scanners of strings, numbers and literals.  Every \<open>assert\<close> is a branch (\<open>asserting\<close> of \<open>Json_Float\<close>),
  an error message is a value, and each label of the number scanner is a function.  \<open>current\<close> is \<open>None\<close> at
  the end of the input; the decimal point is that of the C locale.
\<close>

unbundle bit_operations_syntax

section \<open>Tokens\<close>

datatype token_type =
    T_uninitialized | T_literal_true | T_literal_false | T_literal_null | T_value_string
  | T_value_unsigned | T_value_integer | T_value_float | T_begin_array | T_begin_object
  | T_end_array | T_end_object | T_name_separator | T_value_separator | T_parse_error
  | T_end_of_input | T_literal_or_value

fun token_type_name :: "token_type \<Rightarrow> string" where
  "token_type_name T_uninitialized = ''<uninitialized>''"
| "token_type_name T_literal_true = ''true literal''"
| "token_type_name T_literal_false = ''false literal''"
| "token_type_name T_literal_null = ''null literal''"
| "token_type_name T_value_string = ''string literal''"
| "token_type_name T_value_unsigned = ''number literal''"
| "token_type_name T_value_integer = ''number literal''"
| "token_type_name T_value_float = ''number literal''"
| "token_type_name T_begin_array = [CHR 0x27, CHR ''['', CHR 0x27]"
| "token_type_name T_begin_object = [CHR 0x27, CHR ''{'', CHR 0x27]"
| "token_type_name T_end_array = [CHR 0x27, CHR '']'', CHR 0x27]"
| "token_type_name T_end_object = [CHR 0x27, CHR ''}'', CHR 0x27]"
| "token_type_name T_name_separator = [CHR 0x27, CHR '':'', CHR 0x27]"
| "token_type_name T_value_separator = [CHR 0x27, CHR '','', CHR 0x27]"
| "token_type_name T_parse_error = ''<parse error>''"
| "token_type_name T_end_of_input = ''end of input''"
| "token_type_name T_literal_or_value =
     [CHR 0x27, CHR ''['', CHR 0x27] @ '', '' @ [CHR 0x27, CHR ''{'', CHR 0x27] @ '', or a literal''"

section \<open>The state and the input\<close>

record lexer =
  lx_ia :: input_adapter
  lx_current :: "char option"
  chars_read :: nat
  token_string :: string
  token_buffer :: string
  error_message :: string
  value_integer :: u64
  value_unsigned :: u64
  value_float :: u64

definition lexer_new :: "input_adapter \<Rightarrow> lexer" where
  "lexer_new adapter =
     \<lparr>lx_ia = adapter, lx_current = None, chars_read = 0, token_string = [], token_buffer = [],
      error_message = [], value_integer = 0, value_unsigned = 0, value_float = 0\<rparr>"

definition get_decimal_point :: char where
  "get_decimal_point = CHR ''.''"

text \<open>\<open>to_char_type\<close> of the end of the input is the byte 255.\<close>

definition current_byte :: "lexer \<Rightarrow> char" where
  "current_byte l = (case lx_current l of Some c \<Rightarrow> c | None \<Rightarrow> CHR 0xFF)"

definition lexer_reset :: "lexer \<Rightarrow> lexer" where
  "lexer_reset l = l\<lparr>token_buffer := [], token_string := [current_byte l]\<rparr>"

definition lexer_get :: "lexer \<Rightarrow> lexer" where
  "lexer_get l =
     (let (c, ia) = get_character (lx_ia l)
      in l\<lparr>lx_ia := ia, lx_current := c, chars_read := chars_read l + 1,
           token_string := (case c of Some x \<Rightarrow> token_string l @ [x] | None \<Rightarrow> token_string l)\<rparr>)"

definition lexer_unget :: "lexer \<Rightarrow> lexer res" where
  "lexer_unget l =
     (let l1 = l\<lparr>chars_read := chars_read l - 1\<rparr>
      in if lx_current l = None then Inr l1
         else asserting (token_string l \<noteq> [])
              (Inr (l1\<lparr>lx_ia := unget_character (lx_ia l), token_string := butlast (token_string l)\<rparr>)))"

definition lexer_add :: "char \<Rightarrow> lexer \<Rightarrow> lexer" where
  "lexer_add c l = l\<lparr>token_buffer := token_buffer l @ [c]\<rparr>"

abbreviation add_current :: "lexer \<Rightarrow> lexer" where
  "add_current l \<equiv> lexer_add (current_byte l) l"

text \<open>What is still to be read, and how reading changes it.\<close>

definition lexer_left :: "lexer \<Rightarrow> string" where
  "lexer_left l = adapter_remaining (lx_ia l)"

named_theorems lexer_simps \<open>reading characters\<close>

lemma lexer_get_simps [simp, lexer_simps]:
  "lx_current (lexer_get l) = (case lexer_left l of [] \<Rightarrow> None | c # s \<Rightarrow> Some c)"
  "lexer_left (lexer_get l) = tl (lexer_left l)"
  "token_buffer (lexer_get l) = token_buffer l"
  "chars_read (lexer_get l) = Suc (chars_read l)"
  "error_message (lexer_get l) = error_message l"
  by (simp_all add: lexer_get_def lexer_left_def case_prod_unfold adapter.get_char_eq adapter.remaining_get)

lemma lexer_add_simps [simp, lexer_simps]:
  "lexer_left (lexer_add c l) = lexer_left l" "lx_current (lexer_add c l) = lx_current l"
  "token_buffer (lexer_add c l) = token_buffer l @ [c]"
  by (simp_all add: lexer_add_def lexer_left_def)

lemma lexer_left_message [simp, lexer_simps]: "lexer_left (l\<lparr>error_message := m\<rparr>) = lexer_left l"
  by (simp add: lexer_left_def)

section \<open>Strings\<close>

abbreviation scan_error :: "string \<Rightarrow> lexer \<Rightarrow> (token_type option \<times> lexer) res" where
  "scan_error m l \<equiv> Inr (Some T_parse_error, l\<lparr>error_message := m\<rparr>)"

definition codepoint_digit :: "char option \<Rightarrow> int option" where
  "codepoint_digit current =
     (case current of
        None \<Rightarrow> None
      | Some c \<Rightarrow>
          (let n = of_char c :: int
           in if 0x30 \<le> n \<and> n \<le> 0x39 then Some (n - 0x30)
              else if 0x41 \<le> n \<and> n \<le> 0x46 then Some (n - 0x37)
              else if 0x61 \<le> n \<and> n \<le> 0x66 then Some (n - 0x57)
              else None))"

fun get_codepoint_loop :: "nat list \<Rightarrow> int \<Rightarrow> lexer \<Rightarrow> int \<times> lexer" where
  "get_codepoint_loop [] codepoint l = (codepoint, l)"
| "get_codepoint_loop (factor # factors) codepoint l =
     (let l = lexer_get l
      in case codepoint_digit (lx_current l) of
           Some d \<Rightarrow> get_codepoint_loop factors (codepoint + push_bit factor d) l
         | None \<Rightarrow> (- 1, l))"

definition get_codepoint :: "lexer \<Rightarrow> (int \<times> lexer) res" where
  "get_codepoint l =
     asserting (lx_current l = Some (CHR ''u''))
     (let (codepoint, l) = get_codepoint_loop [12, 8, 4, 0] 0 l
      in if codepoint = - 1 then Inr (- 1, l)
         else asserting (0 \<le> codepoint \<and> codepoint \<le> 0xFFFF) (Inr (codepoint, l)))"

fun next_byte_loop :: "(nat \<times> nat) list \<Rightarrow> lexer \<Rightarrow> bool \<times> lexer" where
  "next_byte_loop [] l = (True, l)"
| "next_byte_loop ((lo, hi) # ranges) l =
     (let l = lexer_get l
      in case lx_current l of
           Some c \<Rightarrow>
             (if lo \<le> (of_char c :: nat) \<and> (of_char c :: nat) \<le> hi then next_byte_loop ranges (lexer_add c l)
              else (False, l\<lparr>error_message := ''invalid string: ill-formed UTF-8 byte''\<rparr>))
         | None \<Rightarrow> (False, l\<lparr>error_message := ''invalid string: ill-formed UTF-8 byte''\<rparr>))"

definition next_byte_in_range :: "(nat \<times> nat) list \<Rightarrow> lexer \<Rightarrow> (bool \<times> lexer) res" where
  "next_byte_in_range ranges l =
     asserting (length ranges \<in> {1, 2, 3}) (Inr (next_byte_loop ranges (add_current l)))"

text \<open>The bytes of a code point.\<close>

definition codepoint_bytes :: "int \<Rightarrow> char list" where
  "codepoint_bytes codepoint =
     (if codepoint < 0x80 then [char_of codepoint]
      else if codepoint \<le> 0x7FF
      then [char_of (0xC0 OR drop_bit 6 codepoint), char_of (0x80 OR (codepoint AND 0x3F))]
      else if codepoint \<le> 0xFFFF
      then [char_of (0xE0 OR drop_bit 12 codepoint), char_of (0x80 OR (drop_bit 6 codepoint AND 0x3F)),
            char_of (0x80 OR (codepoint AND 0x3F))]
      else [char_of (0xF0 OR drop_bit 18 codepoint), char_of (0x80 OR (drop_bit 12 codepoint AND 0x3F)),
            char_of (0x80 OR (drop_bit 6 codepoint AND 0x3F)), char_of (0x80 OR (codepoint AND 0x3F))])"

definition add_codepoint :: "int \<Rightarrow> lexer \<Rightarrow> (token_type option \<times> lexer) res" where
  "add_codepoint codepoint l =
     asserting (0 \<le> codepoint \<and> codepoint \<le> 0x10FFFF)
     (Inr (None, fold lexer_add (codepoint_bytes codepoint) l))"

definition bad_escape_message :: string where
  "bad_escape_message =
     ''invalid string: '' @ [CHR 0x27, CHR 0x5C, CHR ''u'', CHR 0x27] @ '' must be followed by 4 hex digits''"

definition bad_pair_message :: string where
  "bad_pair_message = ''invalid string: surrogate U+DC00..U+DFFF must be followed by U+DC00..U+DFFF''"

definition scan_unicode_escape :: "lexer \<Rightarrow> (token_type option \<times> lexer) res" where
  "scan_unicode_escape l =
     bind_res (get_codepoint l) (\<lambda>(codepoint1, l).
     if codepoint1 = - 1 then scan_error bad_escape_message l
     else if 0xD800 \<le> codepoint1 \<and> codepoint1 \<le> 0xDBFF
     then (let l = lexer_get l
           in if lx_current l \<noteq> Some (CHR 0x5C) then scan_error bad_pair_message l
              else (let l = lexer_get l
                    in if lx_current l \<noteq> Some (CHR ''u'') then scan_error bad_pair_message l
                       else bind_res (get_codepoint l) (\<lambda>(codepoint2, l).
                            if codepoint2 = - 1 then scan_error bad_escape_message l
                            else if 0xDC00 \<le> codepoint2 \<and> codepoint2 \<le> 0xDFFF
                            then add_codepoint (push_bit 10 codepoint1 + codepoint2 - 0x35FDC00) l
                            else scan_error bad_pair_message l)))
     else if 0xDC00 \<le> codepoint1 \<and> codepoint1 \<le> 0xDFFF
     then scan_error ''invalid string: surrogate U+DC00..U+DFFF must follow U+D800..U+DBFF'' l
     else add_codepoint codepoint1 l)"

definition simple_escape :: "char option \<Rightarrow> char option" where
  "simple_escape current =
     (case current of
        None \<Rightarrow> None
      | Some c \<Rightarrow>
          (if c = CHR 0x22 then Some (CHR 0x22) else if c = CHR 0x5C then Some (CHR 0x5C)
           else if c = CHR ''/'' then Some (CHR ''/'') else if c = CHR ''b'' then Some (CHR 0x08)
           else if c = CHR ''f'' then Some (CHR 0x0C) else if c = CHR ''n'' then Some (CHR 0x0A)
           else if c = CHR ''r'' then Some (CHR 0x0D) else if c = CHR ''t'' then Some (CHR 0x09)
           else None))"

definition scan_escape :: "lexer \<Rightarrow> (token_type option \<times> lexer) res" where
  "scan_escape l =
     (let l = lexer_get l
      in case simple_escape (lx_current l) of
           Some c \<Rightarrow> Inr (None, lexer_add c l)
         | None \<Rightarrow>
             (if lx_current l = Some (CHR ''u'') then scan_unicode_escape l
              else scan_error ''invalid string: forbidden character after backslash'' l))"

text \<open>The ranges of the bytes that follow the first byte of a UTF-8 sequence.\<close>

definition sequence_ranges :: "nat \<Rightarrow> (nat \<times> nat) list option" where
  "sequence_ranges n =
     (if 0xC2 \<le> n \<and> n \<le> 0xDF then Some [(0x80, 0xBF)]
      else if n = 0xE0 then Some [(0xA0, 0xBF), (0x80, 0xBF)]
      else if 0xE1 \<le> n \<and> n \<le> 0xEC \<or> n = 0xEE \<or> n = 0xEF then Some [(0x80, 0xBF), (0x80, 0xBF)]
      else if n = 0xED then Some [(0x80, 0x9F), (0x80, 0xBF)]
      else if n = 0xF0 then Some [(0x90, 0xBF), (0x80, 0xBF), (0x80, 0xBF)]
      else if 0xF1 \<le> n \<and> n \<le> 0xF3 then Some [(0x80, 0xBF), (0x80, 0xBF), (0x80, 0xBF)]
      else if n = 0xF4 then Some [(0x80, 0x8F), (0x80, 0xBF), (0x80, 0xBF)]
      else None)"

text \<open>One turn of the loop of \<open>scan_string\<close>; \<open>None\<close> continues it.\<close>

definition scan_string_step :: "lexer \<Rightarrow> (token_type option \<times> lexer) res" where
  "scan_string_step l =
     (let l = lexer_get l
      in case lx_current l of
           None \<Rightarrow> scan_error ''invalid string: missing closing quote'' l
         | Some c \<Rightarrow>
             (let n = of_char c :: nat
              in if c = CHR 0x22 then Inr (Some T_value_string, l)
                 else if c = CHR 0x5C then scan_escape l
                 else if n \<le> 0x1F then scan_error ''invalid string: control character must be escaped'' l
                 else if n \<le> 0x7F then Inr (None, lexer_add c l)
                 else case sequence_ranges n of
                        Some ranges \<Rightarrow>
                          bind_res (next_byte_in_range ranges l) (\<lambda>(ok, l).
                          Inr (if ok then None else Some T_parse_error, l))
                      | None \<Rightarrow> scan_error ''invalid string: ill-formed UTF-8 byte'' l))"

text \<open>Every turn reads a character, so the loop ends.\<close>

lemma next_byte_loop_left: "length (lexer_left (snd (next_byte_loop ranges l))) \<le> length (lexer_left l)"
proof (induction ranges l rule: next_byte_loop.induct)
  case (2 lo hi ranges l)
  then show ?case
    by (cases "lexer_left l") (auto simp: Let_def intro: le_SucI)
qed simp

lemma get_codepoint_loop_left:
  "length (lexer_left (snd (get_codepoint_loop factors cp l))) \<le> length (lexer_left l)"
proof (induction factors cp l rule: get_codepoint_loop.induct)
  case (2 factor factors cp l)
  show ?case
  proof (cases "codepoint_digit (lx_current (lexer_get l))")
    case None
    then show ?thesis by simp
  next
    case (Some d)
    from "2.IH" [OF refl Some] have "length (lexer_left (snd (get_codepoint_loop factors (cp + push_bit factor d) (lexer_get l))))
      \<le> length (lexer_left l) - 1" by simp
    with Some show ?thesis by (simp del: lexer_get_simps(1))
  qed
qed simp

lemma asserting_eq_Inr: "asserting c r = Inr x \<longleftrightarrow> c \<and> r = Inr x"
  by (simp add: asserting_def)

lemma get_codepoint_left:
  "get_codepoint l = Inr (cp, l') \<Longrightarrow> length (lexer_left l') \<le> length (lexer_left l)"
  using get_codepoint_loop_left [of "[12, 8, 4, 0]" 0 l]
  by (auto simp: get_codepoint_def asserting_eq_Inr case_prod_unfold Let_def split: if_splits)

lemma fold_lexer_add [simp]:
  "lexer_left (fold lexer_add cs l) = lexer_left l"
  "token_buffer (fold lexer_add cs l) = token_buffer l @ cs"
  by (induction cs arbitrary: l) simp_all

lemma add_codepoint_left:
  "add_codepoint cp l = Inr (t, l') \<Longrightarrow> lexer_left l' = lexer_left l"
  by (auto simp: add_codepoint_def asserting_eq_Inr)

lemma scan_unicode_escape_left:
  assumes "scan_unicode_escape l = Inr (t, l')"
  shows "length (lexer_left l') \<le> length (lexer_left l)"
proof -
  obtain cp1 l1 where c1: "get_codepoint l = Inr (cp1, l1)"
    using assms by (auto simp: scan_unicode_escape_def bind_res_eq_Inr)
  note le = get_codepoint_left [OF c1]
  show ?thesis
  proof (cases "0xD800 \<le> cp1 \<and> cp1 \<le> 0xDBFF \<and> lx_current (lexer_get l1) = Some (CHR 0x5C)
      \<and> lx_current (lexer_get (lexer_get l1)) = Some (CHR ''u'')")
    case True
    then obtain cp2 l2 where c2: "get_codepoint (lexer_get (lexer_get l1)) = Inr (cp2, l2)"
      using assms c1 by (auto simp: scan_unicode_escape_def bind_res_eq_Inr simp del: lexer_get_simps(1))
    have "length (lexer_left l2) \<le> length (lexer_left l1)"
      using get_codepoint_left [OF c2] by simp
    with assms c1 c2 True le show ?thesis
      by (auto simp: scan_unicode_escape_def simp del: lexer_get_simps(1) split: if_splits
          dest!: add_codepoint_left)
  next
    case False
    with assms c1 le show ?thesis
      by (auto simp: scan_unicode_escape_def Let_def simp del: lexer_get_simps(1) split: if_splits
          dest!: add_codepoint_left)
  qed
qed

lemma scan_escape_left:
  "scan_escape l = Inr (t, l') \<Longrightarrow> length (lexer_left l') \<le> length (lexer_left l)"
  using scan_unicode_escape_left [of "lexer_get l" t l']
  by (auto simp: scan_escape_def Let_def simp del: lexer_get_simps(1) split: option.splits if_splits)

lemma scan_string_step_left:
  assumes "scan_string_step l = Inr (None, l')"
  shows "length (lexer_left l') < length (lexer_left l)"
proof -
  obtain c s where l: "lexer_left l = c # s"
    using assms by (cases "lexer_left l") (auto simp: scan_string_step_def)
  have "length (lexer_left l') \<le> length (lexer_left (lexer_get l))"
    using assms scan_escape_left [of "lexer_get l" None l']
      next_byte_loop_left [of _ "add_current (lexer_get l)"]
    by (auto simp: scan_string_step_def l Let_def next_byte_in_range_def bind_res_eq_Inr asserting_eq_Inr
        case_prod_unfold split: option.splits if_splits)
  with l show ?thesis by simp
qed

function scan_string_loop :: "lexer \<Rightarrow> (token_type \<times> lexer) res" where
  "scan_string_loop l =
     (case scan_string_step l of
        Inl e \<Rightarrow> Inl e
      | Inr (Some t, l') \<Rightarrow> Inr (t, l')
      | Inr (None, l') \<Rightarrow> scan_string_loop l')"
  by pat_completeness auto
termination
  by (relation "measure (length \<circ> lexer_left)") (auto dest: scan_string_step_left)

declare scan_string_loop.simps [simp del]

definition scan_string :: "lexer \<Rightarrow> (token_type \<times> lexer) res" where
  "scan_string l =
     (let l = lexer_reset l
      in asserting (lx_current l = Some (CHR 0x22)) (scan_string_loop l))"

section \<open>Numbers\<close>

text \<open>
  A label ends with the jump to \<open>scan_number_done\<close> (\<open>Inr\<close>, with the type found so far) or with an
  error (\<open>Inl\<close>).
\<close>

type_synonym number_outcome = "lexer + token_type \<times> lexer"

definition cur_in :: "lexer \<Rightarrow> string \<Rightarrow> bool" where
  "cur_in l cs \<longleftrightarrow> (case lx_current l of None \<Rightarrow> False | Some c \<Rightarrow> c \<in> set cs)"

definition digits09 :: string where
  "digits09 = ''0123456789''"

lemma cur_in_get: "cur_in (lexer_get l) cs \<longleftrightarrow> (\<exists>c s. lexer_left l = c # s \<and> c \<in> set cs)"
  by (auto simp: cur_in_def split: list.splits)

function scan_number_any2 :: "token_type \<Rightarrow> lexer \<Rightarrow> number_outcome" where
  "scan_number_any2 ty l =
     (if cur_in (lexer_get l) digits09 then scan_number_any2 ty (add_current (lexer_get l))
      else Inr (ty, lexer_get l))"
  by pat_completeness auto
termination
  by (relation "measure (\<lambda>(ty, l). length (lexer_left l))") (auto simp: cur_in_get)

definition scan_number_sign :: "token_type \<Rightarrow> lexer \<Rightarrow> number_outcome" where
  "scan_number_sign ty l =
     (let l = lexer_get l
      in if cur_in l digits09 then scan_number_any2 ty (add_current l)
         else Inl (l\<lparr>error_message := ''invalid number; expected digit after exponent sign''\<rparr>))"

definition scan_number_exponent :: "lexer \<Rightarrow> number_outcome" where
  "scan_number_exponent l =
     (let l = lexer_get l
      in if cur_in l ''+-'' then scan_number_sign T_value_float (add_current l)
         else if cur_in l digits09 then scan_number_any2 T_value_float (add_current l)
         else Inl (l\<lparr>error_message := ''invalid number; expected '' @ [CHR 0x27, CHR ''+'', CHR 0x27] @ '', ''
                @ [CHR 0x27, CHR ''-'', CHR 0x27] @ '', or digit after exponent''\<rparr>))"

function scan_number_decimal2 :: "token_type \<Rightarrow> lexer \<Rightarrow> number_outcome" where
  "scan_number_decimal2 ty l =
     (if cur_in (lexer_get l) digits09 then scan_number_decimal2 ty (add_current (lexer_get l))
      else if cur_in (lexer_get l) ''eE'' then scan_number_exponent (add_current (lexer_get l))
      else Inr (ty, lexer_get l))"
  by pat_completeness auto
termination
  by (relation "measure (\<lambda>(ty, l). length (lexer_left l))") (auto simp: cur_in_get)

definition scan_number_decimal1 :: "lexer \<Rightarrow> number_outcome" where
  "scan_number_decimal1 l =
     (let l = lexer_get l
      in if cur_in l digits09 then scan_number_decimal2 T_value_float (add_current l)
         else Inl (l\<lparr>error_message := ''invalid number; expected digit after '' @ [CHR 0x27, CHR ''.'', CHR 0x27]\<rparr>))"

function scan_number_any1 :: "token_type \<Rightarrow> lexer \<Rightarrow> number_outcome" where
  "scan_number_any1 ty l =
     (if cur_in (lexer_get l) digits09 then scan_number_any1 ty (add_current (lexer_get l))
      else if cur_in (lexer_get l) ''.'' then scan_number_decimal1 (lexer_add get_decimal_point (lexer_get l))
      else if cur_in (lexer_get l) ''eE'' then scan_number_exponent (add_current (lexer_get l))
      else Inr (ty, lexer_get l))"
  by pat_completeness auto
termination
  by (relation "measure (\<lambda>(ty, l). length (lexer_left l))") (auto simp: cur_in_get)

definition scan_number_zero :: "token_type \<Rightarrow> lexer \<Rightarrow> number_outcome" where
  "scan_number_zero ty l =
     (let l = lexer_get l
      in if cur_in l ''.'' then scan_number_decimal1 (lexer_add get_decimal_point l)
         else if cur_in l ''eE'' then scan_number_exponent (add_current l)
         else Inr (ty, l))"

definition scan_number_minus :: "lexer \<Rightarrow> number_outcome" where
  "scan_number_minus l =
     (let l = lexer_get l
      in if cur_in l ''0'' then scan_number_zero T_value_integer (add_current l)
         else if cur_in l ''123456789'' then scan_number_any1 T_value_integer (add_current l)
         else Inl (l\<lparr>error_message := ''invalid number; expected digit after '' @ [CHR 0x27, CHR ''-'', CHR 0x27]\<rparr>))"

declare scan_number_any2.simps [simp del] scan_number_decimal2.simps [simp del] scan_number_any1.simps [simp del]

definition scan_float :: "lexer \<Rightarrow> (token_type \<times> lexer) res" where
  "scan_float l =
     (let (x, n) = strtod (token_buffer l)
      in asserting (n = length (token_buffer l)) (Inr (T_value_float, l\<lparr>value_float := x\<rparr>)))"

definition scan_number_done :: "token_type \<Rightarrow> lexer \<Rightarrow> (token_type \<times> lexer) res" where
  "scan_number_done number_type l =
     bind_res (lexer_unget l) (\<lambda>l.
     if number_type = T_value_unsigned
     then (let (x, n, erange) = strtoull (token_buffer l)
           in asserting (n = length (token_buffer l))
              (if \<not> erange then Inr (T_value_unsigned, l\<lparr>value_unsigned := x\<rparr>) else scan_float l))
     else if number_type = T_value_integer
     then (let (x, n, erange) = strtoll (token_buffer l)
           in asserting (n = length (token_buffer l))
              (if \<not> erange then Inr (T_value_integer, l\<lparr>value_integer := x\<rparr>) else scan_float l))
     else scan_float l)"

definition scan_number :: "lexer \<Rightarrow> (token_type \<times> lexer) res" where
  "scan_number l =
     (let l = lexer_reset l
      in asserting (cur_in l (CHR ''-'' # digits09))
         (case (if cur_in l ''-'' then scan_number_minus (add_current l)
                else if cur_in l ''0'' then scan_number_zero T_value_unsigned (add_current l)
                else scan_number_any1 T_value_unsigned (add_current l)) of
            Inl l \<Rightarrow> Inr (T_parse_error, l)
          | Inr (number_type, l) \<Rightarrow> scan_number_done number_type l))"

section \<open>Literals and the scanner\<close>

fun scan_literal_loop :: "string \<Rightarrow> token_type \<Rightarrow> lexer \<Rightarrow> token_type \<times> lexer" where
  "scan_literal_loop [] return_type l = (return_type, l)"
| "scan_literal_loop (c # cs) return_type l =
     (let l = lexer_get l
      in if lx_current l \<noteq> Some c then (T_parse_error, l\<lparr>error_message := ''invalid literal''\<rparr>)
         else scan_literal_loop cs return_type l)"

definition scan_literal :: "string \<Rightarrow> token_type \<Rightarrow> lexer \<Rightarrow> (token_type \<times> lexer) res" where
  "scan_literal literal_text return_type l =
     asserting (lx_current l = Some (hd literal_text))
     (Inr (scan_literal_loop (tl literal_text) return_type l))"

function skip_whitespace :: "lexer \<Rightarrow> lexer" where
  "skip_whitespace l =
     (if cur_in (lexer_get l) [CHR 0x20, CHR 0x09, CHR 0x0A, CHR 0x0D] then skip_whitespace (lexer_get l)
      else lexer_get l)"
  by pat_completeness auto
termination
  by (relation "measure (length \<circ> lexer_left)") (auto simp: cur_in_get)

declare skip_whitespace.simps [simp del]

definition scan_token :: "lexer \<Rightarrow> (token_type \<times> lexer) res" where
  "scan_token l =
     (case lx_current l of
        None \<Rightarrow> Inr (T_end_of_input, l)
      | Some c \<Rightarrow>
          (if c = CHR ''['' then Inr (T_begin_array, l)
           else if c = CHR '']'' then Inr (T_end_array, l)
           else if c = CHR ''{'' then Inr (T_begin_object, l)
           else if c = CHR ''}'' then Inr (T_end_object, l)
           else if c = CHR '':'' then Inr (T_name_separator, l)
           else if c = CHR '','' then Inr (T_value_separator, l)
           else if c = CHR ''t'' then scan_literal ''true'' T_literal_true l
           else if c = CHR ''f'' then scan_literal ''false'' T_literal_false l
           else if c = CHR ''n'' then scan_literal ''null'' T_literal_null l
           else if c = CHR 0x22 then scan_string l
           else if c = CHR ''-'' \<or> c \<in> set digits09 then scan_number l
           else if c = CHR 0x00 then Inr (T_end_of_input, l)
           else Inr (T_parse_error, l\<lparr>error_message := ''invalid literal''\<rparr>)))"

definition scan :: "lexer \<Rightarrow> (token_type \<times> lexer) res" where
  "scan l = scan_token (skip_whitespace l)"

section \<open>Diagnostics\<close>

definition get_position :: "lexer \<Rightarrow> nat" where
  "get_position l = chars_read l"

definition toupper_hex :: "char \<Rightarrow> char" where
  "toupper_hex c = (if 97 \<le> (of_char c :: nat) then char_of (of_char c - 32 :: nat) else c)"

definition escape_control :: "char \<Rightarrow> string" where
  "escape_control c =
     (if (of_char c :: nat) \<le> 0x1F
      then ''<U+'' @ pad_left 4 CHR ''0'' (map toupper_hex (show_hex (of_char c))) @ ''>'' else [c])"

definition get_token_string :: "lexer \<Rightarrow> string" where
  "get_token_string l = concat (map escape_control (token_string l))"

end
