(* ===== verification/Json_Parser.thy ===== *)
theory Json_Parser
  imports Json_Lexer Json_Value
begin

text \<open>
  The class \<open>parser\<close> of \<open>externals/json-3.1.2/json.h\<close> with the callback of \<open>parser_callback_t\<close>, the
  recursive descents \<open>parse_internal\<close> and \<open>accept_internal\<close> with their loops over members and elements,
  and \<open>basic_json::parse\<close> and \<open>accept\<close>.  A callback may change the value it is given and has a state
  of its own.  The recursion is bounded by fuel; running out of it is \<open>Undefined_behaviour\<close> (unbounded
  recursion), and \<open>Json_Parser_Properties\<close> shows that it does not happen.
\<close>

section \<open>The state\<close>

datatype parse_event_t = E_object_start | E_object_end | E_array_start | E_array_end | E_key | E_value

type_synonym 's parser_callback_t = "int \<Rightarrow> parse_event_t \<Rightarrow> json \<Rightarrow> 's \<Rightarrow> bool \<times> json \<times> 's"

record 's parser =
  p_depth :: int
  p_callback :: "'s parser_callback_t option"
  p_last_token :: token_type
  p_lexer :: lexer
  p_errored :: bool
  p_expected :: token_type
  p_allow_exceptions :: bool
  p_callback_state :: 's

definition parser_new :: "input_adapter \<Rightarrow> 's parser_callback_t option \<Rightarrow> 's \<Rightarrow> bool \<Rightarrow> 's parser" where
  "parser_new adapter cb s allow =
     \<lparr>p_depth = 0, p_callback = cb, p_last_token = T_uninitialized, p_lexer = lexer_new adapter,
      p_errored = False, p_expected = T_uninitialized, p_allow_exceptions = allow, p_callback_state = s\<rparr>"

section \<open>Tokens and errors\<close>

definition get_token :: "'s parser \<Rightarrow> 's parser res" where
  "get_token p =
     bind_res (scan (p_lexer p)) (\<lambda>(t, l). Inr (p\<lparr>p_lexer := l, p_last_token := t\<rparr>))"

definition syntax_error_message :: "'s parser \<Rightarrow> string" where
  "syntax_error_message p =
     ''syntax error - ''
     @ (if p_last_token p = T_parse_error
        then error_message (p_lexer p) @ ''; last read: '' @ [CHR 0x27] @ get_token_string (p_lexer p) @ [CHR 0x27]
        else ''unexpected '' @ token_type_name (p_last_token p))
     @ (if p_expected p \<noteq> T_uninitialized then ''; expected '' @ token_type_name (p_expected p) else [])"

definition throw_exception :: "'s parser \<Rightarrow> failure" where
  "throw_exception p = Parse_error 101 (get_position (p_lexer p)) (syntax_error_message p)"

definition expect :: "token_type \<Rightarrow> 's parser \<Rightarrow> (bool \<times> 's parser) res" where
  "expect t p =
     (if t \<noteq> p_last_token p
      then (let p = p\<lparr>p_errored := True, p_expected := t\<rparr>
            in if p_allow_exceptions p then Inl (throw_exception p) else Inr (False, p))
      else Inr (True, p))"

definition call_callback :: "parse_event_t \<Rightarrow> json \<Rightarrow> 's parser \<Rightarrow> bool \<times> json \<times> 's parser" where
  "call_callback ev v p =
     (case p_callback p of
        None \<Rightarrow> (True, v, p)
      | Some cb \<Rightarrow>
          (case cb (p_depth p) ev v (p_callback_state p) of
             (keep, v', s) \<Rightarrow> (keep, v', p\<lparr>p_callback_state := s\<rparr>)))"

section \<open>parse_internal\<close>

text \<open>The start of an object or an array: the callback decides whether it is kept.\<close>

definition container_start :: "parse_event_t \<Rightarrow> json \<Rightarrow> bool \<Rightarrow> 's parser \<Rightarrow> bool \<times> json \<times> 's parser" where
  "container_start ev fresh keep p =
     (if \<not> keep then (False, JDiscarded, p)
      else if p_callback p = None then (True, fresh, p)
      else (case call_callback ev JDiscarded p of
              (keep, v, p) \<Rightarrow> (keep, if keep then fresh else v, p\<lparr>p_depth := p_depth p + 1\<rparr>)))"

text \<open>Its end: the test \<open>callback and not callback(--depth, ...)\<close>.\<close>

definition container_end :: "parse_event_t \<Rightarrow> bool \<Rightarrow> json \<Rightarrow> 's parser \<Rightarrow> json \<times> 's parser" where
  "container_end ev keep v p =
     (if keep \<and> p_callback p \<noteq> None
      then (case call_callback ev v (p\<lparr>p_depth := p_depth p - 1\<rparr>) of
              (ok, v', p) \<Rightarrow> (if ok then v' else JDiscarded, p))
      else (v, p))"

definition value_event :: "bool \<Rightarrow> json \<times> 's parser \<Rightarrow> json \<times> 's parser" where
  "value_event keep r =
     (case r of (v, p) \<Rightarrow>
        if keep \<and> p_callback p \<noteq> None
        then (case call_callback E_value v p of (ok, v', p) \<Rightarrow> (if ok then v' else JDiscarded, p))
        else (v, p))"

definition emplace_member :: "string \<Rightarrow> json \<Rightarrow> json \<Rightarrow> json res" where
  "emplace_member k v result =
     (case result of
        JObject kvs \<Rightarrow> Inr (JObject (om_emplace k v kvs))
      | _ \<Rightarrow> Inl (Undefined_behaviour ''member of a value that is no object''))"

definition append_element :: "json \<Rightarrow> json \<Rightarrow> json res" where
  "append_element v result =
     (case result of
        JArray xs \<Rightarrow> Inr (JArray (xs @ [v]))
      | _ \<Rightarrow> Inl (Undefined_behaviour ''element of a value that is no array''))"

text \<open>The tokens that are values by themselves, and those that are errors.\<close>

definition parse_float :: "'s parser \<Rightarrow> (bool \<times> json \<times> 's parser) res" where
  "parse_float p =
     (let x = value_float (p_lexer p)
      in if isfinite x then Inr (True, JFloat x, p)
         else if p_allow_exceptions p
         then Inl (Json_out_of_range 406
                (''number overflow parsing '' @ [CHR 0x27] @ get_token_string (p_lexer p) @ [CHR 0x27]))
         else bind_res (expect T_uninitialized p) (\<lambda>(_, p). Inr (True, JFloat x, p)))"

definition parse_scalar :: "'s parser \<Rightarrow> (bool \<times> json \<times> 's parser) res" where
  "parse_scalar p =
     (case p_last_token p of
        T_literal_null \<Rightarrow> Inr (True, JNull, p)
      | T_value_string \<Rightarrow> Inr (True, JString (token_buffer (p_lexer p)), p)
      | T_literal_true \<Rightarrow> Inr (True, JBoolean True, p)
      | T_literal_false \<Rightarrow> Inr (True, JBoolean False, p)
      | T_value_unsigned \<Rightarrow> Inr (True, JUnsigned (value_unsigned (p_lexer p)), p)
      | T_value_integer \<Rightarrow> Inr (True, JInteger (value_integer (p_lexer p)), p)
      | T_value_float \<Rightarrow> parse_float p
      | T_parse_error \<Rightarrow> bind_res (expect T_uninitialized p) (\<lambda>(ok, p). Inr (ok, JDiscarded, p))
      | _ \<Rightarrow> bind_res (expect T_literal_or_value p) (\<lambda>(ok, p). Inr (ok, JDiscarded, p)))"

text \<open>
  The Boolean in a result is false where the code returns from \<open>parse_internal\<close> at once.
\<close>

fun parse_internal :: "nat \<Rightarrow> bool \<Rightarrow> 's parser \<Rightarrow> (json \<times> 's parser) res"
and parse_members :: "nat \<Rightarrow> bool \<Rightarrow> json \<Rightarrow> 's parser \<Rightarrow> (bool \<times> json \<times> 's parser) res"
and parse_elements :: "nat \<Rightarrow> bool \<Rightarrow> json \<Rightarrow> 's parser \<Rightarrow> (bool \<times> json \<times> 's parser) res" where
  "parse_internal 0 keep p = Inl (Undefined_behaviour ''unbounded recursion'')"
| "parse_internal (Suc n) keep p =
     asserting (\<not> p_errored p)
     (if p_last_token p = T_begin_object
      then (case container_start E_object_start (JObject []) keep p of (keep, result, p) \<Rightarrow>
            bind_res (get_token p) (\<lambda>p.
            if p_last_token p = T_end_object
            then Inr (value_event keep (container_end E_object_end keep result p))
            else bind_res (parse_members n keep result p) (\<lambda>(ok, result, p).
                 Inr (if ok then value_event keep (container_end E_object_end keep result p) else (result, p)))))
      else if p_last_token p = T_begin_array
      then (case container_start E_array_start (JArray []) keep p of (keep, result, p) \<Rightarrow>
            bind_res (get_token p) (\<lambda>p.
            if p_last_token p = T_end_array
            then Inr (value_event keep (container_end E_array_end True result p))
            else bind_res (parse_elements n keep result p) (\<lambda>(ok, result, p).
                 Inr (if ok then value_event keep (container_end E_array_end keep result p) else (result, p)))))
      else bind_res (parse_scalar p) (\<lambda>(ok, result, p).
           Inr (if ok then value_event keep (result, p) else (result, p))))"
| "parse_members 0 keep result p = Inl (Undefined_behaviour ''unbounded recursion'')"
| "parse_members (Suc n) keep result p =
     bind_res (expect T_value_string p) (\<lambda>(ok, p).
     if \<not> ok then Inr (False, result, p)
     else (let key = token_buffer (p_lexer p)
           in case (if keep then call_callback E_key (JString key) p else (False, JNull, p)) of (keep_tag, _, p) \<Rightarrow>
              bind_res (get_token p) (\<lambda>p.
              bind_res (expect T_name_separator p) (\<lambda>(ok, p).
              if \<not> ok then Inr (False, result, p)
              else bind_res (get_token p) (\<lambda>p.
                   bind_res (parse_internal n keep p) (\<lambda>(v, p).
                   if p_errored p then Inr (False, result, p)
                   else bind_res (if keep \<and> keep_tag \<and> v \<noteq> JDiscarded then emplace_member key v result
                                  else Inr result) (\<lambda>result.
                        bind_res (get_token p) (\<lambda>p.
                        if p_last_token p = T_value_separator
                        then bind_res (get_token p) (\<lambda>p. parse_members n keep result p)
                        else bind_res (expect T_end_object p) (\<lambda>(ok, p). Inr (ok, result, p))))))))))"
| "parse_elements 0 keep result p = Inl (Undefined_behaviour ''unbounded recursion'')"
| "parse_elements (Suc n) keep result p =
     bind_res (parse_internal n keep p) (\<lambda>(v, p).
     if p_errored p then Inr (False, result, p)
     else bind_res (if keep \<and> v \<noteq> JDiscarded then append_element v result else Inr result) (\<lambda>result.
          bind_res (get_token p) (\<lambda>p.
          if p_last_token p = T_value_separator
          then bind_res (get_token p) (\<lambda>p. parse_elements n keep result p)
          else bind_res (expect T_end_array p) (\<lambda>(ok, p). Inr (ok, result, p)))))"

declare parse_internal.simps [simp del] parse_members.simps [simp del] parse_elements.simps [simp del]

text \<open>A descent reads at least a character for every two calls.\<close>

definition parser_fuel :: "'s parser \<Rightarrow> nat" where
  "parser_fuel p = 2 * length (lexer_left (p_lexer p)) + 3"

definition parser_parse :: "bool \<Rightarrow> 's parser \<Rightarrow> json res" where
  "parser_parse strict p =
     bind_res (get_token p) (\<lambda>p.
     bind_res (parse_internal (parser_fuel p) True p) (\<lambda>(result, p).
     bind_res (if strict
               then bind_res (get_token p) (\<lambda>p. bind_res (expect T_end_of_input p) (\<lambda>(_, p). Inr p))
               else Inr p) (\<lambda>p.
     if p_errored p then Inr JDiscarded
     else Inr (if result = JDiscarded then JNull else result))))"

section \<open>accept_internal\<close>

fun accept_internal :: "nat \<Rightarrow> 's parser \<Rightarrow> (bool \<times> 's parser) res"
and accept_members :: "nat \<Rightarrow> 's parser \<Rightarrow> (bool \<times> 's parser) res"
and accept_elements :: "nat \<Rightarrow> 's parser \<Rightarrow> (bool \<times> 's parser) res" where
  "accept_internal 0 p = Inl (Undefined_behaviour ''unbounded recursion'')"
| "accept_internal (Suc n) p =
     (if p_last_token p = T_begin_object
      then bind_res (get_token p) (\<lambda>p.
           if p_last_token p = T_end_object then Inr (True, p) else accept_members n p)
      else if p_last_token p = T_begin_array
      then bind_res (get_token p) (\<lambda>p.
           if p_last_token p = T_end_array then Inr (True, p) else accept_elements n p)
      else if p_last_token p = T_value_float then Inr (isfinite (value_float (p_lexer p)), p)
      else Inr (p_last_token p \<in> {T_literal_false, T_literal_null, T_literal_true, T_value_integer,
                  T_value_string, T_value_unsigned}, p))"
| "accept_members 0 p = Inl (Undefined_behaviour ''unbounded recursion'')"
| "accept_members (Suc n) p =
     (if p_last_token p \<noteq> T_value_string then Inr (False, p)
      else bind_res (get_token p) (\<lambda>p.
           if p_last_token p \<noteq> T_name_separator then Inr (False, p)
           else bind_res (get_token p) (\<lambda>p.
                bind_res (accept_internal n p) (\<lambda>(ok, p).
                if \<not> ok then Inr (False, p)
                else bind_res (get_token p) (\<lambda>p.
                     if p_last_token p = T_value_separator
                     then bind_res (get_token p) (\<lambda>p. accept_members n p)
                     else Inr (p_last_token p = T_end_object, p))))))"
| "accept_elements 0 p = Inl (Undefined_behaviour ''unbounded recursion'')"
| "accept_elements (Suc n) p =
     bind_res (accept_internal n p) (\<lambda>(ok, p).
     if \<not> ok then Inr (False, p)
     else bind_res (get_token p) (\<lambda>p.
          if p_last_token p = T_value_separator
          then bind_res (get_token p) (\<lambda>p. accept_elements n p)
          else Inr (p_last_token p = T_end_array, p)))"

declare accept_internal.simps [simp del] accept_members.simps [simp del] accept_elements.simps [simp del]

definition parser_accept :: "bool \<Rightarrow> 's parser \<Rightarrow> bool res" where
  "parser_accept strict p =
     bind_res (get_token p) (\<lambda>p.
     bind_res (accept_internal (parser_fuel p) p) (\<lambda>(ok, p).
     if \<not> ok then Inr False
     else if \<not> strict then Inr True
     else bind_res (get_token p) (\<lambda>p. Inr (p_last_token p = T_end_of_input))))"

section \<open>basic_json::parse and accept\<close>

definition json_parse :: "input_adapter \<Rightarrow> 's parser_callback_t option \<Rightarrow> 's \<Rightarrow> bool \<Rightarrow> json res" where
  "json_parse i cb s allow_exceptions = parser_parse True (parser_new i cb s allow_exceptions)"

definition json_accept :: "input_adapter \<Rightarrow> bool res" where
  "json_accept i = parser_accept True (parser_new i None () True)"

text \<open>The usual call: no callback, exceptions allowed.\<close>

definition json_parse_text :: "input_adapter \<Rightarrow> json res" where
  "json_parse_text i = json_parse i None () True"

end
