(* ===== verification/Json_Lexer_Numbers.thy ===== *)
theory Json_Lexer_Numbers
  imports Json_Lexer Json_Value
begin

text \<open>
  The number scanner of the JSON lexer: it accepts the longest prefix of its input that is a number of the
  JSON grammar, fails on any other input, passes its assertions, and its token carries the value of the
  number.  \<open>jumps\<close> and \<open>fails\<close> describe what a label of the scanner does.
\<close>

unbundle bit_operations_syntax

section \<open>Reading and giving back\<close>

lemma lexer_unget_get:
  "\<exists>l'. lexer_unget (lexer_get l) = Inr l' \<and> lexer_left l' = lexer_left l \<and> token_buffer l' = token_buffer l"
proof (cases "lexer_left l")
  case Nil
  then have "adapter_remaining (snd (get_character (lx_ia l))) = []"
    by (simp add: lexer_left_def adapter.remaining_get)
  with Nil show ?thesis
    by (simp add: lexer_unget_def) (simp add: lexer_left_def lexer_get_def case_prod_unfold Let_def)
next
  case (Cons c s)
  then have "fst (get_character (lx_ia l)) = Some c" "unget_character (snd (get_character (lx_ia l))) = lx_ia l"
    using adapter.get_Cons [of "lx_ia l" c s] by (simp_all add: lexer_left_def)
  then show ?thesis
    by (simp add: lexer_unget_def lexer_get_def case_prod_unfold Let_def lexer_left_def)
qed

lemma current_byte_get [simp]: "lexer_left l = c # s \<Longrightarrow> current_byte (lexer_get l) = c"
  by (simp add: current_byte_def)

lemma in_digits09 [simp]: "c \<in> set digits09 \<longleftrightarrow> is_digit c"
proof
  assume c: "is_digit c"
  define d where "d = (of_char c :: nat) - 48"
  have d: "c = digit_char d" "d < 10" using c by (auto simp: d_def is_digit_def digit_char_def)
  then have "d = 0 \<or> d = 1 \<or> d = 2 \<or> d = 3 \<or> d = 4 \<or> d = 5 \<or> d = 6 \<or> d = 7 \<or> d = 8 \<or> d = 9" by presburger
  with d(1) show "c \<in> set digits09" by (elim disjE) (simp_all add: digits09_def)
qed (auto simp: is_digit_def digits09_def)

section \<open>Numbers\<close>

text \<open>
  The label ends with the jump to \<open>scan_number_done\<close> after the text \<open>w\<close>, with \<open>r\<close> left; or with an error.
\<close>

definition jumps :: "token_type \<Rightarrow> string \<Rightarrow> string \<Rightarrow> lexer \<Rightarrow> number_outcome \<Rightarrow> bool" where
  "jumps ty w r l out \<longleftrightarrow>
     (\<exists>l0. out = Inr (ty, lexer_get l0) \<and> token_buffer l0 = token_buffer l @ w \<and> lexer_left l0 = r)"

definition fails :: "lexer \<Rightarrow> number_outcome \<Rightarrow> bool" where
  "fails l out \<longleftrightarrow> (\<exists>l'. out = Inl l' \<and> length (lexer_left l') \<le> length (lexer_left l))"

definition stops :: "string \<Rightarrow> string \<Rightarrow> bool" where
  "stops cs r \<longleftrightarrow> (case r of [] \<Rightarrow> True | c # _ \<Rightarrow> c \<notin> set cs)"

definition exp_text :: "string \<Rightarrow> bool" where
  "exp_text e \<longleftrightarrow> e = [] \<or> (\<exists>c sg ds. e = c # sg @ ds \<and> c \<in> set ''eE'' \<and> sg \<in> {[], ''+'', ''-''}
     \<and> ds \<noteq> [] \<and> digits_text ds)"

definition frac_text :: "string \<Rightarrow> bool" where
  "frac_text f \<longleftrightarrow> f = [] \<or> (\<exists>ds. f = CHR ''.'' # ds \<and> ds \<noteq> [] \<and> digits_text ds)"

definition tail_stops :: "string \<Rightarrow> string \<Rightarrow> string \<Rightarrow> bool" where
  "tail_stops f e r \<longleftrightarrow>
     (if e \<noteq> [] then stops digits09 r else if f \<noteq> [] then stops (digits09 @ ''eE'') r else stops ''.eE'' r)"

lemma cur_in_stops: "cur_in (lexer_get l) cs \<longleftrightarrow> \<not> stops cs (lexer_left l)"
  by (auto simp: cur_in_get stops_def split: list.splits)

lemma stops_Cons [simp]: "stops cs (c # r) \<longleftrightarrow> c \<notin> set cs" and stops_Nil [simp]: "stops cs []"
  by (simp_all add: stops_def)

lemma not_stopsE:
  assumes "\<not> stops cs s"
  obtains c r where "s = c # r" "c \<in> set cs"
  using assms by (cases s) simp_all

lemma jumps_add:
  "lexer_left l = c # s \<Longrightarrow> jumps ty w r (add_current (lexer_get l)) out \<Longrightarrow> jumps ty (c # w) r l out"
  by (auto simp: jumps_def)

lemma fails_tl: "fails l1 out \<Longrightarrow> lexer_left l1 = tl (lexer_left l) \<Longrightarrow> fails l out"
  by (auto simp: fails_def)

lemma split_digits: "\<exists>ds r. s = ds @ r \<and> digits_text ds \<and> stops digits09 r"
proof (intro exI conjI)
  show "s = takeWhile is_digit s @ dropWhile is_digit s" by simp
  show "digits_text (takeWhile is_digit s)" by (auto simp: digits_text_def list_all_iff dest: set_takeWhileD)
  show "stops digits09 (dropWhile is_digit s)"
  proof (cases "dropWhile is_digit s")
    case Nil
    show ?thesis unfolding Nil by simp
  next
    case (Cons c r)
    then have "\<not> is_digit c" using hd_dropWhile_not [of is_digit s] by simp
    then show ?thesis unfolding Cons by simp
  qed
qed

lemma any2_jumps:
  "lexer_left l = ds @ r \<Longrightarrow> digits_text ds \<Longrightarrow> stops digits09 r \<Longrightarrow> jumps ty ds r l (scan_number_any2 ty l)"
proof (induction ds arbitrary: l)
  case Nil
  then show ?case
    by (subst scan_number_any2.simps) (auto simp: cur_in_stops jumps_def)
next
  case (Cons c ds)
  have "jumps ty ds r (add_current (lexer_get l)) (scan_number_any2 ty (add_current (lexer_get l)))"
    using Cons by simp
  then have "jumps ty (c # ds) r l (scan_number_any2 ty (add_current (lexer_get l)))"
    using Cons.prems(1) by (simp add: jumps_add)
  moreover have "is_digit c" using Cons.prems(2) by simp
  ultimately show ?case
    using Cons.prems(1) by (subst scan_number_any2.simps) (simp add: cur_in_stops)
qed

lemma sign_jumps:
  assumes "lexer_left l = ds @ r" "digits_text ds" "ds \<noteq> []" "stops digits09 r"
  shows "jumps ty ds r l (scan_number_sign ty l)"
proof -
  obtain c cs where ds: "ds = c # cs" using assms(3) by (cases ds) auto
  have "jumps ty cs r (add_current (lexer_get l)) (scan_number_any2 ty (add_current (lexer_get l)))"
    using assms by (intro any2_jumps) (simp_all add: ds)
  then have "jumps ty ds r l (scan_number_any2 ty (add_current (lexer_get l)))"
    using assms(1) unfolding ds by (intro jumps_add) simp_all
  moreover have "is_digit c" using assms(2) by (simp add: ds)
  ultimately show ?thesis
    using assms(1) by (simp add: scan_number_sign_def cur_in_stops Let_def ds)
qed

lemma exponent_jumps:
  assumes "lexer_left l = sg @ ds @ r" "sg \<in> {[], ''+'', ''-''}" "digits_text ds" "ds \<noteq> []" "stops digits09 r"
  shows "jumps T_value_float (sg @ ds) r l (scan_number_exponent l)"
proof (cases sg)
  case Nil
  obtain c cs where ds: "ds = c # cs" using assms(4) by (cases ds) auto
  have "jumps T_value_float cs r (add_current (lexer_get l)) (scan_number_any2 T_value_float (add_current (lexer_get l)))"
    using assms by (intro any2_jumps) (simp_all add: ds Nil)
  then have "jumps T_value_float ds r l (scan_number_any2 T_value_float (add_current (lexer_get l)))"
    using assms(1) unfolding ds Nil by (intro jumps_add) simp_all
  moreover have "is_digit c" using assms(3) by (simp add: ds)
  moreover from this have "stops ''+-'' (c # cs @ r)" by (auto simp: is_digit_def)
  ultimately show ?thesis
    using assms(1) unfolding scan_number_exponent_def Let_def cur_in_stops
    by (simp add: ds Nil)
next
  case (Cons c s)
  then have c: "sg = [c]" "c \<in> set ''+-''" using assms(2) by auto
  have "jumps T_value_float ds r (add_current (lexer_get l)) (scan_number_sign T_value_float (add_current (lexer_get l)))"
    using assms by (intro sign_jumps) (simp_all add: c)
  then have "jumps T_value_float (sg @ ds) r l (scan_number_sign T_value_float (add_current (lexer_get l)))"
    using assms(1) unfolding c append_Cons append_Nil by (intro jumps_add) simp_all
  then show ?thesis
    using assms(1) c(2) unfolding scan_number_exponent_def Let_def cur_in_stops by (simp add: c(1))
qed

lemma exp_jumps:
  assumes "lexer_left l = c # e @ r" "exp_text (c # e)" "stops digits09 r"
  shows "jumps T_value_float (c # e) r l (scan_number_exponent (add_current (lexer_get l)))"
proof (rule jumps_add)
  obtain sg ds where e: "e = sg @ ds" "sg \<in> {[], ''+'', ''-''}" "ds \<noteq> []" "digits_text ds"
    using assms(2) by (auto simp: exp_text_def)
  show "jumps T_value_float e r (add_current (lexer_get l)) (scan_number_exponent (add_current (lexer_get l)))"
    unfolding e(1) using assms(1,3) e by (intro exponent_jumps) simp_all
qed (rule assms(1))

lemma exp_text_Cons: "exp_text (c # e) \<Longrightarrow> c \<in> set ''eE''"
  by (auto simp: exp_text_def)

lemma not_digit [simp]:
  "\<not> is_digit CHR ''e''" "\<not> is_digit CHR ''E''" "\<not> is_digit CHR ''.''" "\<not> is_digit CHR ''-''"
  by (simp_all add: is_digit_def)

lemma decimal2_jumps:
  "lexer_left l = ds @ e @ r \<Longrightarrow> digits_text ds \<Longrightarrow> exp_text e
    \<Longrightarrow> stops (if e = [] then digits09 @ ''eE'' else digits09) r
    \<Longrightarrow> jumps (if e = [] then ty else T_value_float) (ds @ e) r l (scan_number_decimal2 ty l)"
proof (induction ds arbitrary: l)
  case Nil
  show ?case
  proof (cases e)
    case e: Nil
    with Nil show ?thesis
      by (subst scan_number_decimal2.simps) (auto simp: cur_in_stops jumps_def stops_def split: list.splits)
  next
    case (Cons c e')
    with Nil exp_jumps [of l c e' r] exp_text_Cons [of c e'] show ?thesis
      by (subst scan_number_decimal2.simps) (auto simp: cur_in_stops)
  qed
next
  case (Cons c ds)
  have "jumps (if e = [] then ty else T_value_float) (ds @ e) r (add_current (lexer_get l))
      (scan_number_decimal2 ty (add_current (lexer_get l)))"
    using Cons by simp
  then have "jumps (if e = [] then ty else T_value_float) (c # ds @ e) r l (scan_number_decimal2 ty (add_current (lexer_get l)))"
    using Cons.prems(1) by (simp add: jumps_add)
  moreover have "is_digit c" using Cons.prems(2) by simp
  ultimately show ?case
    using Cons.prems(1) by (subst scan_number_decimal2.simps) (simp add: cur_in_stops)
qed

lemma decimal1_jumps:
  assumes "lexer_left l = ds @ e @ r" "digits_text ds" "ds \<noteq> []" "exp_text e"
    "stops (if e = [] then digits09 @ ''eE'' else digits09) r"
  shows "jumps T_value_float (ds @ e) r l (scan_number_decimal1 l)"
proof -
  obtain c cs where ds: "ds = c # cs" using assms(3) by (cases ds) auto
  have "jumps T_value_float (cs @ e) r (add_current (lexer_get l)) (scan_number_decimal2 T_value_float (add_current (lexer_get l)))"
    using assms decimal2_jumps [of "add_current (lexer_get l)" cs e r T_value_float] by (simp add: ds split: if_splits)
  then have "jumps T_value_float (ds @ e) r l (scan_number_decimal2 T_value_float (add_current (lexer_get l)))"
    using assms(1) unfolding ds append_Cons by (intro jumps_add) simp_all
  moreover have "is_digit c" using assms(2) by (simp add: ds)
  ultimately show ?thesis
    using assms(1) by (simp add: scan_number_decimal1_def cur_in_stops Let_def ds)
qed

text \<open>The common end of the states zero and any1: an optional fraction and an optional exponent.\<close>

definition scan_tail :: "token_type \<Rightarrow> lexer \<Rightarrow> number_outcome" where
  "scan_tail ty l =
     (if cur_in (lexer_get l) ''.'' then scan_number_decimal1 (lexer_add get_decimal_point (lexer_get l))
      else if cur_in (lexer_get l) ''eE'' then scan_number_exponent (add_current (lexer_get l))
      else Inr (ty, lexer_get l))"

lemma zero_tail: "scan_number_zero = scan_tail"
  by (simp add: scan_number_zero_def scan_tail_def fun_eq_iff Let_def)

lemma tail_jumps:
  assumes "lexer_left l = f @ e @ r" "frac_text f" "exp_text e" "tail_stops f e r"
  shows "jumps (if f = [] \<and> e = [] then ty else T_value_float) (f @ e) r l (scan_tail ty l)"
proof (cases f)
  case f: Nil
  show ?thesis
  proof (cases e)
    case Nil
    with f assms show ?thesis
      by (auto simp: scan_tail_def cur_in_stops jumps_def tail_stops_def stops_def split: list.splits)
  next
    case (Cons c e')
    with f assms exp_jumps [of l c e' r] exp_text_Cons [of c e'] show ?thesis
      by (auto simp: scan_tail_def cur_in_stops tail_stops_def)
  qed
next
  case (Cons c ds)
  then have ds: "f = CHR ''.'' # ds" "ds \<noteq> []" "digits_text ds" using assms(2) by (auto simp: frac_text_def)
  have "jumps T_value_float (ds @ e) r (lexer_add get_decimal_point (lexer_get l))
      (scan_number_decimal1 (lexer_add get_decimal_point (lexer_get l)))"
    using assms by (intro decimal1_jumps) (simp_all add: ds tail_stops_def split: if_splits)
  then have "jumps T_value_float (f @ e) r l (scan_number_decimal1 (lexer_add get_decimal_point (lexer_get l)))"
    by (auto simp: jumps_def ds get_decimal_point_def)
  then show ?thesis using assms(1) by (simp add: scan_tail_def cur_in_stops ds)
qed

lemma any1_jumps:
  "lexer_left l = ds @ f @ e @ r \<Longrightarrow> digits_text ds \<Longrightarrow> frac_text f \<Longrightarrow> exp_text e \<Longrightarrow> tail_stops f e r
    \<Longrightarrow> stops digits09 (f @ e @ r)
    \<Longrightarrow> jumps (if f = [] \<and> e = [] then ty else T_value_float) (ds @ f @ e) r l (scan_number_any1 ty l)"
proof (induction ds arbitrary: l)
  case Nil
  then have "jumps (if f = [] \<and> e = [] then ty else T_value_float) (f @ e) r l (scan_tail ty l)"
    by (intro tail_jumps) simp_all
  moreover have "scan_number_any1 ty l = scan_tail ty l"
    using Nil by (subst scan_number_any1.simps) (simp add: cur_in_stops scan_tail_def)
  ultimately show ?case by simp
next
  case (Cons c ds)
  have "jumps (if f = [] \<and> e = [] then ty else T_value_float) (ds @ f @ e) r (add_current (lexer_get l))
      (scan_number_any1 ty (add_current (lexer_get l)))"
    using Cons by simp
  then have "jumps (if f = [] \<and> e = [] then ty else T_value_float) (c # ds @ f @ e) r l
      (scan_number_any1 ty (add_current (lexer_get l)))"
    using Cons.prems(1) by (simp add: jumps_add)
  moreover have "is_digit c" using Cons.prems(2) by simp
  ultimately show ?case
    using Cons.prems(1) by (subst scan_number_any1.simps) (simp add: cur_in_stops)
qed

text \<open>The texts after which the labels jump; after any other text they fail.\<close>

definition good_exp :: "string \<Rightarrow> bool" where
  "good_exp s \<longleftrightarrow> (\<exists>sg ds r. s = sg @ ds @ r \<and> sg \<in> {[], ''+'', ''-''} \<and> digits_text ds \<and> ds \<noteq> []
     \<and> stops digits09 r)"

definition good_frac :: "string \<Rightarrow> bool" where
  "good_frac s \<longleftrightarrow> (\<exists>ds e r. s = ds @ e @ r \<and> digits_text ds \<and> ds \<noteq> [] \<and> exp_text e
     \<and> stops (if e = [] then digits09 @ ''eE'' else digits09) r)"

definition good_tail :: "string \<Rightarrow> bool" where
  "good_tail s \<longleftrightarrow> (\<exists>f e r. s = f @ e @ r \<and> frac_text f \<and> exp_text e \<and> tail_stops f e r)"

lemma good_expI:
  "s = sg @ ds @ r \<Longrightarrow> sg \<in> {[], ''+'', ''-''} \<Longrightarrow> digits_text ds \<Longrightarrow> ds \<noteq> [] \<Longrightarrow> stops digits09 r \<Longrightarrow> good_exp s"
  unfolding good_exp_def by blast

lemma good_fracI:
  "s = ds @ e @ r \<Longrightarrow> digits_text ds \<Longrightarrow> ds \<noteq> [] \<Longrightarrow> exp_text e
    \<Longrightarrow> stops (if e = [] then digits09 @ ''eE'' else digits09) r \<Longrightarrow> good_frac s"
  unfolding good_frac_def by blast

lemma good_tailI:
  "s = f @ e @ r \<Longrightarrow> frac_text f \<Longrightarrow> exp_text e \<Longrightarrow> tail_stops f e r \<Longrightarrow> good_tail s"
  unfolding good_tail_def by blast

lemma fails_here [simp]: "fails l (Inl (lexer_get l\<lparr>error_message := m\<rparr>))"
  by (simp add: fails_def)

lemma stops_append: "stops (cs @ ds) r \<longleftrightarrow> stops cs r \<and> stops ds r"
  by (cases r) auto

lemma sign_fails: "stops digits09 (lexer_left l) \<Longrightarrow> fails l (scan_number_sign ty l)"
  by (simp add: scan_number_sign_def cur_in_stops Let_def)

lemma not_starting_with_digit:
  assumes "\<not> good_exp (sg @ s)" "sg \<in> {[], ''+'', ''-''}"
  shows "stops digits09 s"
proof -
  obtain ds r where "s = ds @ r" "digits_text ds" "stops digits09 r" using split_digits by blast
  with assms good_expI [of "sg @ s" sg ds r] show ?thesis by (cases "ds = []") simp_all
qed

lemma exponent_fails:
  assumes "\<not> good_exp (lexer_left l)"
  shows "fails l (scan_number_exponent l)"
proof (cases "stops ''+-'' (lexer_left l)")
  case True
  with not_starting_with_digit [of "[]"] assms show ?thesis
    by (simp add: scan_number_exponent_def cur_in_stops Let_def)
next
  case False
  then obtain c s where c: "lexer_left l = c # s" "c \<in> set ''+-''" by (rule not_stopsE)
  then have "stops digits09 s" using assms by (intro not_starting_with_digit [of "[c]" s]) simp_all
  then have "fails l (scan_number_sign T_value_float (add_current (lexer_get l)))"
    using c(1) by (intro fails_tl [OF sign_fails]) simp_all
  with False show ?thesis by (simp add: scan_number_exponent_def cur_in_stops Let_def)
qed

lemma decimal2_fails:
  "lexer_left l = ds @ c # s \<Longrightarrow> digits_text ds \<Longrightarrow> c \<in> set ''eE'' \<Longrightarrow> \<not> good_exp s
    \<Longrightarrow> fails l (scan_number_decimal2 ty l)"
proof (induction ds arbitrary: l)
  case Nil
  then have "fails l (scan_number_exponent (add_current (lexer_get l)))"
    by (intro fails_tl [OF exponent_fails]) simp_all
  with Nil show ?case by (subst scan_number_decimal2.simps) (auto simp: cur_in_stops)
next
  case (Cons d ds)
  then have "fails l (scan_number_decimal2 ty (add_current (lexer_get l)))" by (intro fails_tl [OF Cons.IH]) simp_all
  moreover have "is_digit d" using Cons.prems(2) by simp
  ultimately show ?case
    using Cons.prems(1) by (subst scan_number_decimal2.simps) (simp add: cur_in_stops)
qed

lemma exp_textI: "c \<in> set ''eE'' \<Longrightarrow> sg \<in> {[], ''+'', ''-''} \<Longrightarrow> ds \<noteq> [] \<Longrightarrow> digits_text ds \<Longrightarrow> exp_text (c # sg @ ds)"
  unfolding exp_text_def by blast

lemma exp_text_Nil [simp]: "exp_text []" and frac_text_Nil [simp]: "frac_text []"
  by (simp_all add: exp_text_def frac_text_def)

lemma good_exp_text:
  assumes "good_exp s" "c \<in> set ''eE''"
  shows "\<exists>e r. c # s = e @ r \<and> e \<noteq> [] \<and> exp_text e \<and> stops digits09 r"
proof -
  obtain sg ds r where s: "s = sg @ ds @ r" "sg \<in> {[], ''+'', ''-''}" "digits_text ds" "ds \<noteq> []" "stops digits09 r"
    using assms(1) unfolding good_exp_def by blast
  from exp_textI [OF assms(2) s(2,4,3)] s(1,5) show ?thesis
    by (intro exI [of _ "c # sg @ ds"] exI [of _ r]) simp
qed

lemma decimal1_fails:
  assumes "\<not> good_frac (lexer_left l)"
  shows "fails l (scan_number_decimal1 l)"
proof -
  obtain ds r where r: "lexer_left l = ds @ r" "digits_text ds" "stops digits09 r" using split_digits by blast
  show ?thesis
  proof (cases ds)
    case Nil
    with r show ?thesis by (simp add: scan_number_decimal1_def cur_in_stops Let_def)
  next
    case (Cons d ds')
    have "\<not> stops ''eE'' r"
    proof
      assume "stops ''eE'' r"
      with r(3) have "stops (digits09 @ ''eE'') r" by (simp only: stops_append)
      then have "good_frac (lexer_left l)" using r Cons by (intro good_fracI [of _ ds "[]" r]) simp_all
      with assms show False by blast
    qed
    then obtain c s where c: "r = c # s" "c \<in> set ''eE''" by (rule not_stopsE)
    have "\<not> good_exp s"
    proof
      assume "good_exp s"
      from good_exp_text [OF this c(2)] obtain e q where e: "c # s = e @ q" "e \<noteq> []" "exp_text e" "stops digits09 q"
        by blast
      then have "good_frac (lexer_left l)" using r Cons c by (intro good_fracI [of _ ds e q]) simp_all
      with assms show False by blast
    qed
    then have "fails l (scan_number_decimal2 T_value_float (add_current (lexer_get l)))"
      using r c Cons by (intro fails_tl [OF decimal2_fails [of _ ds' c s]]) simp_all
    moreover have "is_digit d" using r(2) Cons by simp
    ultimately show ?thesis
      using r(1) by (simp add: scan_number_decimal1_def cur_in_stops Let_def Cons)
  qed
qed

lemma tail_fails:
  assumes "\<not> good_tail (lexer_left l)"
  shows "fails l (scan_tail ty l)"
proof -
  have "\<not> stops ''.eE'' (lexer_left l)"
  proof
    assume "stops ''.eE'' (lexer_left l)"
    then have "tail_stops [] [] (lexer_left l)" by (simp add: tail_stops_def)
    then have "good_tail (lexer_left l)" by (intro good_tailI [of _ "[]" "[]"]) simp_all
    with assms show False by blast
  qed
  then obtain c s where c: "lexer_left l = c # s" "c \<in> set ''.eE''" by (rule not_stopsE)
  show ?thesis
  proof (cases "c = CHR ''.''")
    case True
    have "\<not> good_frac s"
    proof
      assume "good_frac s"
      then obtain ds e r where r: "s = ds @ e @ r" "digits_text ds" "ds \<noteq> []" "exp_text e"
        "stops (if e = [] then digits09 @ ''eE'' else digits09) r" unfolding good_frac_def by blast
      have "good_tail (lexer_left l)"
      proof (rule good_tailI)
        show "lexer_left l = (c # ds) @ e @ r" using c r(1) by simp
        show "frac_text (c # ds)" using r True by (auto simp: frac_text_def)
        show "tail_stops (c # ds) e r" using r(5) by (auto simp: tail_stops_def)
      qed (rule r)
      with assms show False by blast
    qed
    then have "fails l (scan_number_decimal1 (lexer_add get_decimal_point (lexer_get l)))"
      using c by (intro fails_tl [OF decimal1_fails]) simp_all
    with c True show ?thesis by (simp add: scan_tail_def cur_in_stops)
  next
    case False
    then have e: "c \<in> set ''eE''" using c by auto
    have "\<not> good_exp s"
    proof
      assume "good_exp s"
      from good_exp_text [OF this e] obtain e r where "c # s = e @ r" "e \<noteq> []" "exp_text e" "stops digits09 r" by blast
      then have "good_tail (lexer_left l)"
        using c(1) by (intro good_tailI [of _ "[]" e r]) (simp_all add: tail_stops_def)
      with assms show False by blast
    qed
    then have "fails l (scan_number_exponent (add_current (lexer_get l)))"
      using c by (intro fails_tl [OF exponent_fails]) simp_all
    with c e show ?thesis by (auto simp: scan_tail_def cur_in_stops)
  qed
qed

lemma any1_fails:
  "lexer_left l = ds @ s \<Longrightarrow> digits_text ds \<Longrightarrow> stops digits09 s \<Longrightarrow> \<not> good_tail s
    \<Longrightarrow> fails l (scan_number_any1 ty l)"
proof (induction ds arbitrary: l)
  case Nil
  then have "scan_number_any1 ty l = scan_tail ty l"
    by (subst scan_number_any1.simps) (simp add: cur_in_stops scan_tail_def)
  with Nil show ?case by (simp add: tail_fails)
next
  case (Cons d ds)
  then have "fails l (scan_number_any1 ty (add_current (lexer_get l)))" by (intro fails_tl [OF Cons.IH]) simp_all
  moreover have "is_digit d" using Cons.prems(2) by simp
  ultimately show ?case
    using Cons.prems(1) by (subst scan_number_any1.simps) (simp add: cur_in_stops)
qed

section \<open>The whole number\<close>

text \<open>Sign, integer part, fraction and exponent, and what may follow them.\<close>

definition num_text :: "string \<Rightarrow> string \<Rightarrow> string \<Rightarrow> string \<Rightarrow> string \<Rightarrow> bool" where
  "num_text sg ip f e r \<longleftrightarrow> sg \<in> {[], ''-''} \<and> digits_text ip \<and> ip \<noteq> []
     \<and> (if hd ip = CHR ''0'' then ip = ''0'' else stops digits09 (f @ e @ r))
     \<and> frac_text f \<and> exp_text e \<and> tail_stops f e r"

definition num_token :: "string \<Rightarrow> string \<Rightarrow> string \<Rightarrow> token_type" where
  "num_token sg f e =
     (if f = [] \<and> e = [] then (if sg = [] then T_value_unsigned else T_value_integer) else T_value_float)"

text \<open>The two states that a first digit leads to.\<close>

definition scan_first :: "token_type \<Rightarrow> char \<Rightarrow> lexer \<Rightarrow> number_outcome" where
  "scan_first ty c l = (if c = CHR ''0'' then scan_number_zero ty l else scan_number_any1 ty l)"

lemma first_jumps:
  assumes "num_text sg (c # ip) f e r" "lexer_left l = ip @ f @ e @ r"
  shows "jumps (if f = [] \<and> e = [] then ty else T_value_float) (ip @ f @ e) r l (scan_first ty c l)"
proof (cases "c = CHR ''0''")
  case True
  then have "ip = []" using assms(1) by (simp add: num_text_def)
  with True assms tail_jumps [of l f e r ty] show ?thesis by (simp add: scan_first_def zero_tail num_text_def)
next
  case False
  with assms any1_jumps [of l ip f e r ty] show ?thesis by (simp add: scan_first_def num_text_def)
qed

lemma first_total:
  assumes "is_digit c" and that: "sg \<in> {[], ''-''}"
  shows "(\<exists>ip f e r. lexer_left l = ip @ f @ e @ r \<and> num_text sg (c # ip) f e r) \<or> fails l (scan_first ty c l)"
proof (cases "c = CHR ''0''")
  case True
  show ?thesis
  proof (cases "good_tail (lexer_left l)")
    case g: True
    then obtain f e r where "lexer_left l = f @ e @ r" "frac_text f" "exp_text e" "tail_stops f e r"
      unfolding good_tail_def by blast
    with that True assms have "lexer_left l = [] @ f @ e @ r \<and> num_text sg [c] f e r" by (simp add: num_text_def)
    then show ?thesis by blast
  next
    case False
    with True show ?thesis by (simp add: scan_first_def zero_tail tail_fails)
  qed
next
  case False
  obtain ds s where s: "lexer_left l = ds @ s" "digits_text ds" "stops digits09 s" using split_digits by blast
  show ?thesis
  proof (cases "good_tail s")
    case True
    then obtain f e r where "s = f @ e @ r" "frac_text f" "exp_text e" "tail_stops f e r"
      unfolding good_tail_def by blast
    with s that False assms have "lexer_left l = ds @ f @ e @ r \<and> num_text sg (c # ds) f e r"
      by (simp add: num_text_def)
    then show ?thesis by blast
  next
    case bad: False
    with any1_fails [OF s] False show ?thesis by (simp add: scan_first_def)
  qed
qed

definition number_states :: "lexer \<Rightarrow> number_outcome" where
  "number_states l =
     (if cur_in l ''-'' then scan_number_minus (add_current l)
      else if cur_in l ''0'' then scan_number_zero T_value_unsigned (add_current l)
      else scan_number_any1 T_value_unsigned (add_current l))"

lemma digits19: "c \<in> set ''123456789'' \<longleftrightarrow> is_digit c \<and> c \<noteq> CHR ''0''"
proof -
  have "c \<in> set digits09 \<longleftrightarrow> c = CHR ''0'' \<or> c \<in> set ''123456789''" unfolding digits09_def by simp
  then show ?thesis by auto
qed

lemma minus_first:
  "scan_number_minus l =
     (if stops digits09 (lexer_left l)
      then Inl (lexer_get l\<lparr>error_message := ''invalid number; expected digit after '' @ [CHR 0x27, CHR ''-'', CHR 0x27]\<rparr>)
      else scan_first T_value_integer (hd (lexer_left l)) (add_current (lexer_get l)))"
proof (cases "lexer_left l")
  case Nil
  then show ?thesis by (simp add: scan_number_minus_def cur_in_stops Let_def)
next
  case (Cons c s)
  have "stops ''123456789'' (c # s) \<longleftrightarrow> \<not> (is_digit c \<and> c \<noteq> CHR ''0'')" unfolding stops_Cons digits19 ..
  moreover have "is_digit CHR ''0''" by (simp add: is_digit_def)
  ultimately show ?thesis
    unfolding scan_number_minus_def cur_in_stops Let_def Cons scan_first_def by auto
qed

lemma number_states_jump:
  assumes "lx_current l = Some c" "c # lexer_left l = sg @ ip @ f @ e @ r" "num_text sg ip f e r"
    "token_buffer l = []"
  shows "jumps (num_token sg f e) (sg @ ip @ f @ e) r l (number_states l)"
proof -
  have cb: "current_byte l = c" using assms(1) by (simp add: current_byte_def)
  obtain d ip' where ip: "ip = d # ip'" "is_digit d" using assms(3) by (cases ip) (auto simp: num_text_def)
  consider "sg = []" | "sg = ''-''" using assms(3) by (auto simp: num_text_def)
  then show ?thesis
  proof cases
    case 1
    with assms(2) ip have d: "c = d" "lexer_left l = ip' @ f @ e @ r" by simp_all
    have "d \<noteq> CHR ''-''" using ip(2) by auto
    then have "number_states l = scan_first T_value_unsigned c (add_current l)"
      using d(1) assms(1) by (simp add: number_states_def cur_in_def scan_first_def)
    moreover have "jumps (num_token sg f e) (ip' @ f @ e) r (add_current l) (scan_first T_value_unsigned d (add_current l))"
      using first_jumps [of sg d ip' f e r "add_current l" T_value_unsigned] assms(3) ip d 1
      by (auto simp: num_token_def)
    ultimately show ?thesis using d 1 ip cb by (simp add: jumps_def)
  next
    case 2
    with assms(2) ip have d: "c = CHR ''-''" "lexer_left l = d # ip' @ f @ e @ r" by simp_all
    have "number_states l = scan_first T_value_integer d (add_current (lexer_get (add_current l)))"
      using d assms(1) ip by (simp add: number_states_def cur_in_def minus_first)
    moreover have "jumps (num_token sg f e) (ip' @ f @ e) r (add_current (lexer_get (add_current l)))
        (scan_first T_value_integer d (add_current (lexer_get (add_current l))))"
      using first_jumps [of sg d ip' f e r "add_current (lexer_get (add_current l))" T_value_integer] assms(3) ip d 2
      by (auto simp: num_token_def)
    ultimately show ?thesis using d 2 ip cb by (simp add: jumps_def)
  qed
qed

lemma number_states_total:
  assumes "lx_current l = Some c" "c = CHR ''-'' \<or> is_digit c"
  shows "(\<exists>sg ip f e r. c # lexer_left l = sg @ ip @ f @ e @ r \<and> num_text sg ip f e r) \<or> fails l (number_states l)"
proof (cases "c = CHR ''-''")
  case True
  show ?thesis
  proof (cases "stops digits09 (lexer_left l)")
    case stop: True
    with True assms(1) show ?thesis by (auto simp: number_states_def cur_in_def minus_first fails_def)
  next
    case False
    then obtain d s where d: "lexer_left l = d # s" "d \<in> set digits09" by (rule not_stopsE)
    define l1 where "l1 = add_current (lexer_get (add_current l))"
    have n: "number_states l = scan_first T_value_integer d l1"
      using d assms(1) True by (simp add: number_states_def cur_in_def minus_first l1_def)
    have left: "lexer_left l1 = s" using d by (simp add: l1_def)
    have "(\<exists>ip f e r. lexer_left l1 = ip @ f @ e @ r \<and> num_text ''-'' (d # ip) f e r)
        \<or> fails l1 (scan_first T_value_integer d l1)"
      by (rule first_total) (use d(2) in simp_all)
    then show ?thesis
    proof
      assume "\<exists>ip f e r. lexer_left l1 = ip @ f @ e @ r \<and> num_text ''-'' (d # ip) f e r"
      then obtain ip f e r where "s = ip @ f @ e @ r" "num_text ''-'' (d # ip) f e r" using left by auto
      moreover from this have "c # lexer_left l = ''-'' @ (d # ip) @ f @ e @ r" using d True by simp
      ultimately show ?thesis by blast
    next
      assume "fails l1 (scan_first T_value_integer d l1)"
      then have "fails l (number_states l)" unfolding n by (rule fails_tl) (simp add: left d)
      then show ?thesis ..
    qed
  qed
next
  case False
  with assms have n: "number_states l = scan_first T_value_unsigned c (add_current l)"
    by (simp add: number_states_def cur_in_def scan_first_def)
  have "(\<exists>ip f e r. lexer_left (add_current l) = ip @ f @ e @ r \<and> num_text [] (c # ip) f e r)
      \<or> fails (add_current l) (scan_first T_value_unsigned c (add_current l))"
    by (rule first_total) (use assms False in simp_all)
  then show ?thesis
  proof
    assume "\<exists>ip f e r. lexer_left (add_current l) = ip @ f @ e @ r \<and> num_text [] (c # ip) f e r"
    then obtain ip f e r where "lexer_left l = ip @ f @ e @ r" "num_text [] (c # ip) f e r" by auto
    then have "c # lexer_left l = [] @ (c # ip) @ f @ e @ r \<and> num_text [] (c # ip) f e r" by simp
    then show ?thesis by blast
  next
    assume "fails (add_current l) (scan_first T_value_unsigned c (add_current l))"
    then have "fails l (number_states l)" unfolding n by (simp add: fails_def)
    then show ?thesis ..
  qed
qed

section \<open>The conversions read the whole number\<close>

lemma digit_value_digit: "is_digit c \<Longrightarrow> digit_value c = Some (of_char c - 48) \<and> of_char c - 48 < (10 :: nat)"
  by (auto simp: is_digit_def digit_value_def)

lemma take_digits_text:
  "digits_text ds \<Longrightarrow> take_digits 10 ds = map (\<lambda>c. of_char c - 48) ds"
  by (induction ds) (simp_all add: digit_value_digit)

lemma c_integer_digits:
  assumes "digits_text ds" "ds \<noteq> []"
  shows "c_integer ds = (False, digits_num ds, length ds)"
    and "c_integer (CHR ''-'' # ds) = (True, digits_num ds, Suc (length ds))"
proof -
  obtain c cs where ds: "ds = c # cs" "is_digit c" using assms by (cases ds) auto
  have c: "\<not> is_space c" "c \<noteq> CHR ''-''" "c \<noteq> CHR ''+''" "\<not> is_space CHR ''-''"
    using digit_not_space_sign [OF ds(2)] by (auto simp: is_space_def)
  have t: "take_digits 10 (c # cs) = map (\<lambda>c. of_char c - 48) (c # cs)"
    using take_digits_text [OF assms(1)] by (simp only: ds)
  have v: "digits_value 10 (map (\<lambda>c. of_char c - 48) (c # cs)) = digits_num (c # cs)"
    by (simp add: digits_value_def digits_num_def foldl_map)
  show "c_integer ds = (False, digits_num ds, length ds)"
    using c unfolding c_integer_def ds Let_def by (simp add: t v del: take_digits.simps list.map)
  show "c_integer (CHR ''-'' # ds) = (True, digits_num ds, Suc (length ds))"
    using c unfolding c_integer_def ds Let_def by (simp add: t v del: take_digits.simps list.map)
qed

lemma snd_c_exponent: "exp_text e \<Longrightarrow> snd (c_exponent e) = length e"
  unfolding exp_text_def
proof (elim disjE exE conjE)
  fix c sg ds
  assume e: "e = c # sg @ ds" and c: "c \<in> set ''eE''" and sg: "sg \<in> {[], ''+'', ''-''}" and ds: "ds \<noteq> []" "digits_text ds"
  obtain d ds' where d: "ds = d # ds'" "is_digit d" using ds by (cases ds) auto
  have n: "d \<noteq> CHR ''-''" "d \<noteq> CHR ''+''" using digit_not_space_sign [OF d(2)] by simp_all
  have t: "length (takeWhile is_digit ds') = length ds'" using ds(2) d(1) by (simp add: takeWhile_digits_text)
  have c': "c = CHR ''e'' \<or> c = CHR ''E''" using c by auto
  consider "sg = []" | "sg = ''+''" | "sg = ''-''" using sg by blast
  then show "snd (c_exponent e) = length e"
    by cases (use c' n t d(2) in \<open>auto simp: e d(1) c_exponent_def Let_def\<close>)
qed (simp add: c_exponent_def)

lemma exp_text_hd: "exp_text e \<Longrightarrow> e = [] \<or> \<not> is_digit (hd e) \<and> hd e \<noteq> CHR ''.''"
  by (auto simp: exp_text_def)

lemma snd_c_decimal:
  assumes ip: "digits_text ip" "ip \<noteq> []" and f: "frac_text f" and e: "exp_text e"
  shows "snd (snd (c_decimal (ip @ f @ e))) = length (ip @ f @ e)"
proof -
  have fe: "f @ e = [] \<or> \<not> is_digit (hd (f @ e))" using f exp_text_hd [OF e] by (auto simp: frac_text_def)
  have t: "takeWhile is_digit (ip @ f @ e) = ip" using span_digits [OF ip(1) fe] by simp
  show ?thesis
  proof (cases f)
    case Nil
    have "\<not> (e \<noteq> [] \<and> hd e = CHR ''.'')" using exp_text_hd [OF e] by auto
    then show ?thesis using ip(2) t Nil snd_c_exponent [OF e] by (auto simp: c_decimal_def Let_def case_prod_unfold)
  next
    case (Cons c ds)
    then have c: "c = CHR ''.''" "digits_text ds" using f by (auto simp: frac_text_def)
    have "takeWhile is_digit (ds @ e) = ds" using span_digits [OF c(2), of e] exp_text_hd [OF e] by auto
    then show ?thesis using ip(2) t Cons c snd_c_exponent [OF e] by (auto simp: c_decimal_def Let_def case_prod_unfold)
  qed
qed

lemma snd_strtod:
  assumes "num_text sg ip f e r"
  shows "snd (strtod (sg @ ip @ f @ e)) = length (sg @ ip @ f @ e)"
proof -
  have ip: "digits_text ip" "ip \<noteq> []" "frac_text f" "exp_text e" "sg = [] \<or> sg = ''-''"
    using assms by (auto simp: num_text_def)
  obtain c cs where c: "ip = c # cs" "is_digit c" using ip by (cases ip) auto
  have n: "\<not> is_space c" "c \<noteq> CHR ''-''" "c \<noteq> CHR ''+''" "\<not> is_space CHR ''-''"
    using digit_not_space_sign [OF c(2)] by (auto simp: is_space_def)
  note len = snd_c_decimal [OF ip(1-4), unfolded c(1), simplified]
  show ?thesis
    using ip(5) n len by (auto simp: strtod_def c(1) Let_def case_prod_unfold)
qed

section \<open>scan_number\<close>

text \<open>The value a number token carries, and the value of a number.\<close>

definition token_value :: "token_type \<Rightarrow> lexer \<Rightarrow> json" where
  "token_value t l =
     (if t = T_value_unsigned then JUnsigned (value_unsigned l)
      else if t = T_value_integer then JInteger (value_integer l) else JFloat (value_float l))"

definition number_value :: "string \<Rightarrow> string \<Rightarrow> string \<Rightarrow> string \<Rightarrow> json" where
  "number_value sg ip f e =
     (if f = [] \<and> e = [] \<and> sg = [] \<and> digits_num ip < 2 ^ 64 then JUnsigned (of_nat (digits_num ip))
      else if f = [] \<and> e = [] \<and> sg \<noteq> [] \<and> digits_num ip \<le> 2 ^ 63 then JInteger (- of_nat (digits_num ip))
      else JFloat (fst (strtod (sg @ ip @ f @ e))))"

abbreviation number_tokens :: "token_type set" where
  "number_tokens \<equiv> {T_value_unsigned, T_value_integer, T_value_float}"

lemma scan_float_num:
  "snd (strtod (token_buffer l)) = length (token_buffer l)
    \<Longrightarrow> scan_float l = Inr (T_value_float, l\<lparr>value_float := fst (strtod (token_buffer l))\<rparr>)"
  by (simp add: scan_float_def case_prod_unfold)

lemma lexer_left_values [simp, lexer_simps]:
  "lexer_left (l\<lparr>value_float := x\<rparr>) = lexer_left l" "lexer_left (l\<lparr>value_unsigned := x\<rparr>) = lexer_left l"
  "lexer_left (l\<lparr>value_integer := x\<rparr>) = lexer_left l"
  by (simp_all add: lexer_left_def)

lemma scan_number_done_num:
  assumes num: "num_text sg ip f e r" and b: "token_buffer l0 = sg @ ip @ f @ e"
  shows "\<exists>t l'. scan_number_done (num_token sg f e) (lexer_get l0) = Inr (t, l') \<and> lexer_left l' = lexer_left l0
    \<and> t \<in> number_tokens \<and> token_value t l' = number_value sg ip f e"
proof -
  obtain l1 where l1: "lexer_unget (lexer_get l0) = Inr l1" "lexer_left l1 = lexer_left l0"
    "token_buffer l1 = sg @ ip @ f @ e"
    using lexer_unget_get [of l0] b by auto
  have ip: "digits_text ip" "ip \<noteq> []" "sg = [] \<or> sg = ''-''" using num by (auto simp: num_text_def)
  note fl = scan_float_num [of l1, unfolded l1(3), OF snd_strtod [OF num]]
  show ?thesis
  proof (cases "f = [] \<and> e = []")
    case fe: True
    show ?thesis
    proof (cases "sg = []")
      case True
      with fe l1 fl c_integer_digits(1) [OF ip(1,2)] show ?thesis
        by (simp add: scan_number_done_def num_token_def strtoull_def token_value_def number_value_def)
    next
      case False
      with ip(3) have "sg = ''-''" by simp
      with fe l1 fl c_integer_digits(2) [OF ip(1,2)] show ?thesis
        by (simp add: scan_number_done_def num_token_def strtoll_def token_value_def number_value_def)
    qed
  next
    case False
    with l1 fl show ?thesis
      by (auto simp: scan_number_done_def num_token_def token_value_def number_value_def)
  qed
qed

lemma scan_number_states:
  "lx_current l = Some c \<Longrightarrow> c = CHR ''-'' \<or> is_digit c \<Longrightarrow>
    scan_number l = (case number_states (lexer_reset l) of
       Inl l' \<Rightarrow> Inr (T_parse_error, l') | Inr (ty, l') \<Rightarrow> scan_number_done ty l')"
  by (simp add: scan_number_def number_states_def cur_in_def lexer_reset_def Let_def)

lemma lexer_reset_simps [simp, lexer_simps]:
  "lx_current (lexer_reset l) = lx_current l" "lexer_left (lexer_reset l) = lexer_left l"
  "token_buffer (lexer_reset l) = []"
  by (simp_all add: lexer_reset_def lexer_left_def)

lemma num_text_first: "num_text sg ip f e r \<Longrightarrow> c # s = sg @ ip @ f @ e @ r \<Longrightarrow> c = CHR ''-'' \<or> is_digit c"
  by (cases ip) (auto simp: num_text_def)

lemma scan_number_num:
  assumes "lx_current l = Some c" "c # lexer_left l = sg @ ip @ f @ e @ r" "num_text sg ip f e r"
  shows "\<exists>t l'. scan_number l = Inr (t, l') \<and> lexer_left l' = r \<and> t \<in> number_tokens
    \<and> token_value t l' = number_value sg ip f e"
proof -
  have "jumps (num_token sg f e) (sg @ ip @ f @ e) r (lexer_reset l) (number_states (lexer_reset l))"
    using assms by (intro number_states_jump) simp_all
  then obtain l0 where l0: "number_states (lexer_reset l) = Inr (num_token sg f e, lexer_get l0)"
    "token_buffer l0 = sg @ ip @ f @ e" "lexer_left l0 = r" by (auto simp: jumps_def)
  from scan_number_done_num [OF assms(3) l0(2)] l0(1,3) scan_number_states [OF assms(1) num_text_first [OF assms(3,2)]]
  show ?thesis by simp
qed

lemma scan_number_total:
  assumes "lx_current l = Some c" "c = CHR ''-'' \<or> is_digit c"
  shows "\<exists>t l'. scan_number l = Inr (t, l') \<and> length (lexer_left l') \<le> length (lexer_left l)
    \<and> t \<in> insert T_parse_error number_tokens"
proof -
  consider (num) sg ip f e r where "c # lexer_left l = sg @ ip @ f @ e @ r" "num_text sg ip f e r"
    | (bad) "fails (lexer_reset l) (number_states (lexer_reset l))"
    using number_states_total [of "lexer_reset l" c] assms by auto
  then show ?thesis
  proof cases
    case num
    from scan_number_num [OF assms(1) num] obtain t l' where "scan_number l = Inr (t, l')" "lexer_left l' = r" "t \<in> number_tokens"
      by blast
    moreover have "length (c # lexer_left l) = length (sg @ ip @ f @ e @ r)" using num(1) by (rule arg_cong)
    then have "length r \<le> length (lexer_left l)" using num(2) by (cases ip) (auto simp: num_text_def)
    ultimately show ?thesis by auto
  next
    case bad
    with scan_number_states [OF assms] show ?thesis by (auto simp: fails_def)
  qed
qed

end
