(* ===== verification/Json_Lexer_Strings.thy ===== *)
theory Json_Lexer_Strings
  imports Json_Lexer_Numbers Utf8
begin

text \<open>
  The string scanner of the JSON lexer and the scanner as a whole: \<open>scan\<close> passes every assertion and
  returns a token for every input, it reads at least a character for each token but the end, and the
  text of a string token is well-formed UTF-8, whatever escapes it was written with.
\<close>

unbundle bit_operations_syntax

section \<open>Well-formed pieces\<close>

lemma utf8_run_append: "utf8_run rs a \<Longrightarrow> utf8_run [] b \<Longrightarrow> utf8_run rs (a @ b)"
  by (induction rs a rule: utf8_run.induct) (auto split: option.splits)

lemma utf8_valid_append: "utf8_valid a \<Longrightarrow> utf8_valid b \<Longrightarrow> utf8_valid (a @ b)"
  by (simp add: utf8_valid_def utf8_run_append)

lemma utf8_valid_Nil [simp]: "utf8_valid []"
  by (simp add: utf8_valid_def)

lemma utf8_valid_byte: "byte c < 0x80 \<Longrightarrow> utf8_valid [c]"
  by (rule utf8_valid_ascii) simp

definition in_ranges :: "(nat \<times> nat) list \<Rightarrow> string \<Rightarrow> bool" where
  "in_ranges = list_all2 (\<lambda>(lo, hi) c. lo \<le> byte c \<and> byte c \<le> hi)"

lemma in_ranges_simps [simp]:
  "in_ranges [] bs \<longleftrightarrow> bs = []"
  "in_ranges ((lo, hi) # rs) bs \<longleftrightarrow> (\<exists>c cs. bs = c # cs \<and> lo \<le> byte c \<and> byte c \<le> hi \<and> in_ranges rs cs)"
  by (simp_all add: in_ranges_def list_all2_Cons1)

lemma in_ranges_run: "in_ranges rs bs \<Longrightarrow> utf8_run rs (map byte (bs @ s)) = utf8_valid s"
proof (induction rs arbitrary: bs)
  case (Cons r rs)
  then show ?case by (cases r) auto
qed (simp add: utf8_valid_def)

lemma run_in_ranges:
  "utf8_run rs (map byte s) \<Longrightarrow> \<exists>bs s'. s = bs @ s' \<and> in_ranges rs bs \<and> utf8_valid s'"
proof (induction rs arbitrary: s)
  case Nil
  then show ?case by (simp add: utf8_valid_def)
next
  case (Cons r rs)
  then obtain lo hi c cs where r: "r = (lo, hi)" "s = c # cs" "lo \<le> byte c" "byte c \<le> hi" "utf8_run rs (map byte cs)"
    by (cases r; cases s) auto
  from Cons.IH [OF r(5)] obtain bs s' where "cs = bs @ s'" "in_ranges rs bs" "utf8_valid s'" by blast
  then have "s = (c # bs) @ s' \<and> in_ranges (r # rs) (c # bs) \<and> utf8_valid s'" using r by simp
  then show ?case by blast
qed

lemma utf8_valid_sequence:
  "utf8_follow (byte c) = Some rs \<Longrightarrow> in_ranges rs bs \<Longrightarrow> utf8_valid (c # bs)"
  using in_ranges_run [of rs bs "[]"] by (simp add: utf8_valid_def)

lemma utf8_valid_Cons:
  assumes "utf8_valid (c # s)"
  obtains rs bs s' where "s = bs @ s'" "utf8_follow (byte c) = Some rs" "in_ranges rs bs" "utf8_valid s'"
proof -
  obtain rs where rs: "utf8_follow (byte c) = Some rs" "utf8_run rs (map byte s)"
    using assms by (auto simp: utf8_valid_def split: option.splits)
  from run_in_ranges [OF rs(2)] rs(1) that show ?thesis by blast
qed

declare byte_less [simp]

lemma sequence_ranges_follow: "0x80 \<le> n \<Longrightarrow> sequence_ranges n = utf8_follow n"
  unfolding sequence_ranges_def utf8_follow_def utf8_tail_def by auto

section \<open>The bytes of a code point\<close>

lemma or_plus:
  assumes "0 \<le> x" "x < 2 ^ k"
  shows "push_bit k (a :: int) OR x = a * 2 ^ k + x"
proof -
  have "take_bit k x = x" using assms by (simp add: take_bit_int_eq_self)
  then have "push_bit k a + x = push_bit k a OR x"
    by (intro disjunctive_add) (metis bit_push_bit_iff_int bit_take_bit_iff not_le)
  then show ?thesis by (simp add: push_bit_eq_mult)
qed

lemma and_63: "(x :: int) AND 0x3F = x mod 64"
proof -
  have "(0x3F :: int) = mask 6" by (simp add: mask_eq_exp_minus_1)
  then show ?thesis by (simp only: flip: take_bit_eq_mask) (simp add: take_bit_eq_mod)
qed

lemma or_prefixes:
  "0 \<le> x \<Longrightarrow> x < 64 \<Longrightarrow> 0x80 OR x = 0x80 + (x :: int)" "0 \<le> x \<Longrightarrow> x < 32 \<Longrightarrow> 0xC0 OR x = 0xC0 + x"
  "0 \<le> x \<Longrightarrow> x < 16 \<Longrightarrow> 0xE0 OR x = 0xE0 + x" "0 \<le> x \<Longrightarrow> x < 8 \<Longrightarrow> 0xF0 OR x = 0xF0 + x"
  using or_plus [of x 6 2] or_plus [of x 5 6] or_plus [of x 4 14] or_plus [of x 3 30]
  by (simp_all add: push_bit_eq_mult)

definition codepoint_codes :: "int \<Rightarrow> int list" where
  "codepoint_codes n =
     (if n < 0x80 then [n]
      else if n \<le> 0x7FF then [0xC0 + n div 64, 0x80 + n mod 64]
      else if n \<le> 0xFFFF then [0xE0 + n div 4096, 0x80 + n div 64 mod 64, 0x80 + n mod 64]
      else [0xF0 + n div 262144, 0x80 + n div 4096 mod 64, 0x80 + n div 64 mod 64, 0x80 + n mod 64])"

lemma codepoint_bytes_eq:
  assumes "0 \<le> n" "n \<le> 0x10FFFF"
  shows "codepoint_bytes n = map char_of (codepoint_codes n)"
proof -
  have d: "drop_bit 6 n = n div 64" "drop_bit 12 n = n div 4096" "drop_bit 18 n = n div 262144"
    by (simp_all add: drop_bit_eq_div)
  have "n \<le> 0x7FF \<Longrightarrow> n div 64 < 32" "n \<le> 0xFFFF \<Longrightarrow> n div 4096 < 16" "n div 262144 < 8"
    using assms by linarith+
  then show ?thesis
    using assms by (simp add: codepoint_bytes_def codepoint_codes_def d and_63 or_prefixes)
qed

lemma byte_char_of: "0 \<le> k \<Longrightarrow> k < 256 \<Longrightarrow> byte (char_of (k :: int)) = nat k"
  unfolding byte_def using of_char_of [of "nat k"] char_of_nat [of "nat k", where 'a = int]
  by simp

lemma base_64:
  "(n :: int) = n div 4096 * 4096 + n div 64 mod 64 * 64 + n mod 64"
  "n div 4096 = n div 262144 * 64 + n div 4096 mod 64"
proof -
  have "n div 4096 = n div 64 div 64" "n div 262144 = n div 4096 div 64"
    by (simp_all flip: zdiv_zmult2_eq)
  then show "n = n div 4096 * 4096 + n div 64 mod 64 * 64 + n mod 64"
    "n div 4096 = n div 262144 * 64 + n div 4096 mod 64"
    using div_mult_mod_eq [of n 64] div_mult_mod_eq [of "n div 64" 64] div_mult_mod_eq [of "n div 4096" 64]
    by linarith+
qed

lemma utf8_valid_codepoint:
  assumes n: "0 \<le> n" "n \<le> 0x10FFFF" and s: "\<not> (0xD800 \<le> n \<and> n \<le> 0xDFFF)"
  shows "utf8_valid (codepoint_bytes n)"
proof -
  define q where "q k = n div 2 ^ k mod 64" for k :: nat
  have q: "0 \<le> q k" "q k < 64" for k by (simp_all add: q_def)
  have t: "0x80 \<le> nat (0x80 + x)" "nat (0x80 + x) \<le> 0xBF" "byte (char_of (0x80 + x)) = nat (0x80 + x)" if "0 \<le> x" "x < 64" for x :: int
    using that by (simp_all add: byte_char_of)
  consider "n < 0x80" | "0x80 \<le> n" "n \<le> 0x7FF" | "0x800 \<le> n" "n \<le> 0xFFFF" | "0x10000 \<le> n" using n by linarith
  then show ?thesis
  proof cases
    case 1
    with n show ?thesis by (simp add: codepoint_bytes_def byte_char_of utf8_valid_byte)
  next
    case 2
    then have "0xC2 \<le> nat (0xC0 + n div 64)" "nat (0xC0 + n div 64) \<le> 0xDF" "byte (char_of (0xC0 + n div 64)) = nat (0xC0 + n div 64)"
      by (simp_all add: byte_char_of)
    with 2 n t [of "n mod 64"] show ?thesis
      unfolding codepoint_bytes_eq [OF n]
      by (simp add: codepoint_codes_def utf8_valid_def utf8_follow_def utf8_tail_def)
  next
    case 3
    define h where "h = n div 4096"
    define m where "m = n div 64 mod 64"
    define l where "l = n mod 64"
    have hml: "n = h * 4096 + m * 64 + l" "0 \<le> h" "h < 16" "0 \<le> m" "m < 64" "0 \<le> l" "l < 64"
      using 3 base_64(1) [of n] unfolding h_def m_def l_def by simp_all
    have b: "byte (char_of (0xE0 + h)) = nat (0xE0 + h)" using hml by (simp add: byte_char_of)
    have e: "32 \<le> m" if "h = 0"
    proof -
      have "2048 \<le> m * 64 + l" using 3(1) hml(1) that by simp
      with hml(7) show ?thesis by linarith
    qed
    have e': "m \<le> 31" if "h = 13"
    proof -
      have "n \<le> 57343" using hml that by linarith
      then have "n < 55296" using s hml that by linarith
      then have "m * 64 + l < 2048" using hml(1) that by simp
      with hml(6) show ?thesis by linarith
    qed
    have h: "nat (0xE0 + h) = 0xE0 \<longleftrightarrow> h = 0" "nat (0xE0 + h) = 0xED \<longleftrightarrow> h = 13"
      using hml(2) by (simp_all add: nat_eq_iff)
    have "utf8_valid (map char_of [0xE0 + h, 0x80 + m, 0x80 + l])"
      using t [OF hml(4,5)] t [OF hml(6,7)] hml(2-) e e'
      by (auto simp: utf8_valid_def utf8_follow_def utf8_tail_def b h)
    with 3 show ?thesis
      unfolding codepoint_bytes_eq [OF n] by (simp add: codepoint_codes_def h_def m_def l_def)
  next
    case 4
    define h where "h = n div 262144"
    define p where "p = n div 4096 mod 64"
    define m where "m = n div 64 mod 64"
    define l where "l = n mod 64"
    have n4: "n = h * 262144 + p * 4096 + m * 64 + l"
      using base_64 [of n] unfolding h_def p_def m_def l_def by linarith
    have h4: "0 \<le> h" "h \<le> 4" using n unfolding h_def by linarith+
    have "0 \<le> p" "p < 64" "0 \<le> m" "m < 64" "0 \<le> l" "l < 64"
      unfolding p_def m_def l_def by simp_all
    note hml = n4 h4 this
    have b: "byte (char_of (0xF0 + h)) = nat (0xF0 + h)" using hml by (simp add: byte_char_of)
    have e: "16 \<le> p" if "h = 0"
    proof -
      have "65536 \<le> p * 4096 + m * 64 + l" using 4 hml(1) that by simp
      then have "61441 \<le> p * 4096" using hml(7,9) by linarith
      then show ?thesis by linarith
    qed
    have e': "p \<le> 15" if "h = 4"
    proof -
      have "p * 4096 + m * 64 + l < 65536" using n(2) hml(1) that by simp
      then have "p * 4096 < 65536" using hml(6,8) by linarith
      then show ?thesis by linarith
    qed
    have e2: "h = 0 \<Longrightarrow> 0x90 \<le> nat (0x80 + p)" "h = 4 \<Longrightarrow> nat (0x80 + p) \<le> 0x8F"
      using e e' by linarith+
    have h: "nat (0xF0 + h) = 0xF0 \<longleftrightarrow> h = 0" "nat (0xF0 + h) = 0xF4 \<longleftrightarrow> h = 4"
      using hml(2) by (simp_all add: nat_eq_iff)
    have "utf8_valid (map char_of [0xF0 + h, 0x80 + p, 0x80 + m, 0x80 + l])"
      using t [OF hml(4,5)] t [OF hml(6,7)] t [OF hml(8,9)] hml(2,3) e2
      by (auto simp: utf8_valid_def utf8_follow_def utf8_tail_def b h)
    with 4 show ?thesis
      unfolding codepoint_bytes_eq [OF n] by (simp add: codepoint_codes_def h_def p_def m_def l_def)
  qed
qed

section \<open>Escapes\<close>

lemma codepoint_digit_range: "codepoint_digit c = Some d \<Longrightarrow> 0 \<le> d \<and> d < 16"
  by (auto simp: codepoint_digit_def Let_def split: option.splits if_splits)

lemma get_codepoint_loop_range:
  "get_codepoint_loop [12, 8, 4, 0] 0 l = (cp, l')
    \<Longrightarrow> (cp = - 1 \<or> 0 \<le> cp \<and> cp \<le> 0xFFFF) \<and> token_buffer l' = token_buffer l"
  by (auto simp: Let_def push_bit_eq_mult split: option.splits dest!: codepoint_digit_range simp del: lexer_get_simps(1))

lemma get_codepoint_total:
  assumes "lx_current l = Some (CHR ''u'')"
  shows "\<exists>cp l'. get_codepoint l = Inr (cp, l') \<and> (cp = - 1 \<or> 0 \<le> cp \<and> cp \<le> 0xFFFF) \<and> token_buffer l' = token_buffer l"
proof -
  obtain cp l' where r: "get_codepoint_loop [12, 8, 4, 0] 0 l = (cp, l')" by fastforce
  from get_codepoint_loop_range [OF r] assms show ?thesis
    by (auto simp: get_codepoint_def r simp del: get_codepoint_loop.simps)
qed

text \<open>The outcome of a turn: it goes on with a well-formed text, or the string ends.\<close>

definition step_ok :: "lexer \<Rightarrow> (token_type option \<times> lexer) res \<Rightarrow> bool" where
  "step_ok l r \<longleftrightarrow> (\<exists>t l'. r = Inr (t, l') \<and> t \<in> {None, Some T_value_string, Some T_parse_error}
     \<and> (utf8_valid (token_buffer l) \<and> t \<noteq> Some T_parse_error \<longrightarrow> utf8_valid (token_buffer l')))"

lemma step_ok_error [simp]: "step_ok l (scan_error m l')"
  by (simp add: step_ok_def)

lemma add_codepoint_ok:
  assumes "0 \<le> cp" "cp \<le> 0x10FFFF" "\<not> (0xD800 \<le> cp \<and> cp \<le> 0xDFFF)" "token_buffer l' = token_buffer l"
  shows "step_ok l (add_codepoint cp l')"
  using utf8_valid_codepoint [OF assms(1-3)] assms
  by (simp add: add_codepoint_def step_ok_def utf8_valid_append)

lemma scan_unicode_escape_ok:
  assumes "lx_current l = Some (CHR ''u'')"
  shows "step_ok l (scan_unicode_escape l)"
proof -
  obtain cp1 l1 where c1: "get_codepoint l = Inr (cp1, l1)" "cp1 = - 1 \<or> 0 \<le> cp1 \<and> cp1 \<le> 0xFFFF"
    "token_buffer l1 = token_buffer l" using get_codepoint_total [OF assms] by blast
  show ?thesis
  proof (cases "0xD800 \<le> cp1 \<and> cp1 \<le> 0xDBFF")
    case high: True
    define l2 where "l2 = lexer_get l1"
    define l3 where "l3 = lexer_get l2"
    show ?thesis
    proof (cases "lx_current l2 = Some (CHR 0x5C) \<and> lx_current l3 = Some (CHR ''u'')")
      case True
      then obtain cp2 l4 where c2: "get_codepoint l3 = Inr (cp2, l4)" "token_buffer l4 = token_buffer l3"
        using get_codepoint_total [of l3] by blast
      have b: "token_buffer l4 = token_buffer l" using c1(3) c2(2) by (simp add: l3_def l2_def)
      have cp: "0 \<le> cp1 * 1024 + cp2 - 0x35FDC00" "cp1 * 1024 + cp2 - 0x35FDC00 \<le> 0x10FFFF"
        "\<not> (0xD800 \<le> cp1 * 1024 + cp2 - 0x35FDC00 \<and> cp1 * 1024 + cp2 - 0x35FDC00 \<le> 0xDFFF)"
        if "0xDC00 \<le> cp2" "cp2 \<le> 0xDFFF"
        using high that by linarith+
      have "step_ok l (add_codepoint (cp1 * 1024 + cp2 - 0x35FDC00) l4)" if "0xDC00 \<le> cp2" "cp2 \<le> 0xDFFF"
        using cp [OF that] b by (rule add_codepoint_ok)
      then show ?thesis
        using True high c1(1) c2(1)
        by (simp add: scan_unicode_escape_def push_bit_eq_mult flip: l2_def l3_def del: lexer_get_simps(1))
    next
      case False
      with high c1(1) show ?thesis
        by (auto simp: scan_unicode_escape_def Let_def simp flip: l2_def l3_def simp del: lexer_get_simps(1))
    qed
  next
    case False
    with c1 add_codepoint_ok [of cp1 l1 l] show ?thesis by (auto simp: scan_unicode_escape_def)
  qed
qed

lemma simple_escape_ascii: "simple_escape c = Some d \<Longrightarrow> utf8_valid [d]"
  by (intro utf8_valid_byte) (auto simp: simple_escape_def byte_def split: option.splits if_splits)

lemma step_ok_mono: "step_ok l1 r \<Longrightarrow> token_buffer l1 = token_buffer l \<Longrightarrow> step_ok l r"
  by (simp add: step_ok_def)

lemma scan_escape_ok: "step_ok l (scan_escape l)"
proof (cases "simple_escape (lx_current (lexer_get l))")
  case None
  show ?thesis
  proof (cases "lx_current (lexer_get l) = Some (CHR ''u'')")
    case True
    have "step_ok l (scan_unicode_escape (lexer_get l))"
      by (rule step_ok_mono [OF scan_unicode_escape_ok [OF True]]) simp
    with None True show ?thesis by (simp add: scan_escape_def Let_def del: lexer_get_simps(1))
  next
    case False
    with None show ?thesis by (simp add: scan_escape_def Let_def del: lexer_get_simps(1))
  qed
next
  case (Some d)
  with simple_escape_ascii [OF Some] show ?thesis
    by (simp add: scan_escape_def step_ok_def utf8_valid_append del: lexer_get_simps(1))
qed

section \<open>UTF-8 sequences\<close>

lemma next_byte_loop_reads:
  "in_ranges rs bs \<Longrightarrow> lexer_left l = bs @ r
    \<Longrightarrow> \<exists>l'. next_byte_loop rs l = (True, l') \<and> token_buffer l' = token_buffer l @ bs \<and> lexer_left l' = r"
proof (induction rs arbitrary: bs l)
  case (Cons q rs)
  then obtain lo hi c cs where q: "q = (lo, hi)" "bs = c # cs" "lo \<le> byte c" "byte c \<le> hi" "in_ranges rs cs"
    by (cases q) auto
  with Cons.IH [of cs "lexer_add c (lexer_get l)"] Cons.prems(2) show ?case by (auto simp: byte_def)
qed simp

lemma next_byte_loop_result:
  "next_byte_loop rs l = (ok, l') \<Longrightarrow> ok \<Longrightarrow> \<exists>bs. in_ranges rs bs \<and> token_buffer l' = token_buffer l @ bs"
proof (induction rs l rule: next_byte_loop.induct)
  case (2 lo hi rs l)
  then obtain c s where c: "lexer_left l = c # s" "lo \<le> byte c" "byte c \<le> hi"
    "next_byte_loop rs (lexer_add c (lexer_get l)) = (ok, l')"
    by (cases "lexer_left l") (auto simp: Let_def byte_def split: if_splits)
  then obtain bs where "in_ranges rs bs" "token_buffer l' = token_buffer (lexer_add c (lexer_get l)) @ bs"
    using "2.IH" [of "lexer_get l" c] "2.prems" by (auto simp: byte_def)
  with c have "in_ranges ((lo, hi) # rs) (c # bs) \<and> token_buffer l' = token_buffer l @ (c # bs)" by simp
  then show ?case by blast
qed simp

lemma sequence_ranges_length: "sequence_ranges n = Some rs \<Longrightarrow> length rs \<in> {1, 2, 3}"
  by (auto simp: sequence_ranges_def split: if_splits)

section \<open>scan_string\<close>

lemma scan_string_step_ok: "step_ok l (scan_string_step l)"
proof (cases "lexer_left l")
  case Nil
  then show ?thesis by (simp add: scan_string_step_def)
next
  case (Cons c s)
  then have cur: "lx_current (lexer_get l) = Some c" by simp
  show ?thesis
  proof (cases "c = CHR 0x22 \<or> c = CHR 0x5C \<or> byte c \<le> 0x7F")
    case True
    have "step_ok l (scan_escape (lexer_get l))" by (rule step_ok_mono [OF scan_escape_ok]) simp
    moreover have "step_ok l (Inr (None, lexer_add c (lexer_get l)))" if "byte c \<le> 0x7F"
      using utf8_valid_byte [of c] that by (simp add: step_ok_def utf8_valid_append)
    moreover have "step_ok l (Inr (Some T_value_string, lexer_get l))" by (simp add: step_ok_def)
    ultimately show ?thesis using True unfolding scan_string_step_def Let_def cur by (auto simp: byte_def)
  next
    case False
    then have n: "0x80 \<le> byte c" by simp
    show ?thesis
    proof (cases "sequence_ranges (byte c)")
      case None
      with False show ?thesis unfolding scan_string_step_def Let_def cur by (auto simp: byte_def)
    next
      case (Some rs)
      obtain ok l' where r: "next_byte_loop rs (lexer_add c (lexer_get l)) = (ok, l')" by fastforce
      have "utf8_follow (byte c) = Some rs" using Some sequence_ranges_follow [OF n] by simp
      then have "step_ok l (Inr (if ok then None else Some T_parse_error, l'))"
        using next_byte_loop_result [OF r] utf8_valid_sequence utf8_valid_append
        by (auto simp: step_ok_def)
      with False Some r sequence_ranges_length [OF Some] Cons show ?thesis
        unfolding scan_string_step_def Let_def cur by (auto simp: byte_def next_byte_in_range_def asserting_holds)
    qed
  qed
qed

lemma scan_string_step_le:
  assumes "scan_string_step l = Inr (t, l')"
  shows "length (lexer_left l') \<le> length (lexer_left l)"
proof -
  have "length (lexer_left l') \<le> length (lexer_left (lexer_get l))"
    using assms scan_escape_left [of "lexer_get l" t l']
      next_byte_loop_left [of _ "add_current (lexer_get l)"]
    by (auto simp: scan_string_step_def Let_def next_byte_in_range_def bind_res_eq_Inr asserting_eq_Inr
        case_prod_unfold simp del: lexer_get_simps(1) split: option.splits if_splits)
  then show ?thesis by simp
qed

lemma scan_string_loop_total:
  "\<exists>t l'. scan_string_loop l = Inr (t, l') \<and> length (lexer_left l') \<le> length (lexer_left l)
    \<and> t \<in> {T_value_string, T_parse_error}
    \<and> (utf8_valid (token_buffer l) \<and> t = T_value_string \<longrightarrow> utf8_valid (token_buffer l'))"
proof (induction l rule: scan_string_loop.induct)
  case (1 l)
  obtain t l1 where s: "scan_string_step l = Inr (t, l1)" "t \<in> {None, Some T_value_string, Some T_parse_error}"
    "utf8_valid (token_buffer l) \<and> t \<noteq> Some T_parse_error \<longrightarrow> utf8_valid (token_buffer l1)"
    using scan_string_step_ok [of l] by (auto simp: step_ok_def)
  note le = scan_string_step_le [OF s(1)]
  show ?case
  proof (cases t)
    case None
    with "1.IH" [OF s(1), of t l1] s le show ?thesis by (subst scan_string_loop.simps) auto
  next
    case (Some u)
    with s le show ?thesis by (subst scan_string_loop.simps) auto
  qed
qed

section \<open>scan\<close>

definition json_space :: string where
  "json_space = [CHR 0x20, CHR 0x09, CHR 0x0A, CHR 0x0D]"

lemma skip_whitespace_step:
  "skip_whitespace l = (if stops json_space (lexer_left l) then lexer_get l else skip_whitespace (lexer_get l))"
  unfolding skip_whitespace.simps [of l] cur_in_stops json_space_def by simp

lemma skip_whitespace_reads:
  "lexer_left l = ws @ s \<Longrightarrow> set ws \<subseteq> set json_space \<Longrightarrow> stops json_space s
    \<Longrightarrow> lx_current (skip_whitespace l) = (case s of [] \<Rightarrow> None | c # s' \<Rightarrow> Some c)
      \<and> lexer_left (skip_whitespace l) = tl s"
proof (induction ws arbitrary: l)
  case Nil
  then show ?case unfolding skip_whitespace_step [of l] by simp
next
  case (Cons c ws)
  then show ?case unfolding skip_whitespace_step [of l] by simp
qed

lemma split_space: "\<exists>ws r. s = ws @ r \<and> set ws \<subseteq> set json_space \<and> stops json_space r"
proof (induction s)
  case (Cons c s)
  then obtain ws r where r: "s = ws @ r" "set ws \<subseteq> set json_space" "stops json_space r" by blast
  show ?case
  proof (cases "c \<in> set json_space")
    case True
    with r have "c # s = (c # ws) @ r \<and> set (c # ws) \<subseteq> set json_space \<and> stops json_space r" by simp
    then show ?thesis by blast
  next
    case False
    then have "c # s = [] @ (c # s) \<and> set [] \<subseteq> set json_space \<and> stops json_space (c # s)" by simp
    then show ?thesis by blast
  qed
qed simp

lemma scan_literal_loop_total:
  "\<exists>t l'. scan_literal_loop cs ty l = (t, l') \<and> t \<in> {ty, T_parse_error} \<and> length (lexer_left l') \<le> length (lexer_left l)"
proof (induction cs ty l rule: scan_literal_loop.induct)
  case (2 c cs ty l)
  show ?case
  proof (cases "lx_current (lexer_get l) = Some c")
    case True
    with "2.IH" [OF refl] show ?thesis
      by (auto simp: Let_def simp del: lexer_get_simps(1) intro: le_trans)
  next
    case False
    then show ?thesis by (simp add: Let_def del: lexer_get_simps(1))
  qed
qed simp

lemma scan_literal_loop_reads:
  "lexer_left l = cs @ r \<Longrightarrow> \<exists>l'. scan_literal_loop cs ty l = (ty, l') \<and> lexer_left l' = r"
  by (induction cs arbitrary: l) (simp_all add: Let_def)

lemma scan_string_total:
  assumes "lx_current l = Some (CHR 0x22)"
  shows "\<exists>t l'. scan_string l = Inr (t, l') \<and> length (lexer_left l') \<le> length (lexer_left l)
    \<and> t \<in> {T_value_string, T_parse_error} \<and> (t = T_value_string \<longrightarrow> utf8_valid (token_buffer l'))"
  using scan_string_loop_total [of "lexer_reset l"] assms by (auto simp: scan_string_def)

definition token_result :: "lexer \<Rightarrow> (token_type \<times> lexer) res \<Rightarrow> bool" where
  "token_result l r \<longleftrightarrow> (\<exists>t l'. r = Inr (t, l') \<and> t \<noteq> T_uninitialized \<and> t \<noteq> T_literal_or_value
     \<and> length (lexer_left l') \<le> length (lexer_left l) \<and> (t = T_value_string \<longrightarrow> utf8_valid (token_buffer l')))"

lemma token_resultI:
  "r = Inr (t, l') \<Longrightarrow> t \<notin> {T_uninitialized, T_literal_or_value, T_value_string}
    \<Longrightarrow> length (lexer_left l') \<le> length (lexer_left l) \<Longrightarrow> token_result l r"
  by (simp add: token_result_def)

lemma scan_literal_result:
  assumes "lx_current l = Some (hd text)" "ty \<notin> {T_uninitialized, T_literal_or_value, T_value_string}"
  shows "token_result l (scan_literal text ty l)"
proof -
  obtain t l' where "scan_literal_loop (tl text) ty l = (t, l')" "t \<in> {ty, T_parse_error}"
    "length (lexer_left l') \<le> length (lexer_left l)"
    using scan_literal_loop_total [of "tl text" ty l] by blast
  with assms show ?thesis by (intro token_resultI [of _ t l']) (auto simp: scan_literal_def)
qed

lemma scan_number_result:
  assumes "lx_current l = Some c" "c = CHR ''-'' \<or> is_digit c"
  shows "token_result l (scan_number l)"
proof -
  obtain t l' where "scan_number l = Inr (t, l')" "length (lexer_left l') \<le> length (lexer_left l)"
    "t \<in> insert T_parse_error number_tokens"
    using scan_number_total [OF assms] by blast
  then show ?thesis by (intro token_resultI [of _ t l']) auto
qed

lemma scan_string_result: "lx_current l = Some (CHR 0x22) \<Longrightarrow> token_result l (scan_string l)"
  using scan_string_total [of l] by (auto simp: token_result_def)

lemma result_if:
  "(b \<Longrightarrow> token_result l x) \<Longrightarrow> (\<not> b \<Longrightarrow> token_result l y) \<Longrightarrow> token_result l (if b then x else y)"
  by simp

lemma result_here: "t \<notin> {T_uninitialized, T_literal_or_value, T_value_string} \<Longrightarrow> token_result l (Inr (t, l))"
  by (simp add: token_result_def)

lemma result_error: "token_result l (Inr (T_parse_error, l\<lparr>error_message := m\<rparr>))"
  by (simp add: token_result_def)

lemma scan_token_result: "token_result l (scan_token l)"
proof (cases "lx_current l")
  case None
  then show ?thesis by (simp add: scan_token_def token_result_def)
next
  case (Some c)
  show ?thesis
    unfolding scan_token_def Some option.case
    by (intro result_if result_here result_error scan_literal_result scan_string_result scan_number_result [OF Some])
      (simp_all add: Some)
qed

lemma scan_total:
  "\<exists>t l'. scan l = Inr (t, l') \<and> t \<noteq> T_uninitialized \<and> t \<noteq> T_literal_or_value
    \<and> length (lexer_left l') + (if t = T_end_of_input then 0 else 1) \<le> length (lexer_left l)
    \<and> (t = T_value_string \<longrightarrow> utf8_valid (token_buffer l'))"
proof -
  obtain ws r where s: "lexer_left l = ws @ r" "set ws \<subseteq> set json_space" "stops json_space r"
    using split_space by blast
  note sk = skip_whitespace_reads [OF s]
  obtain t l' where t: "scan_token (skip_whitespace l) = Inr (t, l')" "t \<noteq> T_uninitialized" "t \<noteq> T_literal_or_value"
    "length (lexer_left l') \<le> length (tl r)" "t = T_value_string \<longrightarrow> utf8_valid (token_buffer l')"
    using scan_token_result [of "skip_whitespace l"] sk by (auto simp: token_result_def)
  show ?thesis
  proof (cases r)
    case Nil
    then have "t = T_end_of_input" using t(1) sk by (simp add: scan_token_def)
    with t s Nil show ?thesis by (simp add: scan_def)
  next
    case (Cons c r')
    with t s show ?thesis by (simp add: scan_def)
  qed
qed

end
