(* ===== verification/Json_Parser_Properties.thy ===== *)
theory Json_Parser_Properties
  imports Json_Parser Json_Lexer_Strings Json_Dump
begin

text \<open>
  The parser returns for every input: the fuel is never used up, no assertion fails, the only exceptions
  are \<open>parse_error\<close> 101 and \<open>out_of_range\<close> 406, and none is thrown when exceptions are off.  A value
  parsed without a callback is complete, its objects are in order and its texts are well-formed UTF-8.
\<close>

section \<open>Rules for the result monad\<close>

definition wp :: "'a res \<Rightarrow> ('a \<Rightarrow> bool) \<Rightarrow> (failure \<Rightarrow> bool) \<Rightarrow> bool" where
  "wp r Q E = (case r of Inl e \<Rightarrow> E e | Inr x \<Rightarrow> Q x)"

lemma wp_Inr [simp]: "wp (Inr x) Q E = Q x" and wp_Inl [simp]: "wp (Inl e) Q E = E e"
  by (simp_all add: wp_def)

lemma wp_bind: "wp r (\<lambda>x. wp (f x) Q E) E \<Longrightarrow> wp (bind_res r f) Q E"
  by (cases r) simp_all

lemma wp_bind_rule: "wp r R E \<Longrightarrow> (\<And>x. R x \<Longrightarrow> wp (f x) Q E) \<Longrightarrow> wp (bind_res r f) Q E"
  by (cases r) simp_all

lemma wp_mono: "wp r R E \<Longrightarrow> (\<And>x. R x \<Longrightarrow> Q x) \<Longrightarrow> wp r Q E"
  by (cases r) simp_all

lemma wp_if: "(b \<Longrightarrow> wp x Q E) \<Longrightarrow> (\<not> b \<Longrightarrow> wp y Q E) \<Longrightarrow> wp (if b then x else y) Q E"
  by simp

section \<open>Valid values\<close>

fun json_valid :: "json \<Rightarrow> bool" where
  "json_valid (JObject kvs) = (om_ok kvs \<and> (\<forall>kv\<in>set kvs. utf8_valid (fst kv) \<and> json_valid (snd kv)))"
| "json_valid (JArray xs) = (\<forall>x\<in>set xs. json_valid x)"
| "json_valid (JString s) = utf8_valid s"
| "json_valid (JFloat x) = isfinite x"
| "json_valid JDiscarded = False"
| "json_valid _ = True"

lemma json_valid_ok: "json_valid v \<Longrightarrow> json_ok v \<and> json_utf8 v"
  by (induction v rule: json_valid.induct) (auto simp: members_utf8_iff elements_utf8_iff)

lemma json_valid_emplace:
  "json_valid (JObject kvs) \<Longrightarrow> utf8_valid k \<Longrightarrow> json_valid v \<Longrightarrow> json_valid (JObject (om_emplace k v kvs))"
  using set_om_emplace [of k v kvs] by (auto simp: om_ok_emplace)

section \<open>Steps of the parser\<close>

text \<open>The characters still to be read, one more when the last token is not the end.\<close>

definition tokens_bound :: "'s parser \<Rightarrow> nat" where
  "tokens_bound p = length (lexer_left (p_lexer p)) + (if p_last_token p = T_end_of_input then 0 else 1)"

definition token_ok :: "'s parser \<Rightarrow> bool" where
  "token_ok p \<longleftrightarrow> p_last_token p \<noteq> T_uninitialized \<and> p_last_token p \<noteq> T_literal_or_value
     \<and> (p_last_token p = T_value_string \<longrightarrow> utf8_valid (token_buffer (p_lexer p)))"

text \<open>The exceptions the parser may throw.\<close>

definition parse_failure :: "bool \<Rightarrow> failure \<Rightarrow> bool" where
  "parse_failure allow e \<longleftrightarrow>
     allow \<and> ((\<exists>n m. e = Parse_error 101 n m) \<or> (\<exists>m. e = Json_out_of_range 406 m))"

definition same_config :: "'s parser \<Rightarrow> 's parser \<Rightarrow> bool" where
  "same_config p p' \<longleftrightarrow> p_callback p' = p_callback p \<and> p_allow_exceptions p' = p_allow_exceptions p"

definition same_tokens :: "'s parser \<Rightarrow> 's parser \<Rightarrow> bool" where
  "same_tokens p p' \<longleftrightarrow> same_config p p' \<and> p_lexer p' = p_lexer p \<and> p_last_token p' = p_last_token p
     \<and> p_errored p' = p_errored p"

lemma same_config_refl [simp]: "same_config p p"
  by (simp add: same_config_def)

lemma same_config_trans: "same_config p q \<Longrightarrow> same_config q r \<Longrightarrow> same_config p r"
  by (simp add: same_config_def)

lemma same_tokens_refl [simp]: "same_tokens p p"
  by (simp add: same_tokens_def)

lemma same_tokensD:
  "same_tokens p p' \<Longrightarrow> same_config p p'" "same_tokens p p' \<Longrightarrow> tokens_bound p' = tokens_bound p"
  "same_tokens p p' \<Longrightarrow> token_ok p' = token_ok p" "same_tokens p p' \<Longrightarrow> p_errored p' = p_errored p"
  by (simp_all add: same_tokens_def tokens_bound_def token_ok_def)

definition next_token :: "'s parser \<Rightarrow> 's parser \<Rightarrow> bool" where
  "next_token p p' \<longleftrightarrow> same_config p p' \<and> p_errored p' = p_errored p \<and> token_ok p'
     \<and> tokens_bound p' + (if p_last_token p = T_end_of_input then 0 else 1) \<le> tokens_bound p"

lemma get_token_wp: "wp (get_token p) (next_token p) E"
proof -
  obtain t l where s: "scan (p_lexer p) = Inr (t, l)" "t \<noteq> T_uninitialized" "t \<noteq> T_literal_or_value"
    "length (lexer_left l) + (if t = T_end_of_input then 0 else 1) \<le> length (lexer_left (p_lexer p))"
    "t = T_value_string \<longrightarrow> utf8_valid (token_buffer l)"
    using scan_total [of "p_lexer p"] by blast
  then show ?thesis
    by (auto simp: get_token_def next_token_def same_config_def token_ok_def tokens_bound_def)
qed

lemma expect_wp:
  assumes "p_last_token p = t \<Longrightarrow> Q (True, p)"
    and "p_last_token p \<noteq> t \<Longrightarrow> \<not> p_allow_exceptions p \<Longrightarrow> Q (False, p\<lparr>p_errored := True, p_expected := t\<rparr>)"
  shows "wp (expect t p) Q (parse_failure (p_allow_exceptions p))"
  using assms by (auto simp: expect_def Let_def parse_failure_def throw_exception_def)

lemma call_callback_same:
  "call_callback ev v p = (keep, v', p') \<Longrightarrow> same_tokens p p'"
  by (auto simp: call_callback_def same_tokens_def same_config_def split: option.splits prod.splits)

lemma container_start_same:
  assumes "container_start ev fresh keep p = (keep', v, p')"
  shows "same_tokens p p'" "keep' \<Longrightarrow> v = fresh" "p_callback p = None \<Longrightarrow> keep' = keep"
proof -
  have d: "same_tokens p (q\<lparr>p_depth := d\<rparr>)" if "same_tokens p q" for q d
    using that by (simp add: same_tokens_def same_config_def)
  show "same_tokens p p'"
    using assms by (auto simp: container_start_def split: if_splits prod.splits
        dest!: call_callback_same intro: d)
  show "keep' \<Longrightarrow> v = fresh" "p_callback p = None \<Longrightarrow> keep' = keep"
    using assms by (auto simp: container_start_def split: if_splits prod.splits)
qed

lemma container_end_same:
  assumes "container_end ev keep v p = (v', p')"
  shows "same_tokens p p'" "p_callback p = None \<Longrightarrow> v' = v"
proof -
  have d: "same_tokens p q" if "same_tokens (p\<lparr>p_depth := d\<rparr>) q" for q d
    using that by (simp add: same_tokens_def same_config_def)
  show "same_tokens p p'"
    using assms by (auto simp: container_end_def split: if_splits prod.splits
        dest!: call_callback_same intro: d)
  show "p_callback p = None \<Longrightarrow> v' = v"
    using assms by (auto simp: container_end_def split: if_splits)
qed

lemma value_event_same:
  assumes "value_event keep (v, p) = (v', p')"
  shows "same_tokens p p'" "p_callback p = None \<Longrightarrow> v' = v"
  using assms by (auto simp: value_event_def split: if_splits prod.splits
      dest!: call_callback_same)

section \<open>The descent\<close>

text \<open>What \<open>parse_internal\<close> and its loops leave behind.\<close>

definition parsed :: "bool \<Rightarrow> 's parser \<Rightarrow> json \<Rightarrow> 's parser \<Rightarrow> bool" where
  "parsed keep p v p' \<longleftrightarrow> same_config p p' \<and> (p_errored p' \<longrightarrow> \<not> p_allow_exceptions p)
     \<and> tokens_bound p' \<le> tokens_bound p \<and> token_ok p'
     \<and> (keep \<and> p_callback p = None \<and> \<not> p_errored p' \<longrightarrow> json_valid v)"

definition looped :: "bool \<Rightarrow> 's parser \<Rightarrow> bool \<Rightarrow> json \<Rightarrow> 's parser \<Rightarrow> bool" where
  "looped keep p ok v p' \<longleftrightarrow> parsed keep p v p' \<and> p_errored p' = (\<not> ok)"

lemma parse_scalar_wp:
  assumes "\<not> p_errored p" "token_ok p"
    "p_last_token p \<noteq> T_begin_object" "p_last_token p \<noteq> T_begin_array"
  shows "wp (parse_scalar p) (\<lambda>(ok, v, p'). parsed keep p v p' \<and> (\<not> ok \<longrightarrow> p_errored p'))
    (parse_failure (p_allow_exceptions p))"
proof -
  have here: "parsed keep p v p" if "json_valid v" for v
    using that assms by (simp add: parsed_def)
  have err: "parsed keep p v (p\<lparr>p_errored := True, p_expected := t\<rparr>)" if "\<not> p_allow_exceptions p" for v t
    using that assms by (simp add: parsed_def same_config_def tokens_bound_def token_ok_def)
  have bad: "wp (bind_res (expect t p) (\<lambda>(ok, p). Inr (ok, JDiscarded, p)))
      (\<lambda>(ok, v, p'). parsed keep p v p' \<and> (\<not> ok \<longrightarrow> p_errored p')) (parse_failure (p_allow_exceptions p))"
    if "t \<in> {T_uninitialized, T_literal_or_value}" for t
    using that assms(2) by (intro wp_bind expect_wp) (auto simp: token_ok_def intro: err)
  have fl: "wp (parse_float p) (\<lambda>(ok, v, p'). parsed keep p v p' \<and> (\<not> ok \<longrightarrow> p_errored p'))
      (parse_failure (p_allow_exceptions p))"
  proof (cases "isfinite (value_float (p_lexer p))")
    case True
    then show ?thesis by (simp add: parse_float_def here)
  next
    case False
    then show ?thesis
      using assms(2) by (auto simp: parse_float_def parse_failure_def Let_def token_ok_def expect_def intro!: wp_bind err)
  qed
  show ?thesis
    unfolding parse_scalar_def
    using here bad fl assms by (cases "p_last_token p") (simp_all add: token_ok_def)
qed

text \<open>The state \<open>q\<close> is one the parser reaches from \<open>p\<close> without an error.\<close>

definition reached :: "'s parser \<Rightarrow> 's parser \<Rightarrow> bool" where
  "reached p q \<longleftrightarrow> same_config p q \<and> tokens_bound q \<le> tokens_bound p \<and> token_ok q \<and> \<not> p_errored q"

lemma reached_tokens: "reached p q \<Longrightarrow> same_tokens q r \<Longrightarrow> reached p r"
  using same_config_trans [of p q r] same_tokensD(1) [of q r] by (auto simp: reached_def same_tokensD)

lemma reached_next: "reached p q \<Longrightarrow> next_token q r \<Longrightarrow> reached p r"
  using same_config_trans [of p q r] by (auto simp: reached_def next_token_def)

lemma reached_next_less:
  "reached p q \<Longrightarrow> next_token q r \<Longrightarrow> p_last_token q \<noteq> T_end_of_input \<Longrightarrow> tokens_bound r < tokens_bound p"
  by (auto simp: reached_def next_token_def)

lemma reached_parsed: "reached p q \<Longrightarrow> parsed keep q v r \<Longrightarrow> \<not> p_errored r \<Longrightarrow> reached p r"
  using same_config_trans by (auto simp: reached_def parsed_def)

lemma parsed_from: "reached p q \<Longrightarrow> parsed keep q v r \<Longrightarrow> parsed keep p v r"
  using same_config_trans by (auto simp: reached_def parsed_def same_config_def)

lemma expect_reached_wp:
  assumes "reached p q" "p_last_token q = t \<Longrightarrow> Q (True, q)"
    and "\<And>q'. parsed keep p v q' \<Longrightarrow> p_errored q' \<Longrightarrow> Q (False, q')"
  shows "wp (expect t q) Q (parse_failure (p_allow_exceptions p))"
proof -
  have a: "p_allow_exceptions p = p_allow_exceptions q" using assms(1) by (simp add: reached_def same_config_def)
  have "parsed keep p v (q\<lparr>p_errored := True, p_expected := t\<rparr>)" if "\<not> p_allow_exceptions q"
    using that assms(1) by (simp add: parsed_def reached_def same_config_def tokens_bound_def token_ok_def)
  then show ?thesis unfolding a using assms(2,3) by (intro expect_wp) auto
qed

lemma finish_parsed:
  assumes "reached p q" "parsed keep' q v r" "keep \<and> p_callback p = None \<longrightarrow> keep'"
    and "value_event keep' (container_end ev keep'' v r) = (v', r')"
  shows "parsed keep p v' r'"
proof -
  obtain w s where w: "container_end ev keep'' v r = (w, s)" by fastforce
  note e = container_end_same [OF w] value_event_same [OF assms(4) [unfolded w]]
  have "same_config r r'" using same_config_trans [OF same_tokensD(1) [OF e(1)] same_tokensD(1) [OF e(3)]] .
  then have "same_config p r'"
    using assms(1,2) same_config_trans unfolding reached_def parsed_def by metis
  moreover have "p_errored r' = p_errored r" "token_ok r' = token_ok r" "tokens_bound r' = tokens_bound r"
    using same_tokensD(2-4) [OF e(1)] same_tokensD(2-4) [OF e(3)] by simp_all
  moreover have "p_callback p = None \<Longrightarrow> v' = v"
    using e(2,4) assms(1,2) same_tokensD(1) [OF e(1)] by (simp add: reached_def parsed_def same_config_def)
  ultimately show ?thesis using assms(1-3) by (auto simp: parsed_def reached_def same_config_def)
qed

lemma parsed_here:
  "reached p q \<Longrightarrow> keep \<and> p_callback q = None \<longrightarrow> json_valid v \<Longrightarrow> parsed keep q v q"
  by (simp add: parsed_def reached_def)

definition internal_ok :: "nat \<Rightarrow> 's parser \<Rightarrow> bool" where
  "internal_ok n p \<longleftrightarrow> (\<forall>keep. 2 * tokens_bound p + 1 \<le> n \<and> \<not> p_errored p \<and> token_ok p \<longrightarrow>
     wp (parse_internal n keep p) (\<lambda>(v, q). parsed keep p v q) (parse_failure (p_allow_exceptions p)))"

definition members_ok :: "nat \<Rightarrow> 's parser \<Rightarrow> bool" where
  "members_ok n p \<longleftrightarrow> (\<forall>keep v. 2 * tokens_bound p + 2 \<le> n \<and> \<not> p_errored p \<and> token_ok p
     \<and> (keep \<longrightarrow> (\<exists>kvs. v = JObject kvs)) \<and> (keep \<and> p_callback p = None \<longrightarrow> json_valid v) \<longrightarrow>
     wp (parse_members n keep v p) (\<lambda>(ok, v, q). looped keep p ok v q) (parse_failure (p_allow_exceptions p)))"

definition elements_ok :: "nat \<Rightarrow> 's parser \<Rightarrow> bool" where
  "elements_ok n p \<longleftrightarrow> (\<forall>keep v. 2 * tokens_bound p + 2 \<le> n \<and> \<not> p_errored p \<and> token_ok p
     \<and> (keep \<longrightarrow> (\<exists>xs. v = JArray xs)) \<and> (keep \<and> p_callback p = None \<longrightarrow> json_valid v) \<longrightarrow>
     wp (parse_elements n keep v p) (\<lambda>(ok, v, q). looped keep p ok v q) (parse_failure (p_allow_exceptions p)))"

text \<open>An object or an array, given that its loop does what it should.\<close>

lemma container_wp:
  assumes p: "reached p p" "p_last_token p \<noteq> T_end_of_input" "2 * tokens_bound p + 1 \<le> Suc n"
    and start: "container_start ev fresh keep p = (keep', w, q)" and fresh: "json_valid fresh"
    and loop: "\<And>q'. reached p q' \<Longrightarrow> tokens_bound q' < tokens_bound p \<Longrightarrow> keep' \<longrightarrow> w = fresh \<Longrightarrow>
      wp (loop w q') (\<lambda>(ok, v, r). looped keep' q' ok v r) (parse_failure (p_allow_exceptions p))"
  shows "wp (bind_res (get_token q) (\<lambda>q.
      if p_last_token q = stop then Inr (value_event keep' (container_end ev' k w q))
      else bind_res (loop w q) (\<lambda>(ok, v, q).
           Inr (if ok then value_event keep' (container_end ev' keep' v q) else (v, q)))))
    (\<lambda>(v, q). parsed keep p v q) (parse_failure (p_allow_exceptions p))"
proof (rule wp_bind_rule [OF get_token_wp])
  fix r assume r: "next_token q r"
  note s = container_start_same [OF start]
  have q: "reached p q" by (rule reached_tokens [OF p(1) s(1)])
  have r': "reached p r" "tokens_bound r < tokens_bound p"
    using reached_next [OF q r] reached_next_less [OF q r] s(1) p(2) by (simp_all add: same_tokens_def)
  have w: "keep' \<longrightarrow> w = fresh" using s(2) by blast
  have k: "keep \<and> p_callback p = None \<longrightarrow> keep'" using s(3) by blast
  show "wp (if p_last_token r = stop then Inr (value_event keep' (container_end ev' k w r))
      else bind_res (loop w r) (\<lambda>(ok, v, q).
           Inr (if ok then value_event keep' (container_end ev' keep' v q) else (v, q))))
    (\<lambda>(v, q). parsed keep p v q) (parse_failure (p_allow_exceptions p))"
  proof (rule wp_if)
    have "parsed keep' r w r" using parsed_here [OF r'(1), of keep' w] w fresh by blast
    from finish_parsed [OF r'(1) this k] show "wp (Inr (value_event keep' (container_end ev' k w r)))
        (\<lambda>(v, q). parsed keep p v q) (parse_failure (p_allow_exceptions p))" by auto
    show "wp (bind_res (loop w r) (\<lambda>(ok, v, q). Inr (if ok then value_event keep' (container_end ev' keep' v q) else (v, q))))
        (\<lambda>(v, q). parsed keep p v q) (parse_failure (p_allow_exceptions p))"
    proof (rule wp_bind_rule [OF loop [OF r' w]])
      fix x assume "case x of (ok, v, t) \<Rightarrow> looped keep' r ok v t"
      then obtain ok v t where x: "x = (ok, v, t)" "parsed keep' r v t" "p_errored t = (\<not> ok)"
        by (auto simp: looped_def)
      have "parsed keep p v t" if "\<not> ok"
        using that parsed_from [OF r'(1) x(2)] x(3) by (simp add: parsed_def)
      then show "wp (case x of (ok, v, q) \<Rightarrow> Inr (if ok then value_event keep' (container_end ev' keep' v q) else (v, q)))
          (\<lambda>(v, q). parsed keep p v q) (parse_failure (p_allow_exceptions p))"
        using finish_parsed [OF r'(1) x(2) k] by (auto simp: x(1))
    qed
  qed
qed

lemma internal_step:
  fixes p :: "'s parser"
  assumes "\<And>p :: 's parser. members_ok n p" "\<And>p :: 's parser. elements_ok n p"
  shows "internal_ok (Suc n) p"
  unfolding internal_ok_def
proof (intro allI impI)
  fix keep assume a: "2 * tokens_bound p + 1 \<le> Suc n \<and> \<not> p_errored p \<and> token_ok p"
  then have p: "reached p p" "2 * tokens_bound p + 1 \<le> Suc n" "\<not> p_errored p" "token_ok p"
    by (simp_all add: reached_def)
  have config: "p_allow_exceptions q = p_allow_exceptions p" if "reached p q" for q
    using that by (simp add: reached_def same_config_def)
  have room: "2 * tokens_bound q + 2 \<le> n" "\<not> p_errored q" "token_ok q" if "reached p q" "tokens_bound q < tokens_bound p" for q
    using that p(2) by (simp_all add: reached_def)
  consider "p_last_token p = T_begin_object" | "p_last_token p = T_begin_array"
    | "p_last_token p \<noteq> T_begin_object" "p_last_token p \<noteq> T_begin_array" by blast
  then show "wp (parse_internal (Suc n) keep p) (\<lambda>(v, q). parsed keep p v q) (parse_failure (p_allow_exceptions p))"
  proof cases
    case 1
    obtain keep' w q where start: "container_start E_object_start (JObject []) keep p = (keep', w, q)"
      by (cases "container_start E_object_start (JObject []) keep p") auto
    have "wp (parse_members n keep' w q') (\<lambda>(ok, v, r). looped keep' q' ok v r) (parse_failure (p_allow_exceptions p))"
      if "reached p q'" "tokens_bound q' < tokens_bound p" "keep' \<longrightarrow> w = JObject []" for q'
      using assms(1) [of q', unfolded members_ok_def, rule_format, of keep' w] room [OF that(1,2)] that(3) config [OF that(1)]
      by auto
    note c = container_wp [where loop = "parse_members n keep'", OF p(1) _ p(2) start _ this]
    show ?thesis
      unfolding parse_internal.simps(2) asserting_holds [OF p(3)]
      by (simp only: 1 start prod.case if_True if_False token_type.simps refl) (rule c; simp add: 1)
  next
    case 2
    obtain keep' w q where start: "container_start E_array_start (JArray []) keep p = (keep', w, q)"
      by (cases "container_start E_array_start (JArray []) keep p") auto
    have "wp (parse_elements n keep' w q') (\<lambda>(ok, v, r). looped keep' q' ok v r) (parse_failure (p_allow_exceptions p))"
      if "reached p q'" "tokens_bound q' < tokens_bound p" "keep' \<longrightarrow> w = JArray []" for q'
      using assms(2) [of q', unfolded elements_ok_def, rule_format, of keep' w] room [OF that(1,2)] that(3) config [OF that(1)]
      by auto
    note c = container_wp [where loop = "parse_elements n keep'", OF p(1) _ p(2) start _ this]
    show ?thesis
      unfolding parse_internal.simps(2) asserting_holds [OF p(3)]
      by (simp only: 2 start prod.case if_True if_False token_type.simps refl) (rule c; simp add: 2)
  next
    case 3
    have "wp (bind_res (parse_scalar p) (\<lambda>(ok, v, q). Inr (if ok then value_event keep (v, q) else (v, q))))
        (\<lambda>(v, q). parsed keep p v q) (parse_failure (p_allow_exceptions p))"
    proof (rule wp_bind_rule [OF parse_scalar_wp [OF p(3,4) 3]])
      fix x assume "case x of (ok, v, q) \<Rightarrow> parsed keep p v q \<and> (\<not> ok \<longrightarrow> p_errored q)"
      then obtain ok v q where x: "x = (ok, v, q)" "parsed keep p v q" by auto
      obtain v' q' where e: "value_event keep (v, q) = (v', q')" by fastforce
      have "parsed keep p v' q'"
        using x(2) value_event_same [OF e] same_config_trans [of p q q'] same_tokensD [of q q']
        by (auto simp: parsed_def same_config_def)
      with x e show "wp (case x of (ok, v, q) \<Rightarrow> Inr (if ok then value_event keep (v, q) else (v, q)))
          (\<lambda>(v, q). parsed keep p v q) (parse_failure (p_allow_exceptions p))" by simp
    qed
    with 3 p(3) show ?thesis by (simp add: parse_internal.simps(2))
  qed
qed

text \<open>What follows a member or an element: a comma and the next one, or the end.\<close>

lemma separator_wp:
  assumes q: "reached p q" and v: "keep \<and> p_callback p = None \<longrightarrow> json_valid v"
    and loop: "\<And>r. reached p r \<Longrightarrow> tokens_bound r < tokens_bound p \<or> tokens_bound r < tokens_bound q \<Longrightarrow>
      wp (loop r) (\<lambda>(ok, w, t). looped keep r ok w t) (parse_failure (p_allow_exceptions p))"
  shows "wp (bind_res (get_token q) (\<lambda>q.
      if p_last_token q = T_value_separator then bind_res (get_token q) loop
      else bind_res (expect stop q) (\<lambda>(ok, q). Inr (ok, v, q))))
    (\<lambda>(ok, w, t). looped keep p ok w t) (parse_failure (p_allow_exceptions p))"
proof (rule wp_bind_rule [OF get_token_wp], rule wp_if)
  fix r assume "next_token q r"
  from reached_next [OF q this] have r: "reached p r" .
  show "wp (bind_res (expect stop r) (\<lambda>(ok, q). Inr (ok, v, q))) (\<lambda>(ok, w, t). looped keep p ok w t)
      (parse_failure (p_allow_exceptions p))"
  proof (rule wp_bind, rule expect_reached_wp [where keep = keep and v = v, OF r])
    show "wp (case (True, r) of (ok, q) \<Rightarrow> Inr (ok, v, q)) (\<lambda>(ok, w, t). looped keep p ok w t) (parse_failure (p_allow_exceptions p))"
      using r v by (auto simp: looped_def parsed_def reached_def)
    show "wp (case (False, r') of (ok, q) \<Rightarrow> Inr (ok, v, q)) (\<lambda>(ok, w, t). looped keep p ok w t) (parse_failure (p_allow_exceptions p))"
      if "parsed keep p v r'" "p_errored r'" for r'
      using that by (simp add: looped_def)
  qed
  assume sep: "p_last_token r = T_value_separator"
  show "wp (bind_res (get_token r) loop) (\<lambda>(ok, w, t). looped keep p ok w t) (parse_failure (p_allow_exceptions p))"
  proof (rule wp_bind_rule [OF get_token_wp])
    fix t assume t: "next_token r t"
    have rt: "reached p t" "tokens_bound t < tokens_bound p"
      using reached_next [OF r t] reached_next_less [OF r t] sep by simp_all
    show "wp (loop t) (\<lambda>(ok, w, t). looped keep p ok w t) (parse_failure (p_allow_exceptions p))"
      by (rule wp_mono [OF loop [OF rt(1) disjI1 [OF rt(2)]]])
        (auto simp: looped_def intro: parsed_from [OF rt(1)])
  qed
qed

lemma elements_step:
  fixes p :: "'s parser"
  assumes "\<And>p :: 's parser. internal_ok n p" "\<And>p :: 's parser. elements_ok n p"
  shows "elements_ok (Suc n) p"
  unfolding elements_ok_def
proof (intro allI impI)
  fix keep v
  assume a: "2 * tokens_bound p + 2 \<le> Suc n \<and> \<not> p_errored p \<and> token_ok p
    \<and> (keep \<longrightarrow> (\<exists>xs. v = JArray xs)) \<and> (keep \<and> p_callback p = None \<longrightarrow> json_valid v)"
  let ?E = "parse_failure (p_allow_exceptions p)"
  have p: "reached p p" using a by (simp add: reached_def)
  have i: "wp (parse_internal n keep p) (\<lambda>(v, q). parsed keep p v q) ?E"
    using assms(1) [of p, unfolded internal_ok_def, rule_format, of keep] a by simp
  show "wp (parse_elements (Suc n) keep v p) (\<lambda>(ok, v, q). looped keep p ok v q) ?E"
    unfolding parse_elements.simps(2)
  proof (rule wp_bind_rule [OF i], clarify, rule wp_if)
    fix w q assume w: "parsed keep p w q"
    show "p_errored q \<Longrightarrow> wp (Inr (False, v, q)) (\<lambda>(ok, v, q). looped keep p ok v q) ?E"
      using w by (simp add: looped_def parsed_def)
    assume e: "\<not> p_errored q"
    have q: "reached p q" by (rule reached_parsed [OF p w e])
    have loop: "wp (parse_elements n keep u r) (\<lambda>(ok, w, t). looped keep r ok w t) ?E"
      if "reached p r" "tokens_bound r < tokens_bound p \<or> tokens_bound r < tokens_bound q"
        "keep \<longrightarrow> (\<exists>xs. u = JArray xs)" "keep \<and> p_callback p = None \<longrightarrow> json_valid u" for u r
      using assms(2) [of r, unfolded elements_ok_def, rule_format, of keep u] that a q
      by (auto simp: reached_def same_config_def)
    show "wp (bind_res (if keep \<and> w \<noteq> JDiscarded then append_element w v else Inr v) (\<lambda>v.
        bind_res (get_token q) (\<lambda>q.
        if p_last_token q = T_value_separator then bind_res (get_token q) (parse_elements n keep v)
        else bind_res (expect T_end_array q) (\<lambda>(ok, q). Inr (ok, v, q))))) (\<lambda>(ok, v, q). looped keep p ok v q) ?E"
    proof (rule wp_bind_rule)
      show "wp (if keep \<and> w \<noteq> JDiscarded then append_element w v else Inr v)
          (\<lambda>u. (keep \<longrightarrow> (\<exists>xs. u = JArray xs)) \<and> (keep \<and> p_callback p = None \<longrightarrow> json_valid u)) ?E"
        using a w e by (auto simp: append_element_def parsed_def)
    qed (use separator_wp [OF q] loop in blast)
  qed
qed

text \<open>A member: key, colon and value; every failed expectation ends the loop with an error.\<close>

lemma members_step:
  fixes p :: "'s parser"
  assumes "\<And>p :: 's parser. internal_ok n p" "\<And>p :: 's parser. members_ok n p"
  shows "members_ok (Suc n) p"
  unfolding members_ok_def
proof (intro allI impI)
  fix keep v
  assume a: "2 * tokens_bound p + 2 \<le> Suc n \<and> \<not> p_errored p \<and> token_ok p
    \<and> (keep \<longrightarrow> (\<exists>kvs. v = JObject kvs)) \<and> (keep \<and> p_callback p = None \<longrightarrow> json_valid v)"
  let ?E = "parse_failure (p_allow_exceptions p)" and ?Q = "\<lambda>(ok, v, q). looped keep p ok v q"
  have p: "reached p p" using a by (simp add: reached_def)
  have stop: "looped keep p False v q" if "parsed keep p v q" "p_errored q" for q
    using that by (simp add: looped_def)
  show "wp (parse_members (Suc n) keep v p) ?Q ?E"
    unfolding parse_members.simps(2)
  proof (rule wp_bind, rule expect_reached_wp [where keep = keep and v = v, OF p], goal_cases)
    case (2 q)
    then show ?case by (simp add: stop)
  next
    case 1
    define key where "key = token_buffer (p_lexer p)"
    have key: "utf8_valid key" using a 1 by (simp add: token_ok_def key_def)
    obtain tag w q where kt: "(if keep then call_callback E_key (JString key) p else (False, JNull, p)) = (tag, w, q)"
      by (cases "if keep then call_callback E_key (JString key) p else (False, JNull, p)") auto
    then have "same_tokens p q" by (auto split: if_splits dest: call_callback_same)
    then have q: "reached p q" "p_last_token q = T_value_string"
      using reached_tokens [OF p] 1 by (simp_all add: same_tokens_def)
    show ?case
      unfolding case_prod_conv not_True_eq_False if_False Let_def key_def [symmetric] kt
    proof (rule wp_bind_rule [OF get_token_wp], rule wp_bind)
      fix r assume "next_token q r"
      then have r: "reached p r" "tokens_bound r < tokens_bound p"
        using reached_next [OF q(1)] reached_next_less [OF q(1)] q(2) by simp_all
      show "wp (expect T_name_separator r) (\<lambda>x. wp (case x of (ok, p) \<Rightarrow>
          if \<not> ok then Inr (False, v, p)
          else bind_res (get_token p) (\<lambda>p. bind_res (parse_internal n keep p) (\<lambda>(va, p).
            if p_errored p then Inr (False, v, p)
            else bind_res (if keep \<and> tag \<and> va \<noteq> JDiscarded then emplace_member key va v else Inr v) (\<lambda>v.
                 bind_res (get_token p) (\<lambda>p. if p_last_token p = T_value_separator
                   then bind_res (get_token p) (\<lambda>p. parse_members n keep v p)
                   else bind_res (expect T_end_object p) (\<lambda>(ok, p). Inr (ok, v, p))))))) ?Q ?E) ?E"
      proof (rule expect_reached_wp [where keep = keep and v = v, OF r(1)], goal_cases)
        case (2 t)
        then show ?case by (simp add: stop)
      next
        case 1
        show ?case
          unfolding case_prod_conv not_True_eq_False if_False
        proof (rule wp_bind_rule [OF get_token_wp])
          fix s assume "next_token r s"
          then have s: "reached p s" "tokens_bound s < tokens_bound p"
            using reached_next [OF r(1)] reached_next_less [OF r(1)] 1 by simp_all
          have i: "wp (parse_internal n keep s) (\<lambda>(v, q). parsed keep s v q) ?E"
            using assms(1) [of s, unfolded internal_ok_def, rule_format, of keep] a s
            by (simp add: reached_def same_config_def)
          show "wp (bind_res (parse_internal n keep s) (\<lambda>(va, p).
            if p_errored p then Inr (False, v, p)
            else bind_res (if keep \<and> tag \<and> va \<noteq> JDiscarded then emplace_member key va v else Inr v) (\<lambda>v.
                 bind_res (get_token p) (\<lambda>p. if p_last_token p = T_value_separator
                   then bind_res (get_token p) (\<lambda>p. parse_members n keep v p)
                   else bind_res (expect T_end_object p) (\<lambda>(ok, p). Inr (ok, v, p)))))) ?Q ?E"
          proof (rule wp_bind_rule [OF i], clarify, rule wp_if)
            fix w t assume w: "parsed keep s w t"
            have "parsed keep p w t" by (rule parsed_from [OF s(1) w])
            then show "p_errored t \<Longrightarrow> wp (Inr (False, v, t)) ?Q ?E" by (simp add: looped_def parsed_def)
            assume e: "\<not> p_errored t"
            have t: "reached p t" by (rule reached_parsed [OF s(1) w e])
            have tb: "tokens_bound t < tokens_bound p" using w s(2) by (simp add: parsed_def)
            have loop: "wp (parse_members n keep u r) (\<lambda>(ok, w, t). looped keep r ok w t) ?E"
              if "reached p r" "tokens_bound r < tokens_bound p \<or> tokens_bound r < tokens_bound t"
                "keep \<longrightarrow> (\<exists>xs. u = JObject xs)" "keep \<and> p_callback p = None \<longrightarrow> json_valid u" for u r
              using assms(2) [of r, unfolded members_ok_def, rule_format, of keep u] that a tb
              by (auto simp: reached_def same_config_def)
            show "wp (bind_res (if keep \<and> tag \<and> w \<noteq> JDiscarded then emplace_member key w v else Inr v) (\<lambda>v.
                 bind_res (get_token t) (\<lambda>p. if p_last_token p = T_value_separator
                   then bind_res (get_token p) (\<lambda>p. parse_members n keep v p)
                   else bind_res (expect T_end_object p) (\<lambda>(ok, p). Inr (ok, v, p))))) ?Q ?E"
            proof (rule wp_bind_rule)
              have w': "json_valid w" if "keep" "p_callback p = None"
                using w e that s(1) by (simp add: parsed_def reached_def same_config_def)
              show "wp (if keep \<and> tag \<and> w \<noteq> JDiscarded then emplace_member key w v else Inr v)
                  (\<lambda>u. (keep \<longrightarrow> (\<exists>xs. u = JObject xs)) \<and> (keep \<and> p_callback p = None \<longrightarrow> json_valid u)) ?E"
              proof (rule wp_if)
                assume k: "keep \<and> tag \<and> w \<noteq> JDiscarded"
                then obtain kvs where v: "v = JObject kvs" using a by blast
                show "wp (emplace_member key w v)
                    (\<lambda>u. (keep \<longrightarrow> (\<exists>xs. u = JObject xs)) \<and> (keep \<and> p_callback p = None \<longrightarrow> json_valid u)) ?E"
                  using a k w' json_valid_emplace [OF _ key, of kvs w]
                  by (simp add: v emplace_member_def del: json_valid.simps)
              qed (use a in simp)
            qed (use separator_wp [OF t] loop in blast)
          qed
        qed
      qed
    qed
  qed
qed

lemma parser_ok: "internal_ok n p \<and> members_ok n p \<and> elements_ok n p"
proof (induction n arbitrary: p)
  case 0
  show ?case by (simp add: internal_ok_def members_ok_def elements_ok_def)
next
  case (Suc n)
  have "internal_ok n q" "members_ok n q" "elements_ok n q" for q :: "'a parser"
    using Suc.IH [of q] by simp_all
  then show ?case using internal_step [of n p] members_step [of n p] elements_step [of n p] by simp
qed

section \<open>The parser as a whole\<close>

lemma parse_internal_wp:
  assumes "\<not> p_errored p" "token_ok p"
  shows "wp (parse_internal (parser_fuel p) keep p) (\<lambda>(v, q). parsed keep p v q)
    (parse_failure (p_allow_exceptions p))"
proof -
  have "2 * tokens_bound p + 1 \<le> parser_fuel p" by (simp add: tokens_bound_def parser_fuel_def)
  with parser_ok [of "parser_fuel p" p] assms show ?thesis by (simp add: internal_ok_def)
qed

lemma parser_parse_wp:
  assumes "\<not> p_errored p"
  shows "wp (parser_parse strict p)
    (\<lambda>v. p_callback p = None \<and> p_allow_exceptions p \<longrightarrow> json_valid v) (parse_failure (p_allow_exceptions p))"
  unfolding parser_parse_def
proof (rule wp_bind_rule [OF get_token_wp])
  fix q assume "next_token p q"
  then have q: "\<not> p_errored q" "token_ok q" "p_allow_exceptions q = p_allow_exceptions p" "p_callback q = p_callback p"
    using assms by (simp_all add: next_token_def same_config_def)
  let ?Q = "\<lambda>v. p_callback p = None \<and> p_allow_exceptions p \<longrightarrow> json_valid v"
    and ?E = "parse_failure (p_allow_exceptions p)"
  show "wp (bind_res (parse_internal (parser_fuel q) True q) (\<lambda>(result, p).
      bind_res (if strict then bind_res (get_token p) (\<lambda>p. bind_res (expect T_end_of_input p) (\<lambda>(_, p). Inr p)) else Inr p)
        (\<lambda>p. if p_errored p then Inr JDiscarded else Inr (if result = JDiscarded then JNull else result)))) ?Q ?E"
  proof (rule wp_bind_rule [OF parse_internal_wp [OF q(1,2), of True, unfolded q(3)]], clarify, rule wp_bind)
    fix v r assume v: "parsed True q v r"
    have r: "p_allow_exceptions r = p_allow_exceptions p" "p_errored r \<longrightarrow> \<not> p_allow_exceptions p"
      "p_callback p = None \<and> \<not> p_errored r \<longrightarrow> json_valid v"
      using v q by (simp_all add: parsed_def same_config_def)
    have final: "wp (if p_errored t then Inr JDiscarded else Inr (if v = JDiscarded then JNull else v)) ?Q ?E"
      if "p_errored t \<longrightarrow> \<not> p_allow_exceptions p" "p_errored r \<longrightarrow> p_errored t" for t :: "'a parser"
      using that r(3) by auto
    show "wp (if strict then bind_res (get_token r) (\<lambda>p. bind_res (expect T_end_of_input p) (\<lambda>(_, p). Inr p)) else Inr r)
        (\<lambda>t. wp (if p_errored t then Inr JDiscarded else Inr (if v = JDiscarded then JNull else v)) ?Q ?E) ?E"
    proof (rule wp_if)
      show "wp (Inr r) (\<lambda>t. wp (if p_errored t then Inr JDiscarded else Inr (if v = JDiscarded then JNull else v)) ?Q ?E) ?E"
        unfolding wp_Inr by (rule final) (use r(2) in simp_all)
      show "wp (bind_res (get_token r) (\<lambda>p. bind_res (expect T_end_of_input p) (\<lambda>(_, p). Inr p)))
          (\<lambda>t. wp (if p_errored t then Inr JDiscarded else Inr (if v = JDiscarded then JNull else v)) ?Q ?E) ?E"
      proof (rule wp_bind_rule [OF get_token_wp], rule wp_bind)
        fix s assume "next_token r s"
        then have s: "p_errored s = p_errored r" "p_allow_exceptions s = p_allow_exceptions p"
          using r by (simp_all add: next_token_def same_config_def)
        show "wp (expect T_end_of_input s) (\<lambda>x. wp (case x of (_, p) \<Rightarrow> Inr p)
            (\<lambda>t. wp (if p_errored t then Inr JDiscarded else Inr (if v = JDiscarded then JNull else v)) ?Q ?E) ?E) ?E"
          unfolding s(2) [symmetric]
          by (rule expect_wp; unfold prod.case wp_Inr s(2)) (rule final; use r(2) s in simp)+
      qed
    qed
  qed
qed

text \<open>Property C11: for every input, callback and setting, \<open>basic_json::parse\<close> returns a value or throws
  \<open>parse_error\<close> 101 or \<open>out_of_range\<close> 406, and throws nothing when exceptions are off: no assertion of lexer
  or parser fails, no member is stored in a value that is no object, and the recursion ends.\<close>

theorem json_parse_total:
  "case json_parse i cb s allow of
     Inr v \<Rightarrow> True
   | Inl e \<Rightarrow> allow \<and> ((\<exists>n m. e = Parse_error 101 n m) \<or> (\<exists>m. e = Json_out_of_range 406 m))"
  using parser_parse_wp [of "parser_new i cb s allow" True]
  by (simp add: json_parse_def wp_def parse_failure_def parser_new_def split: sum.splits)

text \<open>A text parsed without a callback gives a valid value.\<close>

lemma json_parse_text_valid: "json_parse_text i = Inr v \<Longrightarrow> json_valid v"
  using parser_parse_wp [of "parser_new i None () True" True]
  by (simp add: json_parse_text_def json_parse_def wp_def parser_new_def)

end
