(* ===== verification/Json_Parser_Equivalence.thy ===== *)
theory Json_Parser_Equivalence
  imports Json_Parser_Properties
begin

text \<open>
  \<open>accept\<close>, a second recursive descent that builds no value, accepts exactly the texts for which \<open>parse\<close>
  returns one: a simulation of the two descents by induction on the fuel.
\<close>

section \<open>accept and parse\<close>

text \<open>A state of a parser without a callback that throws and has met no error.\<close>

definition plain :: "'s parser \<Rightarrow> bool" where
  "plain p \<longleftrightarrow> p_callback p = None \<and> p_allow_exceptions p \<and> \<not> p_errored p \<and> token_ok p"

text \<open>What one descent returns the other accepts, with the same state; what it throws at is rejected.\<close>

definition same_verdict :: "(json \<times> 's parser) res \<Rightarrow> (bool \<times> 's parser) res \<Rightarrow> bool" where
  "same_verdict r a \<longleftrightarrow>
     (case r of
        Inr (v, p) \<Rightarrow> a = Inr (True, p) \<and> plain p
      | Inl e \<Rightarrow> (\<exists>m. e = Undefined_behaviour m) \<or> (\<exists>q. a = Inr (False, q)))"

definition same_loop :: "(bool \<times> json \<times> 's parser) res \<Rightarrow> (bool \<times> 's parser) res \<Rightarrow> bool" where
  "same_loop r a \<longleftrightarrow>
     (case r of
        Inr (ok, v, p) \<Rightarrow> ok \<and> a = Inr (True, p) \<and> plain p
      | Inl e \<Rightarrow> (\<exists>m. e = Undefined_behaviour m) \<or> (\<exists>q. a = Inr (False, q)))"

lemma same_verdict_simps [simp]:
  "same_verdict (Inr (v, p)) a \<longleftrightarrow> a = Inr (True, p) \<and> plain p"
  "same_verdict (Inl e) (Inr (False, q))" "same_verdict (Inl (Undefined_behaviour m)) a"
  "same_loop (Inr (ok, v, p)) a \<longleftrightarrow> ok \<and> a = Inr (True, p) \<and> plain p"
  "same_loop (Inl e) (Inr (False, q))" "same_loop (Inl (Undefined_behaviour m)) a"
  by (simp_all add: same_verdict_def same_loop_def)

lemma get_token_plain: "plain p \<Longrightarrow> \<exists>q. get_token p = Inr q \<and> plain q"
  using get_token_wp [of p] by (cases "get_token p") (auto simp: next_token_def plain_def same_config_def)

lemma expect_plain:
  "plain p \<Longrightarrow> (if p_last_token p = t then expect t p = Inr (True, p) else \<exists>e. expect t p = Inl e)"
  by (simp add: plain_def expect_def Let_def)

lemma no_callback:
  assumes "plain p"
  shows "container_start ev fresh True p = (True, fresh, p)" "container_end ev True v p = (v, p)"
    "value_event True (v, p) = (v, p)" "call_callback ev v p = (True, v, p)"
  using assms by (simp_all add: plain_def container_start_def container_end_def value_event_def call_callback_def)

lemma scalar_verdict:
  assumes p: "plain p" and t: "p_last_token p \<noteq> T_begin_object" "p_last_token p \<noteq> T_begin_array"
  shows "same_verdict (bind_res (parse_scalar p) (\<lambda>(ok, v, q). Inr (if ok then value_event True (v, q) else (v, q))))
    (if p_last_token p = T_value_float then Inr (isfinite (value_float (p_lexer p)), p)
     else Inr (p_last_token p \<in> {T_literal_false, T_literal_null, T_literal_true, T_value_integer,
                 T_value_string, T_value_unsigned}, p))"
proof -
  have e: "\<exists>e. expect u p = Inl e" if "u \<in> {T_uninitialized, T_literal_or_value}" for u
    using that p expect_plain [OF p, of u] by (auto simp: plain_def token_ok_def split: if_splits)
  obtain e1 e2 where e12: "expect T_uninitialized p = Inl e1" "expect T_literal_or_value p = Inl e2"
    using e [of T_uninitialized] e [of T_literal_or_value] by auto
  have a: "p_allow_exceptions p" using p by (simp add: plain_def)
  show ?thesis
    using t p a by (cases "p_last_token p") (simp_all add: parse_scalar_def parse_float_def Let_def e12 no_callback)
qed

definition internal_same :: "nat \<Rightarrow> 's parser \<Rightarrow> bool" where
  "internal_same n p \<longleftrightarrow> (plain p \<longrightarrow> same_verdict (parse_internal n True p) (accept_internal n p))"

definition members_same :: "nat \<Rightarrow> 's parser \<Rightarrow> bool" where
  "members_same n p \<longleftrightarrow>
     (\<forall>kvs. plain p \<longrightarrow> same_loop (parse_members n True (JObject kvs) p) (accept_members n p))"

definition elements_same :: "nat \<Rightarrow> 's parser \<Rightarrow> bool" where
  "elements_same n p \<longleftrightarrow>
     (\<forall>xs. plain p \<longrightarrow> same_loop (parse_elements n True (JArray xs) p) (accept_elements n p))"

lemma same_loop_end:
  assumes "same_loop r a"
  shows "same_verdict (bind_res r (\<lambda>(ok, v, q).
    Inr (if ok then value_event True (container_end ev True v q) else (v, q)))) a"
proof (cases r)
  case (Inl e)
  with assms show ?thesis by (simp add: same_loop_def same_verdict_def)
next
  case (Inr x)
  with assms show ?thesis by (cases x) (auto simp: no_callback)
qed

lemma internal_same_step:
  fixes p :: "'s parser"
  assumes "\<And>p :: 's parser. members_same n p" "\<And>p :: 's parser. elements_same n p"
  shows "internal_same (Suc n) p"
  unfolding internal_same_def
proof
  assume p: "plain p"
  then have e: "\<not> p_errored p" by (simp add: plain_def)
  obtain q where q: "get_token p = Inr q" "plain q" using get_token_plain [OF p] by blast
  note m = same_loop_end [OF assms(1) [of q, unfolded members_same_def, rule_format, OF q(2)]]
    and x = same_loop_end [OF assms(2) [of q, unfolded elements_same_def, rule_format, OF q(2)]]
  consider "p_last_token p = T_begin_object" | "p_last_token p = T_begin_array"
    | "p_last_token p \<noteq> T_begin_object" "p_last_token p \<noteq> T_begin_array" by blast
  then show "same_verdict (parse_internal (Suc n) True p) (accept_internal (Suc n) p)"
  proof cases
    case 1
    with e q m show ?thesis
      by (simp add: parse_internal.simps(2) accept_internal.simps(2) no_callback p)
  next
    case 2
    with e q x show ?thesis
      by (simp add: parse_internal.simps(2) accept_internal.simps(2) no_callback p)
  next
    case 3
    with e scalar_verdict [OF p 3] show ?thesis
      by (simp add: parse_internal.simps(2) accept_internal.simps(2))
  qed
qed

text \<open>After a member or an element, both go on at a comma and stop at the closing bracket.\<close>

lemma separator_same:
  assumes p: "plain p" and loop: "\<And>q. plain q \<Longrightarrow> same_loop (f q) (g q)"
  shows "same_loop
    (bind_res (get_token p) (\<lambda>p.
       if p_last_token p = T_value_separator then bind_res (get_token p) f
       else bind_res (expect stop p) (\<lambda>(ok, p). Inr (ok, v, p))))
    (bind_res (get_token p) (\<lambda>p.
       if p_last_token p = T_value_separator then bind_res (get_token p) g
       else Inr (p_last_token p = stop, p)))"
proof -
  obtain q where q: "get_token p = Inr q" "plain q" using get_token_plain [OF p] by blast
  obtain r where r: "get_token q = Inr r" "plain r" using get_token_plain [OF q(2)] by blast
  show ?thesis
    using q r loop [OF r(2)] expect_plain [OF q(2), of stop] by (auto split: if_splits)
qed

lemma elements_same_step:
  fixes p :: "'s parser"
  assumes "\<And>p :: 's parser. internal_same n p" "\<And>p :: 's parser. elements_same n p"
  shows "elements_same (Suc n) p"
  unfolding elements_same_def
proof (intro allI impI)
  fix xs assume p: "plain p"
  have i: "same_verdict (parse_internal n True p) (accept_internal n p)"
    using assms(1) [of p] p by (simp add: internal_same_def)
  show "same_loop (parse_elements (Suc n) True (JArray xs) p) (accept_elements (Suc n) p)"
  proof (cases "parse_internal n True p")
    case (Inl e)
    with i show ?thesis by (auto simp: parse_elements.simps(2) accept_elements.simps(2) same_verdict_def)
  next
    case (Inr r)
    then obtain v q where r: "parse_internal n True p = Inr (v, q)" by (cases r) auto
    with i have q: "accept_internal n p = Inr (True, q)" "plain q" "\<not> p_errored q" by (simp_all add: plain_def)
    have "\<exists>ys. (if True \<and> v \<noteq> JDiscarded then append_element v (JArray xs) else Inr (JArray xs)) = Inr (JArray ys)"
      by (simp add: append_element_def)
    then obtain ys where ys: "(if True \<and> v \<noteq> JDiscarded then append_element v (JArray xs) else Inr (JArray xs)) = Inr (JArray ys)" ..
    have "same_loop (parse_elements n True (JArray ys) q) (accept_elements n q)" if "plain q" for q :: "'s parser"
      using assms(2) [of q] that by (simp add: elements_same_def)
    note s = separator_same [OF q(2) this, of "\<lambda>q. q" T_end_array "JArray ys"]
    show ?thesis
      unfolding parse_elements.simps(2) accept_elements.simps(2) r q(1) bind_res_Inr prod.case ys
      using s q(3) by simp
  qed
qed

lemma members_same_step:
  fixes p :: "'s parser"
  assumes "\<And>p :: 's parser. internal_same n p" "\<And>p :: 's parser. members_same n p"
  shows "members_same (Suc n) p"
  unfolding members_same_def
proof (intro allI impI)
  fix kvs assume p: "plain p"
  obtain q where q: "get_token p = Inr q" "plain q" using get_token_plain [OF p] by blast
  obtain r where r: "get_token q = Inr r" "plain r" using get_token_plain [OF q(2)] by blast
  show "same_loop (parse_members (Suc n) True (JObject kvs) p) (accept_members (Suc n) p)"
  proof (cases "p_last_token p = T_value_string \<and> p_last_token q = T_name_separator")
    case False
    with q expect_plain [OF p, of T_value_string] expect_plain [OF q(2), of T_name_separator] show ?thesis
      by (auto simp: parse_members.simps(2) accept_members.simps(2) no_callback [OF p] Let_def split: if_splits)
  next
    case True
    let ?key = "token_buffer (p_lexer p)"
    have x: "expect T_value_string p = Inr (True, p)" and y: "expect T_name_separator q = Inr (True, q)"
      using True expect_plain [OF p, of T_value_string] expect_plain [OF q(2), of T_name_separator] by simp_all
    have i: "same_verdict (parse_internal n True r) (accept_internal n r)"
      using assms(1) [of r] r(2) by (simp add: internal_same_def)
    define rest where "rest = (\<lambda>(w, p :: 's parser). if p_errored p then Inr (False, JObject kvs, p)
        else bind_res (if True \<and> True \<and> w \<noteq> JDiscarded then emplace_member ?key w (JObject kvs) else Inr (JObject kvs))
             (\<lambda>result. bind_res (get_token p) (\<lambda>p. if p_last_token p = T_value_separator
               then bind_res (get_token p) (\<lambda>p. parse_members n True result p)
               else bind_res (expect T_end_object p) (\<lambda>(ok, p). Inr (ok, result, p)))))"
    have e: "parse_members (Suc n) True (JObject kvs) p = bind_res (parse_internal n True r) rest"
      unfolding parse_members.simps(2) x bind_res_Inr prod.case Let_def no_callback(4) [OF p] not_True_eq_False
        if_False if_True q(1) y r(1) rest_def by (rule refl)
    have a: "accept_members (Suc n) p = bind_res (accept_internal n r) (\<lambda>(ok, p).
        if \<not> ok then Inr (False, p)
        else bind_res (get_token p) (\<lambda>p. if p_last_token p = T_value_separator
             then bind_res (get_token p) (\<lambda>p. accept_members n p) else Inr (p_last_token p = T_end_object, p)))"
      using True by (simp add: accept_members.simps(2) q(1) r(1))
    show ?thesis
    proof (cases "parse_internal n True r")
      case (Inl f)
      with i show ?thesis unfolding e a by (auto simp: same_verdict_def)
    next
      case (Inr z)
      then obtain v t where z: "parse_internal n True r = Inr (v, t)" by (cases z) auto
      with i have t: "accept_internal n r = Inr (True, t)" "plain t" "\<not> p_errored t" by (simp_all add: plain_def)
      have "\<exists>m. (if True \<and> True \<and> v \<noteq> JDiscarded then emplace_member ?key v (JObject kvs) else Inr (JObject kvs))
          = Inr (JObject m)"
        by (simp add: emplace_member_def)
      then obtain m where m: "(if True \<and> True \<and> v \<noteq> JDiscarded then emplace_member ?key v (JObject kvs)
          else Inr (JObject kvs)) = Inr (JObject m)" ..
      have "same_loop (parse_members n True (JObject m) q) (accept_members n q)" if "plain q" for q :: "'s parser"
        using assms(2) [of q] that by (simp add: members_same_def)
      note s = separator_same [OF t(2) this, of "\<lambda>q. q" T_end_object "JObject m"]
      show ?thesis
        unfolding e a z t(1) bind_res_Inr rest_def prod.case m using s t(3) by simp
    qed
  qed
qed

lemma descents_same: "internal_same n p \<and> members_same n p \<and> elements_same n p"
proof (induction n arbitrary: p)
  case 0
  show ?case
    by (simp add: internal_same_def members_same_def elements_same_def parse_internal.simps(1)
        parse_members.simps(1) parse_elements.simps(1))
next
  case (Suc n)
  have "internal_same n q" "members_same n q" "elements_same n q" for q :: "'a parser"
    using Suc.IH [of q] by simp_all
  then show ?case using internal_same_step [of n p] members_same_step [of n p] elements_same_step [of n p] by simp
qed

text \<open>Property C10: \<open>accept\<close> and \<open>parse\<close> agree on every input: \<open>accept\<close> returns for every input, and
  returns true for exactly the inputs \<open>parse\<close> returns a value for instead of throwing.\<close>

theorem accept_iff_parse: "json_accept i = Inr (is_ok (json_parse_text i))"
proof -
  define p where "p = parser_new i None () True"
  have p: "p_callback p = None" "p_allow_exceptions p" "\<not> p_errored p" by (simp_all add: p_def parser_new_def)
  obtain q where q: "get_token p = Inr q" "plain q"
    using get_token_wp [of p] p by (cases "get_token p") (auto simp: next_token_def plain_def same_config_def)
  have total: "wp (parse_internal (parser_fuel q) True q) (\<lambda>(v, r). parsed True q v r) (parse_failure True)"
    using parse_internal_wp [of q True] q(2) by (simp add: plain_def)
  have i: "same_verdict (parse_internal (parser_fuel q) True q) (accept_internal (parser_fuel q) q)"
    using descents_same [of "parser_fuel q" q] q(2) by (simp add: internal_same_def)
  show ?thesis
  proof (cases "parse_internal (parser_fuel q) True q")
    case (Inl e)
    then have "\<not> (\<exists>m. e = Undefined_behaviour m)" using total by (auto simp: parse_failure_def)
    with Inl i obtain r where "accept_internal (parser_fuel q) q = Inr (False, r)" by (auto simp: same_verdict_def)
    with Inl q(1) show ?thesis
      by (simp add: json_accept_def json_parse_text_def json_parse_def parser_parse_def parser_accept_def flip: p_def)
  next
    case (Inr x)
    then obtain v r where x: "parse_internal (parser_fuel q) True q = Inr (v, r)" by (cases x) auto
    with i have r: "accept_internal (parser_fuel q) q = Inr (True, r)" "plain r" by simp_all
    obtain t where t: "get_token r = Inr t" "plain t" using get_token_plain [OF r(2)] by blast
    have "\<not> p_errored t" using t(2) by (simp add: plain_def)
    with q(1) x r(1) t(1) expect_plain [OF t(2), of T_end_of_input] show ?thesis
      by (auto simp: json_accept_def json_parse_text_def json_parse_def parser_parse_def parser_accept_def
          split: if_splits simp flip: p_def)
  qed
qed

end
