(* ===== verification/Json_Parser_Quiet.thy ===== *)
theory Json_Parser_Quiet
  imports Json_Parser_Properties
begin

text \<open>
  \<open>parse\<close> with exceptions off returns the value it returns with exceptions on, or a discarded value exactly
  where that throws: a simulation of the two runs by induction on the fuel, with any callback.
\<close>

section \<open>Two runs side by side\<close>

text \<open>The same parser with exceptions off, a parser that throws and has met no error, and one that does not
  throw and has met one.\<close>

definition off :: "'s parser \<Rightarrow> 's parser" where
  "off p = p\<lparr>p_allow_exceptions := False\<rparr>"

definition throwing :: "'s parser \<Rightarrow> bool" where
  "throwing p \<longleftrightarrow> p_allow_exceptions p \<and> \<not> p_errored p"

definition failed :: "'s parser \<Rightarrow> bool" where
  "failed p \<longleftrightarrow> p_errored p \<and> \<not> p_allow_exceptions p"

lemma off_simps [simp]:
  "p_last_token (off p) = p_last_token p" "p_lexer (off p) = p_lexer p" "p_errored (off p) = p_errored p"
  "p_callback (off p) = p_callback p" "p_callback_state (off p) = p_callback_state p"
  "p_depth (off p) = p_depth p" "p_allow_exceptions (off p) = False"
  by (simp_all add: off_def)

lemma off_update [simp]:
  "off (p\<lparr>p_depth := d\<rparr>) = (off p)\<lparr>p_depth := d\<rparr>"
  "off (p\<lparr>p_callback_state := s\<rparr>) = (off p)\<lparr>p_callback_state := s\<rparr>"
  "off (p\<lparr>p_lexer := l, p_last_token := t\<rparr>) = (off p)\<lparr>p_lexer := l, p_last_token := t\<rparr>"
  by (simp_all add: off_def)

text \<open>What the run with exceptions returns the other returns too; where it throws, the other has failed.\<close>

definition quiet :: "(json \<times> 's parser) res \<Rightarrow> (json \<times> 's parser) res \<Rightarrow> bool" where
  "quiet r r' \<longleftrightarrow>
     (case r of
        Inr (v, p) \<Rightarrow> r' = Inr (v, off p) \<and> throwing p
      | Inl e \<Rightarrow> (\<exists>m. e = Undefined_behaviour m) \<or> (\<exists>v q. r' = Inr (v, q) \<and> failed q))"

definition quiet_loop :: "(bool \<times> json \<times> 's parser) res \<Rightarrow> (bool \<times> json \<times> 's parser) res \<Rightarrow> bool" where
  "quiet_loop r r' \<longleftrightarrow>
     (case r of
        Inr (ok, v, p) \<Rightarrow> ok \<and> r' = Inr (True, v, off p) \<and> throwing p
      | Inl e \<Rightarrow> (\<exists>m. e = Undefined_behaviour m) \<or> (\<exists>v q. r' = Inr (False, v, q) \<and> failed q))"

lemma quiet_simps [simp]:
  "quiet (Inr (v, p)) r' \<longleftrightarrow> r' = Inr (v, off p) \<and> throwing p"
  "quiet (Inl (Undefined_behaviour m)) r'" "failed q \<Longrightarrow> quiet (Inl e) (Inr (v, q))"
  "quiet_loop (Inr (ok, v, p)) a \<longleftrightarrow> ok \<and> a = Inr (True, v, off p) \<and> throwing p"
  "quiet_loop (Inl (Undefined_behaviour m)) a" "failed q \<Longrightarrow> quiet_loop (Inl e) (Inr (False, v, q))"
  by (simp_all add: quiet_def quiet_loop_def)

lemma get_token_off:
  assumes "throwing p"
  shows "\<exists>q. get_token p = Inr q \<and> get_token (off p) = Inr (off q) \<and> throwing q"
  using assms scan_total [of "p_lexer p"] by (auto simp: get_token_def throwing_def)

lemma expect_off:
  "throwing p \<Longrightarrow>
     if p_last_token p = t then expect t p = Inr (True, p) \<and> expect t (off p) = Inr (True, off p)
     else \<exists>e q. expect t p = Inl e \<and> expect t (off p) = Inr (False, q) \<and> failed q"
  by (simp add: throwing_def expect_def Let_def failed_def)

section \<open>The operations\<close>

lemma call_callback_off:
  "call_callback ev v (off p) = (case call_callback ev v p of (k, v', q) \<Rightarrow> (k, v', off q))"
  by (simp add: call_callback_def split: option.split prod.split)

lemma container_start_off:
  "container_start ev fresh keep (off p) = (case container_start ev fresh keep p of (k, v, q) \<Rightarrow> (k, v, off q))"
  by (auto simp: container_start_def call_callback_off split: prod.split)

lemma container_end_off:
  "container_end ev keep v (off p) = (case container_end ev keep v p of (v', q) \<Rightarrow> (v', off q))"
  using call_callback_off [of ev v "p\<lparr>p_depth := p_depth p - 1\<rparr>"]
  by (auto simp: container_end_def split: prod.split)

lemma value_event_off:
  "value_event keep (v, off p) = (case value_event keep (v, p) of (v', q) \<Rightarrow> (v', off q))"
  by (auto simp: value_event_def call_callback_off split: prod.split)

lemma throwing_same: "same_tokens p q \<Longrightarrow> throwing q = throwing p"
  and failed_same: "same_tokens p q \<Longrightarrow> failed q = failed p"
  by (simp_all add: same_tokens_def same_config_def throwing_def failed_def)

lemma value_event_quiet:
  "throwing p \<Longrightarrow> quiet (Inr (value_event keep (v, p))) (Inr (value_event keep (v, off p)))"
  using value_event_same(1) [of keep v p] throwing_same
  by (cases "value_event keep (v, p)") (auto simp: value_event_off)

lemma end_quiet:
  assumes "throwing p"
  shows "quiet (Inr (value_event keep (container_end ev k v p))) (Inr (value_event keep (container_end ev k v (off p))))"
proof -
  obtain w q where w: "container_end ev k v p = (w, q)" by fastforce
  with assms container_end_same(1) [OF w] value_event_quiet [of q keep w] show ?thesis
    by (simp add: container_end_off throwing_same)
qed

lemma loop_end_quiet:
  assumes "quiet_loop r r'"
  shows "quiet (bind_res r (\<lambda>(ok, v, q). Inr (if ok then value_event keep (container_end ev keep v q) else (v, q))))
    (bind_res r' (\<lambda>(ok, v, q). Inr (if ok then value_event keep (container_end ev keep v q) else (v, q))))"
proof (cases r)
  case (Inl e)
  with assms show ?thesis by (auto simp: quiet_loop_def quiet_def)
next
  case (Inr x)
  with assms end_quiet show ?thesis by (cases x) auto
qed

lemma scalar_quiet:
  assumes p: "throwing p"
  shows "quiet (bind_res (parse_scalar p) (\<lambda>(ok, v, q). Inr (if ok then value_event keep (v, q) else (v, q))))
    (bind_res (parse_scalar (off p)) (\<lambda>(ok, v, q). Inr (if ok then value_event keep (v, q) else (v, q))))"
proof -
  let ?f = "\<lambda>(ok, v, q). Inr (if ok then value_event keep (v, q) else (v, q))"
  have here: "quiet (bind_res (Inr (True, v, p)) ?f) (bind_res (Inr (True, v, off p)) ?f)" for v
    using value_event_quiet [OF p] by simp
  have bad: "quiet (bind_res (bind_res (expect t p) (\<lambda>(ok, p). Inr (ok, JDiscarded, p))) ?f)
      (bind_res (bind_res (expect t (off p)) (\<lambda>(ok, p). Inr (ok, JDiscarded, p))) ?f)" for t
    using expect_off [OF p, of t] value_event_quiet [OF p] by (auto split: if_splits)
  have float: "quiet (bind_res (parse_float p) ?f) (bind_res (parse_float (off p)) ?f)" if "p_last_token p = T_value_float"
  proof (cases "isfinite (value_float (p_lexer p))")
    case True
    then show ?thesis using here by (simp add: parse_float_def)
  next
    case False
    let ?v = "JFloat (value_float (p_lexer p))"
    obtain e q where q: "expect T_uninitialized (off p) = Inr (False, q)" "failed q"
      using expect_off [OF p, of T_uninitialized] \<open>p_last_token p = T_value_float\<close> by (auto split: if_splits)
    obtain v' q' where v: "value_event keep (?v, q) = (v', q')" by fastforce
    have "failed q'" using value_event_same(1) [OF v] q(2) by (simp add: failed_same)
    moreover have "parse_float p = Inl (Json_out_of_range 406 (''number overflow parsing '' @ [CHR 0x27]
        @ get_token_string (p_lexer p) @ [CHR 0x27]))"
      using False p by (simp add: parse_float_def throwing_def)
    moreover have "parse_float (off p) = Inr (True, ?v, q)" using False q(1) by (simp add: parse_float_def)
    ultimately show ?thesis using v by simp
  qed
  show ?thesis
    by (cases "p_last_token p") (use here bad float in \<open>simp_all add: parse_scalar_def\<close>)
qed

section \<open>The descent\<close>

definition internal_quiet :: "nat \<Rightarrow> 's parser \<Rightarrow> bool" where
  "internal_quiet n p \<longleftrightarrow> (\<forall>keep. throwing p \<longrightarrow> quiet (parse_internal n keep p) (parse_internal n keep (off p)))"

definition members_quiet :: "nat \<Rightarrow> 's parser \<Rightarrow> bool" where
  "members_quiet n p \<longleftrightarrow>
     (\<forall>keep v. throwing p \<longrightarrow> quiet_loop (parse_members n keep v p) (parse_members n keep v (off p)))"

definition elements_quiet :: "nat \<Rightarrow> 's parser \<Rightarrow> bool" where
  "elements_quiet n p \<longleftrightarrow>
     (\<forall>keep v. throwing p \<longrightarrow> quiet_loop (parse_elements n keep v p) (parse_elements n keep v (off p)))"

lemma container_quiet:
  fixes ev ev' :: parse_event_t and fresh :: json and keep :: bool and stop :: token_type and g :: "bool \<Rightarrow> bool"
  assumes p: "throwing p" and loop: "\<And>k w q. throwing q \<Longrightarrow> quiet_loop (f k w q) (f k w (off q))"
  defines "body \<equiv> \<lambda>p. (case container_start ev fresh keep p of (k, w, p) \<Rightarrow>
     bind_res (get_token p) (\<lambda>p.
     if p_last_token p = stop then Inr (value_event k (container_end ev' (g k) w p))
     else bind_res (f k w p) (\<lambda>(ok, v, q).
          Inr (if ok then value_event k (container_end ev' k v q) else (v, q)))))"
  shows "quiet (body p) (body (off p))"
proof -
  obtain k w q where s: "container_start ev fresh keep p = (k, w, q)"
    by (cases "container_start ev fresh keep p") auto
  then have "throwing q" using container_start_same(1) [OF s] p by (simp add: throwing_same)
  then obtain r where r: "get_token q = Inr r" "get_token (off q) = Inr (off r)" "throwing r"
    using get_token_off by blast
  show ?thesis
    using end_quiet [OF r(3), where keep = k and ev = ev' and k = "g k" and v = w]
      loop_end_quiet [OF loop [OF r(3), of k w], where keep = k and ev = ev']
    by (simp add: body_def container_start_off s r)
qed

lemma internal_quiet_step:
  fixes p :: "'s parser"
  assumes "\<And>p :: 's parser. members_quiet n p" "\<And>p :: 's parser. elements_quiet n p"
  shows "internal_quiet (Suc n) p"
  unfolding internal_quiet_def
proof (intro allI impI)
  fix keep assume p: "throwing p"
  then have e: "\<not> p_errored p" "\<not> p_errored (off p)" by (simp_all add: throwing_def)
  have loops: "quiet_loop (parse_members n k w q) (parse_members n k w (off q))"
    "quiet_loop (parse_elements n k w q) (parse_elements n k w (off q))" if "throwing q" for k w and q :: "'s parser"
    using assms that by (simp_all add: members_quiet_def elements_quiet_def)
  note m = container_quiet [where ev = E_object_start and fresh = "JObject []" and keep = keep and stop = T_end_object
          and ev' = E_object_end and g = "\<lambda>k. k" and f = "parse_members n", OF p loops(1)]
    and x = container_quiet [where ev = E_array_start and fresh = "JArray []" and keep = keep and stop = T_end_array
          and ev' = E_array_end and g = "\<lambda>k. True" and f = "parse_elements n", OF p loops(2)]
  consider "p_last_token p = T_begin_object" | "p_last_token p = T_begin_array"
    | "p_last_token p \<noteq> T_begin_object" "p_last_token p \<noteq> T_begin_array" by blast
  then show "quiet (parse_internal (Suc n) keep p) (parse_internal (Suc n) keep (off p))"
  proof cases
    case 1
    show ?thesis
      unfolding parse_internal.simps(2) asserting_holds [OF e(1)] asserting_holds [OF e(2)]
      by (simp only: 1 off_simps if_True if_False token_type.simps refl) (rule m)
  next
    case 2
    show ?thesis
      unfolding parse_internal.simps(2) asserting_holds [OF e(1)] asserting_holds [OF e(2)]
      by (simp only: 2 off_simps if_True if_False token_type.simps refl) (rule x)
  next
    case 3
    with e scalar_quiet [OF p, of keep] show ?thesis by (simp add: parse_internal.simps(2))
  qed
qed

lemma separator_quiet:
  fixes stop :: token_type and v :: json
  assumes p: "throwing p" and loop: "\<And>q. throwing q \<Longrightarrow> quiet_loop (f q) (f (off q))"
  defines "body \<equiv> \<lambda>p. bind_res (get_token p) (\<lambda>p.
       if p_last_token p = T_value_separator then bind_res (get_token p) f
       else bind_res (expect stop p) (\<lambda>(ok, p). Inr (ok, v, p)))"
  shows "quiet_loop (body p) (body (off p))"
proof -
  obtain q where q: "get_token p = Inr q" "get_token (off p) = Inr (off q)" "throwing q"
    using get_token_off [OF p] by blast
  obtain r where r: "get_token q = Inr r" "get_token (off q) = Inr (off r)" "throwing r"
    using get_token_off [OF q(3)] by blast
  show ?thesis
    using q r loop [OF r(3)] expect_off [OF q(3), of stop] by (auto simp: body_def split: if_splits)
qed

lemma elements_quiet_step:
  fixes p :: "'s parser"
  assumes "\<And>p :: 's parser. internal_quiet n p" "\<And>p :: 's parser. elements_quiet n p"
  shows "elements_quiet (Suc n) p"
  unfolding elements_quiet_def
proof (intro allI impI)
  fix keep v assume p: "throwing p"
  have i: "quiet (parse_internal n keep p) (parse_internal n keep (off p))"
    using assms(1) [of p] p by (simp add: internal_quiet_def)
  show "quiet_loop (parse_elements (Suc n) keep v p) (parse_elements (Suc n) keep v (off p))"
  proof (cases "parse_internal n keep p")
    case (Inl e)
    with i show ?thesis by (auto simp: parse_elements.simps(2) quiet_def failed_def)
  next
    case (Inr r)
    then obtain w q where r: "parse_internal n keep p = Inr (w, q)" by (cases r) auto
    with i have q: "parse_internal n keep (off p) = Inr (w, off q)" "throwing q" by simp_all
    then have e: "\<not> p_errored q" by (simp add: throwing_def)
    have "quiet_loop (parse_elements n keep u q) (parse_elements n keep u (off q))" if "throwing q" for u and q :: "'s parser"
      using assms(2) [of q] that by (simp add: elements_quiet_def)
    note s = separator_quiet [where stop = T_end_array and f = "parse_elements n keep u" for u, OF q(2) this]
    show ?thesis
    proof (cases "if keep \<and> w \<noteq> JDiscarded then append_element w v else Inr v")
      case (Inl f)
      then have "\<exists>m. f = Undefined_behaviour m" by (auto simp: append_element_def split: if_splits json.splits)
      with Inl e show ?thesis by (auto simp: parse_elements.simps(2) r q(1))
    next
      case (Inr u)
      with s [of u u] e show ?thesis by (simp add: parse_elements.simps(2) r q(1))
    qed
  qed
qed

lemma members_quiet_step:
  fixes p :: "'s parser"
  assumes "\<And>p :: 's parser. internal_quiet n p" "\<And>p :: 's parser. members_quiet n p"
  shows "members_quiet (Suc n) p"
  unfolding members_quiet_def
proof (intro allI impI)
  fix keep v assume p: "throwing p"
  show "quiet_loop (parse_members (Suc n) keep v p) (parse_members (Suc n) keep v (off p))"
  proof (cases "p_last_token p = T_value_string")
    case False
    with expect_off [OF p, of T_value_string] show ?thesis
      by (auto simp: parse_members.simps(2) split: if_splits)
  next
    case str: True
    let ?key = "token_buffer (p_lexer p)"
    obtain tag w q where kt: "(if keep then call_callback E_key (JString ?key) p else (False, JNull, p)) = (tag, w, q)"
      by (cases "if keep then call_callback E_key (JString ?key) p else (False, JNull, p)") auto
    then have kt': "(if keep then call_callback E_key (JString ?key) (off p)
        else (False, JNull, off p)) = (tag, w, off q)"
      by (auto simp: call_callback_off split: if_splits prod.splits)
    have "same_tokens p q" using kt by (auto split: if_splits dest: call_callback_same)
    then have "throwing q" using p by (simp add: throwing_same)
    then obtain r where r: "get_token q = Inr r" "get_token (off q) = Inr (off r)" "throwing r"
      using get_token_off by blast
    obtain t where t: "get_token r = Inr t" "get_token (off r) = Inr (off t)" "throwing t"
      using get_token_off [OF r(3)] by blast
    have x: "expect T_value_string p = Inr (True, p)" "expect T_value_string (off p) = Inr (True, off p)"
      using expect_off [OF p, of T_value_string] str by simp_all
    show ?thesis
    proof (cases "p_last_token r = T_name_separator")
      case False
      show ?thesis
        using expect_off [OF r(3), of T_name_separator] False r
        unfolding parse_members.simps(2) x bind_res_Inr prod.case Let_def off_simps kt kt' not_True_eq_False if_False
        by (auto simp: r)
    next
      case True
      then have y: "expect T_name_separator r = Inr (True, r)" "expect T_name_separator (off r) = Inr (True, off r)"
        using expect_off [OF r(3), of T_name_separator] by simp_all
      have i: "quiet (parse_internal n keep t) (parse_internal n keep (off t))"
        using assms(1) [of t] t(3) by (simp add: internal_quiet_def)
      define rest where "rest = (\<lambda>(w, p). if p_errored p then Inr (False, v, p)
          else bind_res (if keep \<and> tag \<and> w \<noteq> JDiscarded then emplace_member ?key w v else Inr v) (\<lambda>result.
               bind_res (get_token p) (\<lambda>p. if p_last_token p = T_value_separator
                 then bind_res (get_token p) (\<lambda>p. parse_members n keep result p)
                 else bind_res (expect T_end_object p) (\<lambda>(ok, p :: 's parser). Inr (ok, result, p)))))"
      have e: "parse_members (Suc n) keep v p = bind_res (parse_internal n keep t) rest"
        "parse_members (Suc n) keep v (off p) = bind_res (parse_internal n keep (off t)) rest"
        unfolding parse_members.simps(2) x bind_res_Inr prod.case Let_def kt kt' not_True_eq_False if_False
          r y t off_simps rest_def by (rule refl)+
      show ?thesis
      proof (cases "parse_internal n keep t")
        case (Inl f)
        with i show ?thesis unfolding e by (auto simp: quiet_def failed_def rest_def)
      next
        case (Inr z)
        then obtain u q' where z: "parse_internal n keep t = Inr (u, q')" by (cases z) auto
        with i have q': "parse_internal n keep (off t) = Inr (u, off q')" "throwing q'" by simp_all
        then have err: "\<not> p_errored q'" by (simp add: throwing_def)
        have "quiet_loop (parse_members n keep u q) (parse_members n keep u (off q))" if "throwing q" for u and q :: "'s parser"
          using assms(2) [of q] that by (simp add: members_quiet_def)
        note s = separator_quiet [where stop = T_end_object and f = "parse_members n keep u" for u, OF q'(2) this]
        show ?thesis
        proof (cases "if keep \<and> tag \<and> u \<noteq> JDiscarded then emplace_member ?key u v else Inr v")
          case (Inl f)
          then have "\<exists>m. f = Undefined_behaviour m" by (auto simp: emplace_member_def split: if_splits json.splits)
          with Inl err show ?thesis unfolding e z q'(1) by (auto simp: rest_def)
        next
          case (Inr m)
          with s [of m m] err show ?thesis unfolding e z q'(1) by (simp add: rest_def)
        qed
      qed
    qed
  qed
qed

lemma descents_quiet: "internal_quiet n p \<and> members_quiet n p \<and> elements_quiet n p"
proof (induction n arbitrary: p)
  case 0
  show ?case
    by (simp add: internal_quiet_def members_quiet_def elements_quiet_def parse_internal.simps(1)
        parse_members.simps(1) parse_elements.simps(1))
next
  case (Suc n)
  have "internal_quiet n q" "members_quiet n q" "elements_quiet n q" for q :: "'a parser"
    using Suc.IH [of q] by simp_all
  then show ?case using internal_quiet_step [of n p] members_quiet_step [of n p] elements_quiet_step [of n p] by simp
qed

lemma failed_end:
  assumes "failed p"
  shows "\<exists>q. bind_res (get_token p) (\<lambda>p. bind_res (expect t p) (\<lambda>(_, p). Inr p)) = Inr q \<and> p_errored q"
proof -
  obtain q where q: "get_token p = Inr q" "failed q"
    using scan_total [of "p_lexer p"] assms by (auto simp: get_token_def failed_def)
  then show ?thesis by (simp add: expect_def failed_def)
qed

text \<open>Property C12: with \<open>allow_exceptions\<close> off, \<open>parse\<close> returns for every input: the value it returns with
  exceptions on, or a discarded value exactly for the inputs for which it throws then.  This holds with
  any callback.\<close>

theorem parse_without_exceptions:
  "json_parse i cb s False = Inr (case json_parse i cb s True of Inr v \<Rightarrow> v | Inl _ \<Rightarrow> JDiscarded)"
proof -
  define p where "p = parser_new i cb s True"
  have p: "throwing p" "off p = parser_new i cb s False" by (simp_all add: p_def parser_new_def throwing_def off_def)
  obtain q where q: "get_token p = Inr q" "get_token (off p) = Inr (off q)" "throwing q"
    using get_token_off [OF p(1)] by blast
  obtain q0 where "get_token p = Inr q0" "next_token p q0" using get_token_wp [of p] by (cases "get_token p") auto
  then have "token_ok q" using q(1) by (simp add: next_token_def)
  then have total: "wp (parse_internal (parser_fuel q) True q) (\<lambda>(v, r). parsed True q v r) (parse_failure True)"
    using parse_internal_wp [of q True] q(3) by (simp add: throwing_def)
  have fuel: "parser_fuel (off q) = parser_fuel q" by (simp add: parser_fuel_def)
  have i: "quiet (parse_internal (parser_fuel q) True q) (parse_internal (parser_fuel q) True (off q))"
    using descents_quiet [of "parser_fuel q" q] q(3) by (simp add: internal_quiet_def)
  show ?thesis
  proof (cases "parse_internal (parser_fuel q) True q")
    case (Inl e)
    then have "\<not> (\<exists>m. e = Undefined_behaviour m)" using total by (auto simp: parse_failure_def)
    with Inl i obtain v r where r: "parse_internal (parser_fuel q) True (off q) = Inr (v, r)" "failed r"
      by (auto simp: quiet_def)
    obtain r' where "bind_res (get_token r) (\<lambda>p. bind_res (expect T_end_of_input p) (\<lambda>(_, p). Inr p)) = Inr r'" "p_errored r'"
      using failed_end [OF r(2)] by blast
    with Inl r q show ?thesis
      by (simp add: json_parse_def parser_parse_def fuel flip: p_def p(2))
  next
    case (Inr x)
    then obtain v r where x: "parse_internal (parser_fuel q) True q = Inr (v, r)" by (cases x) auto
    with i have r: "parse_internal (parser_fuel q) True (off q) = Inr (v, off r)" "throwing r" by simp_all
    obtain t where t: "get_token r = Inr t" "get_token (off r) = Inr (off t)" "throwing t"
      using get_token_off [OF r(2)] by blast
    have "\<not> p_errored t" using t(3) by (simp add: throwing_def)
    with x r t q expect_off [OF t(3), of T_end_of_input] show ?thesis
      by (auto simp: json_parse_def parser_parse_def fuel failed_def split: if_splits simp flip: p_def p(2))
  qed
qed

end
