(* ===== verification/Spec2Isabelle.thy ===== *)
theory Spec2Isabelle
  imports Sentry_Api Backtrace_Properties Hub_Properties Http_Client_Content Scope_Runner
    Json_Parser_Equivalence Json_Parser_Quiet
begin

text \<open>
  A verification development for SentryCpp, a C++ client library that reports events of a program to
  a Sentry server.

  \<^bold>\<open>The program.\<close>  An application calls the functions of \<open>include/sentry.h\<close> (\<open>src/sentry.cpp\<close>), which
  forward to one static \<open>Hub\<close> (\<open>src/hub.cpp\<close>).  The hub keeps a \<open>Scope\<close> (\<open>src/scope.cpp\<close>: tags, extras,
  breadcrumbs, user and context), limits how often the same message is sent, makes the payload of an
  event as a JSON value, prints it (\<open>externals/json-3.1.2/json.h\<close>) and hands the text to a \<open>Transport\<close>
  (\<open>src/transport.cpp\<close>).  The transport parses the DSN, queues closures, and a worker thread runs
  them: each posts one text over an HTTP client (\<open>externals/http-server-3.0.0\<close>), and the answer
  decides whether the worker goes on, waits (connection error, status 429) or drops everything.
  Stack traces come from \<open>src/backtracehandler.cpp\<close>.

  \<^bold>\<open>How the model is built.\<close>  A class is a record with the source's field names, a member function a
  HOL function from the object (and the inputs it takes from outside: clock, random numbers, answers
  of the network) to the result and the new object.  Exceptions, undefined behaviour, failed
  assertions and \<open>std::terminate\<close> are values of \<open>failure\<close> (theory \<open>Sentry_Prelude\<close>); machine integers are
  words.  The theories, with what each models and shows:

  \<^item> \<open>Sentry_Prelude\<close>, \<open>Cxx_Strings\<close>, \<open>Ordered_Map\<close>: shared vocabulary; \<open>std::string\<close> with \<open>find\<close>, \<open>substr\<close>,
    \<open>std::stoul\<close>, number printing, lines; \<open>std::map\<close> and \<open>std::multimap\<close> as ordered association lists.  The
    locales \<open>std_map\<close> and \<open>std_multimap\<close> state the interface the clients use and are interpreted on them.
  \<^item> \<open>Json_Value\<close> (class \<open>basic_json\<close>: construction from initializer lists, \<open>operator[]\<close>, \<open>push_back\<close>, \<open>insert\<close>,
    \<open>get\<close> with their exceptions), \<open>Utf8\<close> (\<open>serializer::decode\<close>, against RFC 3629), \<open>Json_Dump\<close>
    (\<open>serializer::dump\<close>, \<open>dump_escaped\<close>, \<open>dump_integer\<close>): the text of a value is the reference text
    \<open>json_text\<close>, and the fixed buffers never overflow.
  \<^item> \<open>Json_Float\<close> (\<open>detail::dtoa_impl\<close>, that is Grisu2 on 64-bit words, and \<open>to_chars\<close>).  \<open>Json_Float_Digits\<close>:
    multiplication, rounding and digit generation; \<open>Json_Float_Scaling\<close>: the boundaries of a double and the
    accuracy of the table of powers of ten; \<open>Json_Float_Text\<close>: the formats; \<open>Json_Float_Roundtrip\<close>: every
    finite double is printed, no assertion fails, at most 17 digits are used and the printed number is
    nearest to this double alone.
  \<^item> \<open>Json_Input\<close> (the input adapters; the locale \<open>input_adapter_protocol\<close> is their abstract class),
    \<open>C_Numbers\<close> (\<open>strtoull\<close>, \<open>strtoll\<close>, \<open>strtod\<close> of the C library, the last with correct rounding), \<open>Json_Lexer\<close>
    (class \<open>lexer\<close>) and \<open>Json_Parser\<close> (class \<open>parser\<close>, \<open>basic_json::parse\<close>, \<open>accept\<close>).  \<open>Json_Lexer_Numbers\<close> and
    \<open>Json_Lexer_Strings\<close>: what the scanners read, and that no assertion fails; \<open>Json_Parser_Properties\<close>: the
    parser returns for every input and callback, with a valid value or one of two exceptions;
    \<open>Json_Parser_Equivalence\<close>: \<open>accept\<close> agrees with \<open>parse\<close>; \<open>Json_Parser_Quiet\<close>: exceptions switched off.
    The descent is bounded by the fuel \<open>parser_fuel\<close>, twice the unread characters plus three, and the
    first of these theorems shows that it is enough.
  \<^item> \<open>Sentry_Common\<close> (\<open>sentry_common.h\<close>), \<open>Scope\<close> (class \<open>Scope\<close>; the locale \<open>value_store\<close> is the contract of its
    tag and extra stores), \<open>Time_Stamp\<close> (the time functions of \<open>hub.cpp\<close> over the C library's calendar).
  \<^item> \<open>Regex_Match\<close>, \<open>Dsn\<close>: a backtracking matcher for the regular expression of \<open>SentryDSN::parseDSN\<close>, proved
    sound and complete for the language of the expression, and what the parser accepts and returns.
  \<^item> \<open>Http_Status\<close>, \<open>Simple_Web\<close>, \<open>Http_Message\<close>: status lines, headers with case-insensitive keys, percent
    encoding, query strings, and the parsers of requests and responses, with round trips.
  \<^item> \<open>Http_Client\<close>, \<open>Http_Client_Properties\<close>, \<open>Http_Client_Content\<close>: the state machine of one request in
    \<open>client_http.hpp\<close>.  Each completion handler is a function on the heap of connections and sessions;
    \<open>io_step\<close> completes the pending operation with an input for which only asio's documented contract
    holds, \<open>io_run\<close> repeats it.  A peer sends finitely many bytes on each connection and then closes it, or
    is silent, and then only the timer of the connection ends the operation.  A request ends for every
    peer if a timeout is set or no peer is silent, waits for ever for a silent peer without a timeout, is
    written at most twice, and returns the content the peer sent.  The chunk decoder is exact for chunks
    below \<open>2 ^ 62\<close> bytes, and the content theorems hold for the default response limit of \<open>2 ^ 64 - 1\<close> bytes.
  \<^item> \<open>Scope_Runner\<close>: the lock the handlers and the client's destructor share, as a step relation over all
    interleavings of its atomic operations.
  \<^item> \<open>Transport\<close>: queue, worker loop, states, retry and the 429 delay; \<open>run_ops\<close> is the loop run on a
    sequence of calls and iterations, \<open>drain\<close> the loop after \<open>stop\<close> (\<open>None\<close>: it never ends).  The locale
    \<open>event_sink\<close> is the contract between hub and transport.
  \<^item> \<open>Hub\<close>, \<open>Hub_Properties\<close>, \<open>Sentry_Api\<close>: every member function of \<open>Hub\<close> and every public function, the rate
    limit (and the undefined behaviour of its forgetting, which ends a run), the payload, initialisation, the signal and terminate handlers, and what reaches the queue.
  \<^item> \<open>Backtrace\<close>, \<open>Backtrace_Properties\<close>: from addresses to frames with source lines.
  \<^item> This theory: what an event captured by the hub means for the wire, across hub, serializer, transport.

  \<^bold>\<open>Not modelled.\<close>  asio (sockets, timers, the event loop; its completions are inputs) and a
  peer that never stops sending; parser callbacks that throw; a locale of the C library other than C; the HTTP server,
  TLS and WebSocket parts of SimpleWeb and the request overloads that take a stream, which the library
  never calls; JSON pointers, patches and binary formats, which it never calls either;
  BFD, the demangler and \<open>dl_iterate_phdr\<close>, whose answers are inputs; debugging output on \<open>std::cout\<close>.
\<close>

section \<open>From an event to the wire\<close>

text \<open>Property C3: an event captured by the hub is handed to the HTTP client.  The event and the scope are
  well formed and UTF-8, the clock is before the year 10000, the rate limit lets the event through and
  sampling selects it; the worker runs, is not in \<open>DROP_EVENTS\<close> and accepts events; and while it is being
  stopped the clock advances, no reply has status 429, and no request throws anything but a connection
  error.  Then the stop returns, and the texts handed to the client are those sent or queued before, in
  order, followed by the JSON text of a payload with the event's and the scope's fields, exactly once.
  Whether the server receives it is another matter: a refused request is not repeated (see C35).\<close>

theorem captured_event_is_posted:
  assumes "clock_ok env" "event_ok event" "scope_sendable (m_scope h)"
    and "hub_pHttpClient h = Some t" "accepts_events t" "sampled env h" "within_limit env event h"
    and "m_thread_joinable t" "m_pHttpClient t \<noteq> None" "m_state t \<noteq> DROP_EVENTS"
    and "\<forall>i. harmless (ticks i)" "clock_advances ticks"
  shows "\<exists>p h' t' t''. Hub_captureEvent env event h = (Inr (generateUuid (env_uuid env)), h')
    \<and> hub_pHttpClient h' = Some t' \<and> Transport_stop False ticks t' = Some (Inr (), t'')
    \<and> wire_contents t'' = wire_contents t @ queued_contents t @ [json_text p]
    \<and> (\<forall>k. json_find k p
         = payload_field (generateUuid (env_uuid env)) (event_time env) event (m_scope h) k)"
proof -
  obtain p b where p: "\<forall>k. json_find k p = payload_field (generateUuid (env_uuid env)) (event_time env) event (m_scope h) k"
    "Hub_captureEvent env event h = (Inr (generateUuid (env_uuid env)),
        (remember_message env event (h\<lparr>m_lastEventId := generateUuid (env_uuid env)\<rparr>))
          \<lparr>hub_pHttpClient := Some (sendEvent (json_text p) t),
           m_scope := Scope_addBreadcrumb b (m_scope h)\<rparr>)"
    using captureEvent_delivers [OF assms(1-4,6,7)] by blast
  let ?t = "sendEvent (json_text p) t"
  have "m_thread_joinable ?t" "m_pHttpClient ?t \<noteq> None" "m_state ?t \<noteq> DROP_EVENTS" "wire_contents ?t = wire_contents t"
    using assms(5,8-10) by (auto simp: sendEvent_def addActionToQueue_def accepts_events_def wire_contents_def)
  from stop_posts_all [OF assms(11,12) this(1-3)] this(4) obtain t'' where
    "Transport_stop False ticks ?t = Some (Inr (), t'')"
    "wire_contents t'' = wire_contents t @ queued_contents t @ [json_text p]"
    using sink.queued_send [OF assms(5)] by auto
  with p show ?thesis by (intro exI [of _ p] exI [of _ ?t] exI [of _ t'']) simp
qed

theorem captured_event_is_posted_witness:
  "\<exists>p h' t' t''. Hub_captureEvent (sample_env [1, 2] 1570000000) sample_event sample_hub = (Inr (generateUuid [1, 2]), h')
    \<and> hub_pHttpClient h' = Some t'
    \<and> Transport_stop False (\<lambda>i. reply_at (int i) ''200 OK'' []) t' = Some (Inr (), t'')
    \<and> wire_contents t'' = [json_text p] \<and> json_find ''message'' p = Some (JString ''hi'')"
proof -
  let ?env = "sample_env [1, 2] 1570000000"
  let ?ticks = "\<lambda>i. reply_at (int i) ''200 OK'' []"
  have "\<forall>i. harmless (?ticks i)" by (simp add: harmless_def reply_at_def)
  moreover have "clock_advances ?ticks"
    unfolding clock_advances_def
  proof
    fix b
    show "\<exists>n. \<forall>i\<ge>n. b \<le> tick_now (?ticks i)"
      by (rule exI [of _ "nat b"]) (auto simp: reply_at_def nat_le_iff)
  qed
  moreover have "within_limit ?env sample_event sample_hub"
    by (simp add: within_limit_def sample_event_ok sample_facts mm_count_def)
  moreover have "m_thread_joinable ready_transport" "m_pHttpClient ready_transport \<noteq> None" "m_state ready_transport \<noteq> DROP_EVENTS"
    by (simp_all add: ready_transport_def Transport_new_def)
  moreover have "wire_contents ready_transport = []" "queued_contents ready_transport = []"
    by (simp_all add: ready_transport_def wire_contents_def queued_contents_def Transport_new_def)
  ultimately show ?thesis
    using captured_event_is_posted [of ?env sample_event sample_hub ready_transport ?ticks]
      sample_facts sample_event_ok
    by (fastforce simp: payload_field_def sample_env_def)
qed

end
